(* ===== verification/Prelude.thy ===== *)
theory Prelude
  imports Main "HOL-Library.Word"
begin

text \<open>
  Shared vocabulary of the development: the machine types of
  \<^verbatim>\<open>include/types.h\<close>, the outcome type of a kernel routine, the sequencing
  combinators in which every stateful routine is written, and generic facts on lists,
  loops and little-endian words.

  A kernel routine is a function from the state to an outcome:
  \<^item> \<open>Ret v s\<close>: it returned \<open>v\<close> and left the state \<open>s\<close>;
  \<^item> \<open>Panic msg\<close>: it called \<^verbatim>\<open>panic(msg)\<close>, which never returns;
  \<^item> \<open>Switch s\<close>: it reached \<^verbatim>\<open>context_switch\<close> in state \<open>s\<close>, so
    the process gave up its processor (it sleeps, yields or exits);
  \<^item> \<open>Spin\<close>: it busy-waits for a spin lock another processor holds;
  \<^item> \<open>NoFuel\<close>: a loop with no bound in the source used up the fuel it was given.
\<close>

unbundle bit_operations_syntax

type_synonym u8 = "8 word"
type_synonym u16 = "16 word"
type_synonym u32 = "32 word"
type_synonym u64 = "64 word"

type_synonym memory = "u64 \<Rightarrow> u8"

named_theorems kernel_simps "evaluation rules of the sequencing combinators"
named_theorems quiet_simps "facts that an update leaves the lock and interrupt state alone"

section \<open>Outcomes and sequencing\<close>

datatype ('a, 's) res =
    Ret 'a 's
  | Panic string
  | Switch 's
  | Spin
  | NoFuel

type_synonym ('s, 'a) kernel = "'s \<Rightarrow> ('a, 's) res"

definition retK :: "'a \<Rightarrow> ('s, 'a) kernel" where
  "retK a s = Ret a s"

definition bindK :: "('s, 'a) kernel \<Rightarrow> ('a \<Rightarrow> ('s, 'b) kernel) \<Rightarrow> ('s, 'b) kernel" where
  "bindK m f s =
     (case m s of
        Ret a t \<Rightarrow> f a t
      | Panic e \<Rightarrow> Panic e
      | Switch t \<Rightarrow> Switch t
      | Spin \<Rightarrow> Spin
      | NoFuel \<Rightarrow> NoFuel)"

definition thenK :: "('s, 'a) kernel \<Rightarrow> ('s, 'b) kernel \<Rightarrow> ('s, 'b) kernel" where
  "thenK m n = bindK m (\<lambda>_. n)"

definition getK :: "('s \<Rightarrow> 'a) \<Rightarrow> ('s, 'a) kernel" where
  "getK g s = Ret (g s) s"

definition modK :: "('s \<Rightarrow> 's) \<Rightarrow> ('s, unit) kernel" where
  "modK f s = Ret () (f s)"

definition panicK :: "string \<Rightarrow> ('s, 'a) kernel" where
  "panicK e s = Panic e"

definition whenK :: "bool \<Rightarrow> ('s, unit) kernel \<Rightarrow> ('s, unit) kernel" where
  "whenK b m = (if b then m else retK ())"

text \<open>A statement list, run in order.\<close>

fun seqK :: "('s, unit) kernel list \<Rightarrow> ('s, unit) kernel" where
  "seqK [] = retK ()"
| "seqK (m # ms) = thenK m (seqK ms)"

text \<open>
  The two shapes of a \<^verbatim>\<open>for\<close> loop over a table: one that visits every index,
  and one whose body may leave the function (\<open>Some\<close> of what it returns).
\<close>

fun forK :: "'i list \<Rightarrow> ('i \<Rightarrow> ('s, unit) kernel) \<Rightarrow> ('s, unit) kernel" where
  "forK [] body = retK ()"
| "forK (i # is) body = thenK (body i) (forK is body)"

fun untilK :: "'i list \<Rightarrow> ('i \<Rightarrow> ('s, 'a option) kernel) \<Rightarrow> ('s, 'a option) kernel" where
  "untilK [] body = retK None"
| "untilK (i # is) body =
     bindK (body i) (\<lambda>r. case r of None \<Rightarrow> untilK is body | Some v \<Rightarrow> retK (Some v))"

subsection \<open>Evaluation\<close>

lemma retK_apply [simp, kernel_simps]: "retK a s = Ret a s"
  by (simp add: retK_def)

lemma getK_apply [simp, kernel_simps]: "getK g s = Ret (g s) s"
  by (simp add: getK_def)

lemma modK_apply [simp, kernel_simps]: "modK f s = Ret () (f s)"
  by (simp add: modK_def)

lemma panicK_apply [simp, kernel_simps]: "panicK e s = Panic e"
  by (simp add: panicK_def)

lemma whenK_simps [simp, kernel_simps]:
  "whenK True m = m" "whenK False m = retK ()"
  by (simp_all add: whenK_def)

lemma whenK_apply: "whenK b m s = (if b then m s else Ret () s)"
  by (simp add: whenK_def)

lemma bindK_Ret [simp, kernel_simps]: "m s = Ret a t \<Longrightarrow> bindK m f s = f a t"
  by (simp add: bindK_def)

lemma thenK_Ret [simp, kernel_simps]: "m s = Ret a t \<Longrightarrow> thenK m n s = n t"
  by (simp add: thenK_def)

lemma bindK_Panic: "m s = Panic e \<Longrightarrow> bindK m f s = Panic e"
  by (simp add: bindK_def)

lemma bindK_basic [simp, kernel_simps]:
  "bindK (retK a) f s = f a s"
  "bindK (getK g) f s = f (g s) s"
  "bindK (modK h) k s = k () (h s)"
  "bindK (panicK e) k' s = Panic e"
  by (simp_all add: bindK_def)

lemma thenK_basic [simp, kernel_simps]:
  "thenK (retK a) n s = n s"
  "thenK (modK h) n s = n (h s)"
  "thenK (panicK e) n s = Panic e"
  by (simp_all add: thenK_def)

lemma bindK_if [kernel_simps]:
  "bindK (if b then m else n) f s = (if b then bindK m f s else bindK n f s)"
  by (simp add: bindK_def)

lemma bindK_whenK [simp, kernel_simps]:
  "bindK (whenK b m) f s = (if b then bindK m f s else f () s)"
  "thenK (whenK b m) n s = (if b then thenK m n s else n s)"
  by (simp_all add: thenK_def)

lemma bindK_assoc: "bindK (bindK m f) g s = bindK m (\<lambda>a. bindK (f a) g) s"
  by (simp add: bindK_def split: res.splits)

lemma bindK_retK [simp]: "bindK m retK = m"
  by (rule ext) (simp add: bindK_def split: res.splits)

lemma thenK_retK_left [simp]: "thenK (retK a) m = m"
  by (rule ext) (simp add: thenK_def)

lemma thenK_retK [simp]: "thenK m (retK ()) = m"
  by (rule ext) (simp add: thenK_def bindK_def split: res.splits)

lemma bindK_eq_Ret_iff:
  "bindK m f s = Ret b u \<longleftrightarrow> (\<exists>a t. m s = Ret a t \<and> f a t = Ret b u)"
  by (auto simp: bindK_def split: res.splits)

lemma thenK_eq_Ret_iff:
  "thenK m n s = Ret b u \<longleftrightarrow> (\<exists>a t. m s = Ret a t \<and> n t = Ret b u)"
  by (simp add: thenK_def bindK_eq_Ret_iff)

lemma whenK_eq_Ret_iff:
  "whenK b m s = Ret x u \<longleftrightarrow> (if b then m s = Ret () u else u = s)"
  by (auto simp: whenK_def)

lemmas ret_iffs = bindK_eq_Ret_iff thenK_eq_Ret_iff whenK_eq_Ret_iff

lemma forK_append: "forK (is @ js) body s = thenK (forK is body) (forK js body) s"
  by (induction "is" arbitrary: s) (auto simp: thenK_def bindK_def split: res.splits)

text \<open>A loop that only updates the state is a fold of its updates.\<close>

lemma forK_fold:
  assumes "\<And>i t. i \<in> set is \<Longrightarrow> P t \<Longrightarrow> body i t = Ret () (upd i t) \<and> P (upd i t)"
    and "P s"
  shows "forK is body s = Ret () (fold upd is s) \<and> P (fold upd is s)"
  using assms
  by (induction "is" arbitrary: s) (auto simp: thenK_def)

text \<open>A search loop that changes nothing until it finds its index.\<close>

lemma untilK_skip:
  assumes "\<And>i. i \<in> set is \<Longrightarrow> body i s = Ret None s"
  shows "untilK (is @ js) body s = untilK js body s"
  using assms by (induction "is") auto

lemma untilK_None:
  assumes "\<And>i. i \<in> set is \<Longrightarrow> body i s = Ret None s"
  shows "untilK is body s = Ret None s"
  using assms by (induction "is") auto

lemma untilK_find:
  assumes "\<And>i. i \<in> set is \<Longrightarrow> \<not> P i \<Longrightarrow> body i s = Ret None s"
    and "\<And>i. i \<in> set is \<Longrightarrow> P i \<Longrightarrow> body i s = Ret (Some (v i)) (upd i)"
  shows "untilK is body s =
    (case find P is of None \<Rightarrow> Ret None s | Some i \<Rightarrow> Ret (Some (v i)) (upd i))"
  using assms by (induction "is") auto

section \<open>Sequences of updates\<close>

text \<open>\<open>puts X a v i\<close> is \<open>X\<close> after \<open>X[a 0] := v 0, \<dots>, X[a (i - 1)] := v (i - 1)\<close>.\<close>

primrec puts :: "('n \<Rightarrow> 'd) \<Rightarrow> (nat \<Rightarrow> 'n) \<Rightarrow> (nat \<Rightarrow> 'd) \<Rightarrow> nat \<Rightarrow> 'n \<Rightarrow> 'd" where
  "puts X a v 0 = X"
| "puts X a v (Suc i) = (puts X a v i)(a i := v i)"

lemma puts_other: "(\<And>j. j < i \<Longrightarrow> a j \<noteq> k) \<Longrightarrow> puts X a v i k = X k"
  by (induction i) auto

lemma puts_same: "inj_on a {..<i} \<Longrightarrow> j < i \<Longrightarrow> puts X a v i (a j) = v j"
proof (induction i)
  case (Suc i)
  show ?case
  proof (cases "j = i")
    case False
    then have "a j \<noteq> a i" using Suc.prems by (auto simp: inj_on_def)
    moreover have "inj_on a {..<i}" by (rule inj_on_subset [OF Suc.prems(1)]) auto
    ultimately show ?thesis using Suc.IH Suc.prems(2) False by simp
  qed simp
qed simp

lemma puts_cases:
  "puts X a v i k = X k \<or> (\<exists>j<i. k = a j \<and> puts X a v i k = v j)"
  by (induction i) (auto simp: less_Suc_eq)

lemma puts_agree: "(\<And>j. j < i \<Longrightarrow> v j = X (a j)) \<Longrightarrow> puts X a v i = X"
  by (induction i) auto

lemma puts_cong: "(\<And>j. j < i \<Longrightarrow> a j = b j \<and> v j = w j) \<Longrightarrow> puts X a v i = puts X b w i"
  by (induction i) auto

section \<open>Lists\<close>

lemma find_unique:
  assumes "x \<in> set xs" "P x" "\<And>y. y \<in> set xs \<Longrightarrow> P y \<Longrightarrow> y = x"
  shows "find P xs = Some x"
proof (cases "find P xs")
  case None
  then show ?thesis using assms(1,2) by (simp add: find_None_iff)
next
  case (Some y)
  then have "y \<in> set xs" "P y" by (auto simp: find_Some_iff)
  then show ?thesis using Some assms(3) [of y] by simp
qed

lemma find_upt_SomeI:
  assumes "i < n" "P i" "\<And>j. j < i \<Longrightarrow> \<not> P j"
  shows "find P [0..<n] = Some i"
  unfolding find_Some_iff by (rule exI [of _ i]) (use assms in auto)

lemma find_upt_SomeD:
  assumes "find P [0..<n] = Some i"
  shows "i < n \<and> P i \<and> (\<forall>j<i. \<not> P j)"
  using assms by (auto simp: find_Some_iff)

lemma find_upt_NoneD: "find P [0..<n] = None \<Longrightarrow> i < n \<Longrightarrow> \<not> P i"
  by (auto simp: find_None_iff)

end
