(* ===== verification/Riscv.thy ===== *)
theory Riscv
  imports Prelude
begin

text \<open>
  The machine-level constants and macros of \<^verbatim>\<open>include/riscv.h\<close> and
  \<^verbatim>\<open>include/memlayout.h\<close>: page rounding, Sv39 page-table indices, the packing
  of page-table entries, the interrupt bit of \<^verbatim>\<open>sstatus\<close>, and the layout of
  the address space. All of it is 64-bit arithmetic, kept on \<open>64 word\<close>.
\<close>

section \<open>Definitions\<close>

subsection \<open>Pages and page-table entries (riscv.h)\<close>

definition PAGE_SIZE :: u64 where "PAGE_SIZE = 4096"

definition PAGE_ROUND_UP :: "u64 \<Rightarrow> u64" where
  "PAGE_ROUND_UP n = (n + PAGE_SIZE - 1) AND NOT (PAGE_SIZE - 1)"

definition PAGE_ROUND_DOWN :: "u64 \<Rightarrow> u64" where
  "PAGE_ROUND_DOWN n = n AND NOT (PAGE_SIZE - 1)"

definition PXSHIFT :: "nat \<Rightarrow> nat" where
  "PXSHIFT level = 12 + 9 * level"

definition PX :: "u64 \<Rightarrow> nat \<Rightarrow> u64" where
  "PX va level = drop_bit (PXSHIFT level) va AND 0x1ff"

definition PTE2PA :: "u64 \<Rightarrow> u64" where
  "PTE2PA pte = push_bit 12 (drop_bit 10 pte)"

definition PA2PTE :: "u64 \<Rightarrow> u64" where
  "PA2PTE pa = push_bit 10 (drop_bit 12 pa)"

definition PTE_FLAGS :: "u64 \<Rightarrow> u64" where
  "PTE_FLAGS pte = pte AND 0x3ff"

definition PTE_V :: u64 where "PTE_V = 1"
definition PTE_R :: u64 where "PTE_R = 2"
definition PTE_W :: u64 where "PTE_W = 4"
definition PTE_X :: u64 where "PTE_X = 8"
definition PTE_U :: u64 where "PTE_U = 16"

definition SSTATUS_SPP :: u64 where "SSTATUS_SPP = 0x100"
definition SSTATUS_SPIE :: u64 where "SSTATUS_SPIE = 0x20"
definition SSTATUS_SIE :: u64 where "SSTATUS_SIE = 2"

definition MAKE_SATP :: "u64 \<Rightarrow> u64" where
  "MAKE_SATP page_table = push_bit 60 8 OR drop_bit 12 page_table"

subsection \<open>Address space (memlayout.h)\<close>

definition MAX_PADDR :: u64 where "MAX_PADDR = 0x88000000"
definition MAX_VADDR :: u64 where "MAX_VADDR = push_bit (9 + 9 + 9 + 12 - 1) 1"
definition TRAMPOLINE :: u64 where "TRAMPOLINE = MAX_VADDR - PAGE_SIZE"
definition TRAP_FRAME :: u64 where "TRAP_FRAME = TRAMPOLINE - PAGE_SIZE"
definition USER_STACK_SIZE :: u64 where "USER_STACK_SIZE = PAGE_SIZE"
definition USER_STACK_TOP :: u64 where "USER_STACK_TOP = TRAP_FRAME - PAGE_SIZE"
definition USER_STACK_BASE :: u64 where "USER_STACK_BASE = USER_STACK_TOP - USER_STACK_SIZE"

definition KERNEL_STACK :: "u64 \<Rightarrow> u64" where
  "KERNEL_STACK p = TRAMPOLINE - (p + 1) * 2 * PAGE_SIZE"

definition UART0 :: u64 where "UART0 = 0x10000000"
definition VIRTIO0 :: u64 where "VIRTIO0 = 0x10001000"
definition PLIC :: u64 where "PLIC = 0x0c000000"

lemmas layout_defs =
  MAX_PADDR_def MAX_VADDR_def TRAMPOLINE_def TRAP_FRAME_def USER_STACK_SIZE_def
  USER_STACK_TOP_def USER_STACK_BASE_def KERNEL_STACK_def PAGE_SIZE_def

lemmas pte_flag_defs = PTE_V_def PTE_R_def PTE_W_def PTE_X_def PTE_U_def

section \<open>Arithmetic of the macros\<close>

definition page_aligned :: "u64 \<Rightarrow> bool" where
  "page_aligned a \<longleftrightarrow> a mod PAGE_SIZE = 0"

lemma u64_bound: "unat (x :: u64) < 18446744073709551616"
proof -
  have "unat x < 2 ^ LENGTH(64)" by (rule unsigned_less)
  then show ?thesis by simp
qed

lemma page_aligned_iff: "page_aligned a \<longleftrightarrow> unat a mod 4096 = 0"
  by (simp add: page_aligned_def PAGE_SIZE_def unat_eq_zero [symmetric] unat_mod)

lemma page_aligned_0 [simp]: "page_aligned 0"
  by (simp add: page_aligned_iff)

lemma and_low_bits:
  "x AND 0x1ff = take_bit 9 (x :: u64)"
  "x AND 0x3ff = take_bit 10 (x :: u64)"
  "x AND 0xfff = take_bit 12 (x :: u64)"
  by (simp_all add: take_bit_eq_mask mask_numeral)

lemma and_not_low_12: "x AND - 4096 = push_bit 12 (drop_bit 12 (x :: u64))"
proof -
  have "(- 4096 :: u64) = NOT (mask 12)" by (simp add: mask_numeral)
  then show ?thesis
    by (auto simp: bit_eq_iff bit_simps)
qed

lemma unat_take_bit_mod: "unat (take_bit n (x :: u64)) = unat x mod 2 ^ n"
  by (subst unsigned_take_bit_eq) (rule take_bit_eq_mod)

lemma unat_drop_bit_div: "unat (drop_bit n (x :: u64)) = unat x div 2 ^ n"
  by (subst unat_drop_bit_eq) (rule drop_bit_eq_div)

lemma unat_push_bit_mult: "unat (push_bit n (x :: u64)) = unat x * 2 ^ n mod 2 ^ 64"
  by (subst unsigned_push_bit_eq) (simp add: take_bit_eq_mod push_bit_eq_mult)

lemma unat_PAGE_ROUND_DOWN: "unat (PAGE_ROUND_DOWN n) = unat n div 4096 * 4096"
proof -
  have "unat n div 4096 * 4096 < 2 ^ 64"
    using u64_bound [of n] by simp
  then show ?thesis
    by (simp add: PAGE_ROUND_DOWN_def PAGE_SIZE_def and_not_low_12 unat_push_bit_mult
        unat_drop_bit_div)
qed

lemma unat_PAGE_ROUND_UP:
  assumes "unat n + 4095 < 2 ^ 64"
  shows "unat (PAGE_ROUND_UP n) = (unat n + 4095) div 4096 * 4096"
proof -
  have "PAGE_ROUND_UP n = PAGE_ROUND_DOWN (n + 4095)"
    by (simp add: PAGE_ROUND_UP_def PAGE_ROUND_DOWN_def PAGE_SIZE_def add.commute)
  moreover have "unat (n + 4095) = unat n + 4095"
    using assms by (simp add: unat_word_ariths)
  ultimately show ?thesis by (simp add: unat_PAGE_ROUND_DOWN)
qed

lemma unat_PX: "unat (PX va level) = unat va div 2 ^ PXSHIFT level mod 512"
  by (simp add: PX_def and_low_bits unat_take_bit_mod unat_drop_bit_div)

lemma PX_less: "unat (PX va level) < 512"
  by (simp add: unat_PX)

lemma unat_PTE2PA_aligned: "unat (PTE2PA pte) mod 4096 = 0"
  by (simp add: PTE2PA_def unat_push_bit_mult mod_mod_cancel)

lemma page_aligned_PTE2PA [simp]: "page_aligned (PTE2PA pte)"
  by (simp add: page_aligned_iff unat_PTE2PA_aligned)

text \<open>A packed entry gives back the frame and the flags it was made of.\<close>

lemma page_aligned_bits: "page_aligned a \<Longrightarrow> push_bit 12 (drop_bit 12 a) = a"
  using u64_bound [of a]
  by (simp add: page_aligned_iff word_unat_eq_iff unat_push_bit_mult unat_drop_bit_div
      mod_0_imp_dvd)

lemma flags_bits: "f < 0x400 \<Longrightarrow> take_bit 10 f = (f :: u64)"
  by (simp add: word_unat_eq_iff unat_take_bit_mod word_less_nat_alt)

lemma PTE2PA_pack:
  assumes "page_aligned pa" "f < 0x400"
  shows "PTE2PA (PA2PTE pa OR f) = pa"
proof -
  have "drop_bit 10 (PA2PTE pa OR take_bit 10 f) = drop_bit 12 pa"
    by (auto simp: PA2PTE_def bit_eq_iff bit_simps dest: bit_imp_le_length)
  then show ?thesis
    using assms by (simp add: PTE2PA_def flags_bits page_aligned_bits)
qed

lemma PTE_FLAGS_pack:
  assumes "f < 0x400"
  shows "PTE_FLAGS (PA2PTE pa OR f) = f"
proof -
  have "take_bit 10 (PA2PTE pa OR take_bit 10 f) = take_bit 10 f"
    by (auto simp: PA2PTE_def bit_eq_iff bit_simps)
  then show ?thesis
    using assms by (simp add: PTE_FLAGS_def and_low_bits flags_bits)
qed

end
