(* ===== verification/Strings.thy ===== *)
theory Strings
  imports Riscv
begin

text \<open>
  \<^verbatim>\<open>kernel/lib/string.c\<close> over a byte-addressed memory, and the 64-bit accesses
  the kernel makes through \<^verbatim>\<open>pte_t *\<close> and \<^verbatim>\<open>struct free_list_node *\<close>.

  A routine that writes through a pointer takes the memory and returns the new one, so
  that overlapping arguments alias as they do in C. A routine that only reads a
  \<^verbatim>\<open>char *\<close> takes the bytes from the pointer on, a function \<open>nat \<Rightarrow> u8\<close>;
  \<open>view m p\<close> is that function for an address \<open>p\<close> of the memory \<open>m\<close>.
  The loops of \<^verbatim>\<open>strlen\<close> and \<^verbatim>\<open>strrchr\<close> have no bound in the
  source: they return in \<open>option\<close>, \<open>None\<close> when no terminator follows.
\<close>

section \<open>Definitions\<close>

type_synonym cptr = "nat \<Rightarrow> u8"

definition view :: "memory \<Rightarrow> u64 \<Rightarrow> cptr" where
  "view m p i = m (p + of_nat i)"

definition memset :: "u64 \<Rightarrow> u8 \<Rightarrow> nat \<Rightarrow> memory \<Rightarrow> memory" where
  "memset ptr v n m = fold (\<lambda>i m. m(ptr + of_nat i := v)) (rev [0..<n]) m"

definition memmove :: "u64 \<Rightarrow> u64 \<Rightarrow> nat \<Rightarrow> memory \<Rightarrow> memory" where
  "memmove dst src n m =
     (if dst < src
      then fold (\<lambda>i m. m(dst + of_nat i := m (src + of_nat i))) [0..<n] m
      else fold (\<lambda>i m. m(dst + of_nat i := m (src + of_nat i))) (rev [0..<n]) m)"

definition memcpy :: "u64 \<Rightarrow> u64 \<Rightarrow> nat \<Rightarrow> memory \<Rightarrow> memory" where
  "memcpy dst src n m = memmove dst src n m"

partial_function (option) strlen_from :: "cptr \<Rightarrow> nat \<Rightarrow> nat option" where
  "strlen_from s len = (if s len \<noteq> 0 then strlen_from s (len + 1) else Some len)"

definition strlen :: "cptr \<Rightarrow> nat option" where
  "strlen s = strlen_from s 0"

fun strncmp_from :: "cptr \<Rightarrow> cptr \<Rightarrow> nat \<Rightarrow> nat \<Rightarrow> int" where
  "strncmp_from s1 s2 k 0 = 0"
| "strncmp_from s1 s2 k (Suc n) =
     (if s1 k \<noteq> 0 \<and> s1 k = s2 k then strncmp_from s1 s2 (k + 1) n
      else uint (s1 k) - uint (s2 k))"

definition strncmp :: "cptr \<Rightarrow> cptr \<Rightarrow> nat \<Rightarrow> int" where
  "strncmp s1 s2 n = strncmp_from s1 s2 0 n"

text \<open>The two loops of \<^verbatim>\<open>strncpy\<close>: copy up to the terminator, then fill with zeros.\<close>

fun strncpy_fill :: "nat \<Rightarrow> nat \<Rightarrow> cptr \<Rightarrow> cptr" where
  "strncpy_fill k 0 dst = dst"
| "strncpy_fill k (Suc n) dst = strncpy_fill (k + 1) n (dst(k := 0))"

fun strncpy_from :: "cptr \<Rightarrow> nat \<Rightarrow> nat \<Rightarrow> cptr \<Rightarrow> cptr" where
  "strncpy_from src k 0 dst = dst"
| "strncpy_from src k (Suc n) dst =
     (if src k \<noteq> 0 then strncpy_from src (k + 1) n (dst(k := src k))
      else strncpy_fill k (Suc n) dst)"

definition strncpy :: "cptr \<Rightarrow> cptr \<Rightarrow> nat \<Rightarrow> cptr" where
  "strncpy dst src n = strncpy_from src 0 n dst"

partial_function (option) strrchr_from ::
    "cptr \<Rightarrow> u8 \<Rightarrow> nat \<Rightarrow> nat option \<Rightarrow> nat option option" where
  "strrchr_from s c k pc =
     (if s k \<noteq> 0 then strrchr_from s c (k + 1) (if s k = c then Some k else pc)
      else Some pc)"

text \<open>The offset of the last \<open>c\<close>, or \<open>Some None\<close> for the null pointer.\<close>

definition strrchr :: "cptr \<Rightarrow> u8 \<Rightarrow> nat option option" where
  "strrchr s c = strrchr_from s c 0 None"

subsection \<open>64-bit loads and stores (little endian)\<close>

definition load64 :: "memory \<Rightarrow> u64 \<Rightarrow> u64" where
  "load64 m a = fold (\<lambda>i w. w OR push_bit (8 * i) (ucast (m (a + of_nat i)))) [0..<8] 0"

definition store64 :: "u64 \<Rightarrow> u64 \<Rightarrow> memory \<Rightarrow> memory" where
  "store64 a v m = fold (\<lambda>i m. m(a + of_nat i := ucast (drop_bit (8 * i) v))) [0..<8] m"

section \<open>Address ranges\<close>

definition span :: "u64 \<Rightarrow> nat \<Rightarrow> u64 set" where
  "span a n = (\<lambda>i. a + of_nat i) ` {..<n}"

lemma span_mem [intro]: "i < n \<Longrightarrow> a + of_nat i \<in> span a n"
  by (auto simp: span_def)

lemma of_nat_u64_inj: "i < 2 ^ 64 \<Longrightarrow> j < 2 ^ 64 \<Longrightarrow> (of_nat i :: u64) = of_nat j \<longleftrightarrow> i = j"
  by (auto simp: word_unat_eq_iff unat_of_nat)

lemma unat_add_of_nat:
  "unat a + i < 2 ^ 64 \<Longrightarrow> unat (a + of_nat i :: u64) = unat a + i"
  by (simp add: unat_word_ariths unat_of_nat)

section \<open>memset and memmove\<close>

lemma memset_apply: "memset p v n m a = (if a \<in> span p n then v else m a)"
proof -
  have "fold (\<lambda>i m. m(p + of_nat i := v)) is m a =
      (if \<exists>i \<in> set is. a = p + of_nat i then v else m a)" for "is"
    by (induction "is" arbitrary: m) auto
  then show ?thesis by (auto simp: memset_def span_def)
qed

lemma fold_copy_other:
  "(\<And>i. i \<in> set is \<Longrightarrow> a \<noteq> dst + of_nat i) \<Longrightarrow>
   fold (\<lambda>i m. m(dst + of_nat i := m (src + of_nat i))) is m a = m a"
  by (induction "is" arbitrary: m) auto

text \<open>
  The loops visit the indices in an order in which no source byte is overwritten before
  it is read; \<open>fold_copy_at\<close> says what that order has to satisfy.
\<close>

lemma fold_copy_at:
  assumes "is = xs @ k # ys"
    and "\<And>i. i \<in> set xs \<Longrightarrow> dst + of_nat i \<noteq> src + of_nat k"
    and "\<And>i. i \<in> set ys \<Longrightarrow> dst + of_nat i \<noteq> dst + of_nat k"
  shows "fold (\<lambda>i m. m(dst + of_nat i := m (src + of_nat i))) is m (dst + of_nat k)
       = m (src + of_nat k)"
proof -
  let ?f = "\<lambda>i m. m(dst + of_nat i := m (src + of_nat i))"
  have "fold ?f is m = fold ?f ys (?f k (fold ?f xs m))"
    using assms(1) by simp
  moreover have "fold ?f ys (?f k (fold ?f xs m)) (dst + of_nat k)
      = ?f k (fold ?f xs m) (dst + of_nat k)"
    by (rule fold_copy_other) (drule assms(3), rule not_sym)
  moreover have "fold ?f xs m (src + of_nat k) = m (src + of_nat k)"
    by (rule fold_copy_other) (drule assms(2), rule not_sym)
  ultimately show ?thesis by simp
qed

lemma upt_split_at: "k < n \<Longrightarrow> [0..<n] = [0..<k] @ k # [Suc k..<n]"
  using upt_add_eq_append [of 0 k "n - k"] by (simp add: upt_conv_Cons)

lemma memmove_in:
  assumes "unat dst + n \<le> 2 ^ 64" "unat src + n \<le> 2 ^ 64" "k < n"
  shows "memmove dst src n m (dst + of_nat k) = m (src + of_nat k)"
proof (cases "dst < src")
  case True
  then have lt: "unat dst < unat src" by (simp add: word_less_nat_alt)
  have "dst + of_nat i \<noteq> src + of_nat k" if "i < k" for i
    using that lt assms by (auto simp: word_unat_eq_iff unat_add_of_nat)
  moreover have "dst + of_nat i \<noteq> dst + of_nat k" if "i \<in> {Suc k..<n}" for i
    using that assms by (auto simp: word_unat_eq_iff unat_add_of_nat)
  ultimately show ?thesis
    using True unfolding memmove_def
    by (simp, intro fold_copy_at [OF upt_split_at [OF assms(3)]]) auto
next
  case False
  then have le: "unat src \<le> unat dst" by (simp add: word_less_nat_alt)
  have r: "rev [0..<n] = rev [Suc k..<n] @ k # rev [0..<k]"
    using upt_split_at [OF assms(3)] by simp
  have "dst + of_nat i \<noteq> src + of_nat k" if "i \<in> {Suc k..<n}" for i
    using that le assms by (auto simp: word_unat_eq_iff unat_add_of_nat)
  moreover have "dst + of_nat i \<noteq> dst + of_nat k" if "i < k" for i
    using that assms by (auto simp: word_unat_eq_iff unat_add_of_nat)
  ultimately show ?thesis
    using False unfolding memmove_def
    by (simp, intro fold_copy_at [OF r]) auto
qed

lemma memmove_out: "a \<notin> span dst n \<Longrightarrow> memmove dst src n m a = m a"
  by (auto simp: memmove_def span_def intro!: fold_copy_other)

section \<open>Strings\<close>

lemma strlen_from_eq:
  assumes "\<And>i. i < d \<Longrightarrow> s (k + i) \<noteq> 0" "s (k + d) = 0"
  shows "strlen_from s k = Some (k + d)"
  using assms
proof (induction d arbitrary: k)
  case 0
  then show ?case by (simp add: strlen_from.simps)
next
  case (Suc d)
  have "s (Suc k + i) \<noteq> 0" if "i < d" for i
    using Suc.prems(1) [of "Suc i"] that by simp
  moreover have "s (Suc k + d) = 0" using Suc.prems(2) by simp
  ultimately have "strlen_from s (Suc k) = Some (Suc k + d)" by (rule Suc.IH)
  moreover have "s k \<noteq> 0" using Suc.prems(1) [of 0] by simp
  ultimately show ?case by (subst strlen_from.simps) simp
qed

lemma strncmp_from_eq_0:
  "strncmp_from s1 s2 k n = 0 \<longleftrightarrow>
     (\<forall>i<n. (\<forall>j<i. s1 (k + j) \<noteq> 0) \<longrightarrow> s1 (k + i) = s2 (k + i))"
proof (induction n arbitrary: k)
  case (Suc n)
  show ?case
  proof (cases "s1 k \<noteq> 0 \<and> s1 k = s2 k")
    case True
    with Suc.IH [of "k + 1"] show ?thesis
      by (simp add: All_less_Suc2)
  next
    case False
    have "strncmp_from s1 s2 k (Suc n) = 0 \<longleftrightarrow> s1 k = s2 k"
      using False by (auto simp: word_uint_eq_iff)
    with False show ?thesis
      by (auto simp: All_less_Suc2 simp del: strncmp_from.simps)
  qed
qed simp

lemma strncpy_fill_apply:
  "strncpy_fill k n dst i = (if k \<le> i \<and> i < k + n then 0 else dst i)"
  by (induction k n dst arbitrary: i rule: strncpy_fill.induct) auto

lemma strncpy_from_apply:
  "strncpy_from src k n dst i =
     (if k \<le> i \<and> i < k + n then if \<forall>j\<in>{k..i}. src j \<noteq> 0 then src i else 0 else dst i)"
proof (induction src k n dst arbitrary: i rule: strncpy_from.induct)
  case (2 src k n dst)
  show ?case
  proof (cases "src k \<noteq> 0")
    case True
    then have eq: "{k..i} = insert k {k + 1..i}" if "k \<le> i"
      using that by auto
    have IH: "strncpy_from src (Suc k) n (dst(k := src k)) i =
        (if Suc k \<le> i \<and> i < Suc k + n
         then if \<forall>j\<in>{Suc k..i}. src j \<noteq> 0 then src i else 0 else (dst(k := src k)) i)"
      using "2.IH" [OF True, of i] by (simp del: fun_upd_apply)
    show ?thesis
      using True eq by (cases "k \<le> i") (auto simp: IH)
  next
    case False
    then show ?thesis
      by (auto simp: strncpy_fill_apply simp del: strncpy_fill.simps)
  qed
qed auto

section \<open>Loads and stores\<close>

lemma fold_upd_at:
  "inj_on f (set is) \<Longrightarrow> k \<in> set is \<Longrightarrow> fold (\<lambda>i m. m(f i := g i)) is m (f k) = g k"
proof (induction "is" arbitrary: m)
  case (Cons i "is")
  have other: "fold (\<lambda>i m. m(f i := g i)) js m x = m x" if "x \<notin> f ` set js" for js m x
    using that by (induction js arbitrary: m) auto
  show ?case
  proof (cases "k \<in> set is")
    case True
    with Cons show ?thesis by simp
  next
    case False
    with Cons.prems have "k = i" "f k \<notin> f ` set is" by (auto simp: inj_on_def)
    then show ?thesis using other [of "f i" "is" "m(f i := g i)"] by (simp del: fun_upd_apply) simp
  qed
qed simp

lemma store64_out:
  assumes "x \<notin> span a 8"
  shows "store64 a v m x = m x"
proof -
  have "fold (\<lambda>i m. m(a + of_nat i := ucast (drop_bit (8 * i) v))) is m x = m x"
    if "\<forall>i \<in> set is. x \<noteq> a + of_nat i" for "is"
    using that by (induction "is" arbitrary: m) auto
  moreover have "\<forall>i \<in> set [0..<8]. x \<noteq> a + of_nat i"
    using assms by (auto simp: span_def)
  ultimately show ?thesis unfolding store64_def by blast
qed

lemma store64_in:
  assumes "k < 8"
  shows "store64 a v m (a + of_nat k) = ucast (drop_bit (8 * k) v)"
proof -
  have "inj_on (\<lambda>i. a + of_nat i) (set [0..<8])"
    by (auto intro!: inj_onI simp: of_nat_u64_inj)
  then show ?thesis
    using assms unfolding store64_def by (subst fold_upd_at) auto
qed

lemma load64_cong:
  assumes "\<And>x. x \<in> span a 8 \<Longrightarrow> m x = m' x"
  shows "load64 m a = load64 m' a"
  unfolding load64_def
  by (rule fold_cong) (auto simp: assms span_mem)

lemma bit_fold_or:
  "bit (fold (\<lambda>i w. w OR f i) is w) n \<longleftrightarrow> bit (w :: u64) n \<or> (\<exists>i \<in> set is. bit (f i) n)"
  by (induction "is" arbitrary: w) (auto simp: bit_or_iff)

lemma bit_byte_of:
  fixes v :: u64
  assumes "n < 64"
  shows "bit (push_bit (8 * i) (ucast (ucast (drop_bit (8 * i) v) :: u8)) :: u64) n \<longleftrightarrow>
    n div 8 = i \<and> bit v n"
proof -
  have "bit (push_bit (8 * i) (ucast (ucast (drop_bit (8 * i) v) :: u8)) :: u64) n \<longleftrightarrow>
      8 * i \<le> n \<and> n - 8 * i < 8 \<and> bit v (8 * i + (n - 8 * i))"
    using assms by (auto simp: bit_push_bit_iff bit_ucast_iff bit_drop_bit_eq)
  moreover have "8 * i \<le> n \<and> n - 8 * i < 8 \<longleftrightarrow> n div 8 = i"
    by auto
  ultimately show ?thesis by auto
qed

lemma join_bytes:
  fixes v :: u64
  shows "fold (\<lambda>i w. w OR push_bit (8 * i) (ucast (ucast (drop_bit (8 * i) v) :: u8))) [0..<8] 0 = v"
proof (rule bit_eqI)
  fix n assume "possible_bit TYPE(u64) n"
  then have n: "n < 64" by simp
  then have "n div 8 < 8" by auto
  then show "bit (fold (\<lambda>i w. w OR push_bit (8 * i) (ucast (ucast (drop_bit (8 * i) v) :: u8)))
      [0..<8] (0 :: u64)) n = bit v n"
    unfolding bit_fold_or bit_byte_of [OF n] by simp
qed

lemma load64_store64 [simp]: "load64 (store64 a v m) a = v"
proof -
  have "load64 (store64 a v m) a =
      fold (\<lambda>i w. w OR push_bit (8 * i) (ucast (ucast (drop_bit (8 * i) v) :: u8))) [0..<8] 0"
    unfolding load64_def by (rule fold_cong) (auto simp: store64_in)
  then show ?thesis by (simp only: join_bytes)
qed

lemma fold_const_0: "fold (\<lambda>i w. w) is (w :: u64) = w"
  by (induction "is") auto

lemma load64_zero: "(\<And>x. x \<in> span a 8 \<Longrightarrow> m x = 0) \<Longrightarrow> load64 m a = 0"
  using load64_cong [of a m "\<lambda>_. 0"] by (simp add: load64_def fold_const_0)

lemma load64_other: "span a 8 \<inter> span b 8 = {} \<Longrightarrow> load64 (store64 a v m) b = load64 m b"
  by (intro load64_cong store64_out) auto

section \<open>Properties\<close>

text \<open>
  C28. \<^verbatim>\<open>memmove\<close> copies correctly whether or not the regions overlap: for regions
  that do not wrap around the address space, the destination ends with the bytes the
  source had before the call, and no byte outside the destination changes.
\<close>

theorem memmove_overlap:
  assumes "unat dst + n \<le> 2 ^ 64" and "unat src + n \<le> 2 ^ 64"
  shows "(\<forall>k<n. memmove dst src n m (dst + of_nat k) = m (src + of_nat k)) \<and>
    (\<forall>a. a \<notin> span dst n \<longrightarrow> memmove dst src n m a = m a)"
  using memmove_in [OF assms] memmove_out by blast

theorem memmove_overlap_witness:
  "memmove 0x1001 0x1000 3 (\<lambda>a. ucast a) (0x1001 + of_nat 2) = (2 :: u8)"
proof -
  have "\<forall>k<3. memmove 0x1001 0x1000 3 (\<lambda>a. ucast a) (0x1001 + of_nat k) = (ucast (0x1000 + of_nat k :: u64) :: u8)"
    using memmove_overlap [of "0x1001" 3 "0x1000" "\<lambda>a. ucast a"] by simp
  from this [rule_format, of 2] show ?thesis by simp
qed

text \<open>
  C29. Names survive storage. Storing a name in a fixed field with \<^verbatim>\<open>strncpy\<close> and
  comparing with \<^verbatim>\<open>strncmp\<close>, as directory entries do, is exact: the comparison
  gives 0 precisely for the names that agree with the stored one up to the terminator or
  the width of the field.
\<close>

theorem strncpy_strncmp:
  "strncmp s (strncpy d name n) n = 0 \<longleftrightarrow>
     (\<forall>i<n. (\<forall>j<i. name j \<noteq> 0) \<longrightarrow> s i = name i)"
proof -
  have cpy: "strncpy d name n i = (if \<forall>j\<le>i. name j \<noteq> 0 then name i else 0)" if "i < n" for i
    using that by (auto simp: strncpy_def strncpy_from_apply)
  have "(\<forall>i<n. (\<forall>j<i. s j \<noteq> 0) \<longrightarrow> s i = strncpy d name n i) \<longleftrightarrow>
      (\<forall>i<n. (\<forall>j<i. name j \<noteq> 0) \<longrightarrow> s i = name i)" (is "?L = ?R")
  proof
    assume L: ?L
    have "(\<forall>j<i. name j \<noteq> 0) \<longrightarrow> s i = name i" if "i < n" for i
      using that
    proof (induction i rule: less_induct)
      case (less i)
      show ?case
      proof
        assume nz: "\<forall>j<i. name j \<noteq> 0"
        have "\<forall>j<i. s j \<noteq> 0" using less nz by (metis less_trans)
        with L less.prems have "s i = strncpy d name n i" by blast
        then show "s i = name i" using cpy [OF less.prems] nz by (auto simp: le_less)
      qed
    qed
    then show ?R by blast
  next
    assume R: ?R
    have "s i = strncpy d name n i" if "i < n" and nz: "\<forall>j<i. s j \<noteq> 0" for i
    proof -
      have "\<forall>j<i. name j \<noteq> 0"
      proof (intro allI impI)
        fix j assume "j < i"
        then show "name j \<noteq> 0"
        proof (induction j rule: less_induct)
          case (less j)
          then have "\<forall>k<j. name k \<noteq> 0" by (meson less_trans)
          then show ?case using R nz \<open>i < n\<close> less.prems by (metis less_trans)
        qed
      qed
      then show ?thesis using R cpy [OF that(1)] that(1) by (auto simp: le_less)
    qed
    then show ?L by blast
  qed
  then show ?thesis by (simp add: strncmp_def strncmp_from_eq_0)
qed

theorem strncpy_strncmp_witness:
  "strncmp (\<lambda>i. of_nat (3 - i)) (strncpy (\<lambda>_. 9) (\<lambda>i. of_nat (3 - i)) 5) 5 = 0"
  by (subst strncpy_strncmp) simp

text \<open>
  C30. \<^verbatim>\<open>strlen\<close> terminates on exactly the strings that have a terminator, and returns
  the index of the first one.
\<close>

theorem strlen_terminates:
  "strlen s = Some n \<longleftrightarrow> s n = 0 \<and> (\<forall>i<n. s i \<noteq> 0)"
proof
  assume "s n = 0 \<and> (\<forall>i<n. s i \<noteq> 0)"
  then show "strlen s = Some n" using strlen_from_eq [of n s 0] by (simp add: strlen_def)
next
  have "k \<le> n \<and> s n = 0 \<and> (\<forall>i. k \<le> i \<and> i < n \<longrightarrow> s i \<noteq> 0)" (is "?P s k n")
    if "strlen_from s k = Some n" for k
    using that
  proof (rule strlen_from.raw_induct [where P = "\<lambda>s k n. ?P s k n", rotated])
    fix f :: "cptr \<Rightarrow> nat \<Rightarrow> nat option" and s k n
    assume IH: "\<And>s k n. f s k = Some n \<Longrightarrow> ?P s k n"
      and eq: "(if s k \<noteq> 0 then f s (k + 1) else Some k) = Some n"
    show "?P s k n"
    proof (cases "s k = 0")
      case False
      with eq IH [of s "k + 1" n] show ?thesis by (auto simp: Suc_le_eq) (metis nat_less_le)
    qed (use eq in auto)
  qed
  then show "strlen s = Some n \<Longrightarrow> s n = 0 \<and> (\<forall>i<n. s i \<noteq> 0)"
    unfolding strlen_def by blast
qed

theorem strlen_terminates_witness: "strlen (\<lambda>i. if i = 4 then 0 else 65) = Some 4"
  by (subst strlen_terminates) simp

end
