(* ===== verification/Hart.thy ===== *)
theory Hart
  imports Riscv
begin

text \<open>
  Processors, interrupts and spin locks: \<^verbatim>\<open>kernel/sched/cpu.c\<close>, the first
  half of \<^verbatim>\<open>kernel/lock.c\<close>, and the structures of
  \<^verbatim>\<open>include/sched/proc.h\<close>, \<^verbatim>\<open>include/sched/cpu.h\<close> and
  \<^verbatim>\<open>include/lock.h\<close>.

  A table of the kernel (\<^verbatim>\<open>cpus\<close>, \<^verbatim>\<open>procs\<close>) is a function of its
  index and a pointer to one of its elements is that index. A pointer to a lock is a value
  of \<open>lock_id\<close>, one constructor per lock the kernel declares; a wait channel is a value of
  \<open>chan\<close>, one constructor per address the kernel sleeps on. The state \<open>kbase\<close> is
  extended by each layer above with its own variables.

  The second half shows what a critical section does: \<open>grab L s\<close> is the state after
  \<^verbatim>\<open>spin_lock_acquire\<close>, \<open>ungrab L s\<close> the state after the matching release,
  and one undoes the other, so that an operation under a lock is described by the change
  of its own data alone.
\<close>

section \<open>State\<close>

record spin_lock =
  sl_locked :: bool
  sl_cpuid :: int
  sl_name :: string

datatype sleep_id = SL_buf nat | SL_inode nat

datatype lock_id =
    L_free_list | L_pid | L_wait | L_proc nat | L_sleep sleep_id | L_bcache | L_log
  | L_itable | L_ftable | L_pipe u64 | L_cons | L_tx | L_printk | L_timer | L_disk

datatype chan =
    Ch_sleep sleep_id | Ch_proc nat | Ch_log | Ch_ticks | Ch_cons_r | Ch_tx_r
  | Ch_pipe_r u64 | Ch_pipe_w u64 | Ch_disk_free | Ch_buf nat

record sleep_lock =
  slp_locked :: bool
  slp_pid :: int
  slp_name :: string

record "context" =
  ctx_ra :: u64
  ctx_sp :: u64
  ctx_s :: "nat \<Rightarrow> u64"

datatype proc_state =
  PROC_UNUSED | PROC_USED | PROC_RUNNABLE | PROC_RUNNING | PROC_SLEEPING | PROC_ZOMBIE

record process =
  p_state :: proc_state
  p_chan :: "chan option"
  p_killed :: bool
  p_xstate :: int
  p_pid :: int
  p_parent :: "nat option"
  p_kernel_stack :: u64
  p_size :: u64
  p_page_table :: u64
  p_tf :: u64
  p_ctx :: "context"
  p_ofile :: "nat \<Rightarrow> nat option"
  p_cwd :: "nat option"
  p_name :: "nat \<Rightarrow> u8"

record cpu =
  c_proc :: "nat option"
  c_ctx :: "context"
  n_off :: int
  intr_ena :: bool

record kbase =
  tp :: nat
  sstatus :: "nat \<Rightarrow> u64"
  cpus :: "nat \<Rightarrow> cpu"
  spins :: "lock_id \<Rightarrow> spin_lock"
  sleeps :: "sleep_id \<Rightarrow> sleep_lock"
  procs :: "nat \<Rightarrow> process"

definition N_CPU :: nat where "N_CPU = 3"
definition N_PROC :: nat where "N_PROC = 64"
definition N_OFILE :: nat where "N_OFILE = 16"

section \<open>Definitions\<close>

subsection \<open>Interrupt enable (riscv.h)\<close>

definition intr_on :: "('z kbase_scheme, unit) kernel" where
  "intr_on = modK (\<lambda>s. s\<lparr>sstatus := (sstatus s)(tp s := sstatus s (tp s) OR SSTATUS_SIE)\<rparr>)"

definition intr_off :: "('z kbase_scheme, unit) kernel" where
  "intr_off = modK (\<lambda>s. s\<lparr>sstatus := (sstatus s)(tp s := sstatus s (tp s) AND NOT SSTATUS_SIE)\<rparr>)"

definition intr_get :: "('z kbase_scheme, bool) kernel" where
  "intr_get = getK (\<lambda>s. sstatus s (tp s) AND SSTATUS_SIE \<noteq> 0)"

subsection \<open>The current processor (cpu.c)\<close>

definition current_cpuid :: "'z kbase_scheme \<Rightarrow> nat" where
  "current_cpuid s = tp s"

definition current_cpu :: "'z kbase_scheme \<Rightarrow> cpu" where
  "current_cpu s = cpus s (current_cpuid s)"

definition upd_cpu :: "(cpu \<Rightarrow> cpu) \<Rightarrow> 'z kbase_scheme \<Rightarrow> 'z kbase_scheme" where
  "upd_cpu f s = s\<lparr>cpus := (cpus s)(tp s := f (cpus s (tp s)))\<rparr>"

definition push_off :: "('z kbase_scheme, unit) kernel" where
  "push_off =
     bindK intr_get (\<lambda>ie.
     thenK intr_off (
     bindK (getK current_cpu) (\<lambda>c. seqK [
       whenK (n_off c = 0) (modK (upd_cpu (\<lambda>c. c\<lparr>intr_ena := ie\<rparr>))),
       modK (upd_cpu (\<lambda>c. c\<lparr>n_off := n_off c + 1\<rparr>))])))"

definition pop_off :: "('z kbase_scheme, unit) kernel" where
  "pop_off =
     bindK intr_get (\<lambda>ie.
     if ie then panicK ''interrupts enabled'' else
     bindK (getK current_cpu) (\<lambda>c.
     if n_off c < 1 then panicK ''pop off'' else
     thenK (modK (upd_cpu (\<lambda>c. c\<lparr>n_off := n_off c - 1\<rparr>))) (
     bindK (getK current_cpu) (\<lambda>c.
     whenK (n_off c = 0 \<and> intr_ena c) intr_on))))"

definition running_proc :: "('z kbase_scheme, nat option) kernel" where
  "running_proc =
     thenK push_off (
     bindK (getK (\<lambda>s. c_proc (current_cpu s))) (\<lambda>p.
     thenK pop_off (retK p)))"

subsection \<open>Spin locks (lock.c)\<close>

definition spin_lock_init :: "lock_id \<Rightarrow> string \<Rightarrow> ('z kbase_scheme, unit) kernel" where
  "spin_lock_init L name =
     modK (\<lambda>s. s\<lparr>spins := (spins s)(L := \<lparr>sl_locked = False, sl_cpuid = -1, sl_name = name\<rparr>)\<rparr>)"

definition spin_lock_holding :: "lock_id \<Rightarrow> 'z kbase_scheme \<Rightarrow> bool" where
  "spin_lock_holding L s \<longleftrightarrow> sl_locked (spins s L) \<and> sl_cpuid (spins s L) = int (current_cpuid s)"

definition test_and_set :: "lock_id \<Rightarrow> ('z kbase_scheme, bool) kernel" where
  "test_and_set L s =
     Ret (sl_locked (spins s L)) (s\<lparr>spins := (spins s)(L := (spins s L)\<lparr>sl_locked := True\<rparr>)\<rparr>)"

definition spin_lock_acquire :: "lock_id \<Rightarrow> ('z kbase_scheme, unit) kernel" where
  "spin_lock_acquire L =
     thenK push_off (
     bindK (getK (spin_lock_holding L)) (\<lambda>h.
     if h then panicK ''repeatedly acquire lock'' else
     bindK (test_and_set L) (\<lambda>busy.
     if busy then (\<lambda>s. Spin) else
     modK (\<lambda>s. s\<lparr>spins := (spins s)(L := (spins s L)\<lparr>sl_cpuid := int (current_cpuid s)\<rparr>)\<rparr>))))"

definition spin_lock_release :: "lock_id \<Rightarrow> ('z kbase_scheme, unit) kernel" where
  "spin_lock_release L =
     bindK (getK (spin_lock_holding L)) (\<lambda>h.
     if \<not> h then panicK ''release unheld lock'' else
     seqK [
       modK (\<lambda>s. s\<lparr>spins := (spins s)(L := (spins s L)\<lparr>sl_cpuid := -1\<rparr>)\<rparr>),
       modK (\<lambda>s. s\<lparr>spins := (spins s)(L := (spins s L)\<lparr>sl_locked := False\<rparr>)\<rparr>),
       pop_off])"

section \<open>Interrupt state\<close>

definition intr_bit :: "'z kbase_scheme \<Rightarrow> bool" where
  "intr_bit s \<longleftrightarrow> sstatus s (tp s) AND SSTATUS_SIE \<noteq> 0"

lemma bit_SIE: "bit SSTATUS_SIE n \<longleftrightarrow> n = 1"
proof -
  have "bit (push_bit 1 1 :: u64) n \<longleftrightarrow> n = 1"
    unfolding bit_push_bit_iff bit_1_iff by auto
  then show ?thesis by (simp add: SSTATUS_SIE_def)
qed

lemma sie_set: "bit (x OR SSTATUS_SIE) 1"
  by (simp add: bit_or_iff bit_SIE)

lemma sie_clear: "\<not> bit (x AND NOT SSTATUS_SIE) 1"
  by (simp add: bit_and_iff bit_not_iff bit_SIE)

lemma sie_clear_Suc [simp]: "\<not> bit (x AND NOT SSTATUS_SIE) (Suc 0)"
  using sie_clear [of x] by simp

lemma sie_restore: "bit x 1 \<Longrightarrow> (x AND NOT SSTATUS_SIE) OR SSTATUS_SIE = x"
  by (rule bit_word_eqI) (auto simp: bit_or_iff bit_and_iff bit_not_iff bit_SIE)

lemma sie_clear_id: "\<not> bit x 1 \<Longrightarrow> x AND NOT SSTATUS_SIE = x"
  by (rule bit_word_eqI) (auto simp: bit_and_iff bit_not_iff bit_SIE)

lemma sie_bit: "x AND SSTATUS_SIE \<noteq> 0 \<longleftrightarrow> bit x 1"
proof
  assume "bit x 1"
  then have "bit (x AND SSTATUS_SIE) 1" by (simp add: bit_and_iff bit_SIE)
  then show "x AND SSTATUS_SIE \<noteq> 0" by auto
next
  assume ne: "x AND SSTATUS_SIE \<noteq> 0"
  show "bit x 1"
  proof (rule ccontr)
    assume "\<not> bit x 1"
    then have "x AND SSTATUS_SIE = 0"
      by (intro bit_word_eqI) (auto simp: bit_and_iff bit_SIE)
    with ne show False by simp
  qed
qed

lemma intr_bit_iff: "intr_bit s \<longleftrightarrow> bit (sstatus s (tp s)) 1"
  by (simp add: intr_bit_def sie_bit)

text \<open>
  \<open>hart_ok s\<close>: interrupts are off on the current processor whenever it is inside a
  critical section, and outside of one \<^verbatim>\<open>intr_ena\<close> agrees with
  \<^verbatim>\<open>sstatus\<close>. \<open>settle\<close> restores the latter; it is what the first
  critical section after a trap does.
\<close>

definition hart_wf :: "'z kbase_scheme \<Rightarrow> bool" where
  "hart_wf s \<longleftrightarrow> 0 \<le> n_off (current_cpu s) \<and> (0 < n_off (current_cpu s) \<longrightarrow> \<not> intr_bit s)"

definition hart_ok :: "'z kbase_scheme \<Rightarrow> bool" where
  "hart_ok s \<longleftrightarrow> hart_wf s \<and> (n_off (current_cpu s) = 0 \<longrightarrow> intr_ena (current_cpu s) = intr_bit s)"

definition settle :: "'z kbase_scheme \<Rightarrow> 'z kbase_scheme" where
  "settle s = (if n_off (current_cpu s) = 0
               then upd_cpu (\<lambda>c. c\<lparr>intr_ena := intr_bit s\<rparr>) s else s)"

definition lock_free :: "'z kbase_scheme \<Rightarrow> lock_id \<Rightarrow> bool" where
  "lock_free s L \<longleftrightarrow> \<not> sl_locked (spins s L) \<and> sl_cpuid (spins s L) = -1"

definition pushed :: "'z kbase_scheme \<Rightarrow> 'z kbase_scheme" where
  "pushed s =
     upd_cpu (\<lambda>c. c\<lparr>intr_ena := if n_off c = 0 then intr_bit s else intr_ena c, n_off := n_off c + 1\<rparr>)
       (s\<lparr>sstatus := (sstatus s)(tp s := sstatus s (tp s) AND NOT SSTATUS_SIE)\<rparr>)"

definition popped :: "'z kbase_scheme \<Rightarrow> 'z kbase_scheme" where
  "popped s =
     (let t = upd_cpu (\<lambda>c. c\<lparr>n_off := n_off c - 1\<rparr>) s in
      if n_off (current_cpu t) = 0 \<and> intr_ena (current_cpu t)
      then t\<lparr>sstatus := (sstatus t)(tp t := sstatus t (tp t) OR SSTATUS_SIE)\<rparr> else t)"

definition set_lock :: "lock_id \<Rightarrow> bool \<Rightarrow> int \<Rightarrow> 'z kbase_scheme \<Rightarrow> 'z kbase_scheme" where
  "set_lock L b c s = s\<lparr>spins := (spins s)(L := (spins s L)\<lparr>sl_locked := b, sl_cpuid := c\<rparr>)\<rparr>"

definition grab :: "lock_id \<Rightarrow> 'z kbase_scheme \<Rightarrow> 'z kbase_scheme" where
  "grab L s = set_lock L True (int (tp s)) (pushed s)"

definition ungrab :: "lock_id \<Rightarrow> 'z kbase_scheme \<Rightarrow> 'z kbase_scheme" where
  "ungrab L s = popped (set_lock L False (-1) s)"

lemmas hart_defs = current_cpu_def current_cpuid_def upd_cpu_def intr_bit_iff
  pushed_def popped_def set_lock_def hart_wf_def hart_ok_def

lemma push_off_eq: "push_off s = Ret () (pushed s)"
  by (simp add: push_off_def intr_get_def intr_off_def intr_bit_def thenK_def whenK_apply
      hart_defs(1-3) pushed_def bindK_def)

lemma pop_off_eq:
  "pop_off s = (if intr_bit s then Panic ''interrupts enabled''
     else if n_off (current_cpu s) < 1 then Panic ''pop off'' else Ret () (popped s))"
  by (simp add: pop_off_def intr_get_def intr_on_def intr_bit_def thenK_def whenK_apply
      popped_def bindK_def Let_def)

lemma popped_pushed:
  assumes "hart_wf s"
  shows "popped (pushed s) = settle s"
  using assms
  by (cases "bit (sstatus s (tp s)) 1")
     (auto simp: hart_defs settle_def Let_def sie_clear sie_restore sie_clear_id)

lemma cpu_upd_triv: "intr_ena c = b \<Longrightarrow> c\<lparr>intr_ena := b\<rparr> = c"
  by (cases c) simp

lemma lock_upd_triv:
  "\<not> sl_locked l \<Longrightarrow> sl_cpuid l = -1 \<Longrightarrow> l\<lparr>sl_locked := False, sl_cpuid := -1\<rparr> = l"
  by (cases l) simp

lemma lock_upd_swap: "l\<lparr>sl_cpuid := c, sl_locked := b\<rparr> = l\<lparr>sl_locked := b, sl_cpuid := c\<rparr>"
  by (cases l) simp

lemma settle_id: "hart_ok s \<Longrightarrow> settle s = s"
  by (auto simp: settle_def hart_defs cpu_upd_triv)

lemma hart_ok_settle: "hart_wf s \<Longrightarrow> hart_ok (settle s)"
  by (auto simp: settle_def hart_defs)

lemma running_proc_eq:
  assumes "hart_wf s"
  shows "running_proc s = Ret (c_proc (current_cpu s)) (settle s)"
proof -
  have p: "\<not> intr_bit (pushed s)" "\<not> n_off (current_cpu (pushed s)) < 1"
    "c_proc (current_cpu (pushed s)) = c_proc (current_cpu s)"
    using assms by (auto simp: hart_defs sie_clear)
  then show ?thesis
    by (simp add: running_proc_def thenK_def push_off_eq pop_off_eq popped_pushed [OF assms])
qed

section \<open>Critical sections\<close>

lemma spin_lock_acquire_eq:
  "spin_lock_acquire L s =
     (if spin_lock_holding L s then Panic ''repeatedly acquire lock''
      else if sl_locked (spins s L) then Spin else Ret () (grab L s))"
proof -
  have s: "spins (pushed s) = spins s" "tp (pushed s) = tp s"
    by (simp_all add: hart_defs)
  have "spin_lock_holding L (pushed s) = spin_lock_holding L s"
    by (simp add: spin_lock_holding_def current_cpuid_def s)
  then show ?thesis
    by (simp add: spin_lock_acquire_def thenK_def push_off_eq bindK_def test_and_set_def s
        grab_def set_lock_def current_cpuid_def)
qed

lemma spin_lock_release_eq:
  "spin_lock_release L s =
     (if \<not> spin_lock_holding L s then Panic ''release unheld lock''
      else if intr_bit s then Panic ''interrupts enabled''
      else if n_off (current_cpu s) < 1 then Panic ''pop off'' else Ret () (ungrab L s))"
  by (simp add: spin_lock_release_def thenK_def bindK_def pop_off_eq intr_bit_def
      current_cpu_def current_cpuid_def ungrab_def set_lock_def lock_upd_swap)

text \<open>
  \<open>avail s L\<close>: the current processor can take \<open>L\<close> at once; \<open>holds s L\<close>: it can
  release it. Operations on other data preserve both (\<open>quiet_simps\<close>).
\<close>

definition avail :: "'z kbase_scheme \<Rightarrow> lock_id \<Rightarrow> bool" where
  "avail s L \<longleftrightarrow> hart_ok s \<and> lock_free s L"

definition holds :: "'z kbase_scheme \<Rightarrow> lock_id \<Rightarrow> bool" where
  "holds s L \<longleftrightarrow> hart_ok s \<and> spin_lock_holding L s \<and> 0 < n_off (current_cpu s)"

definition quiet :: "'z kbase_scheme \<Rightarrow> bool" where
  "quiet s \<longleftrightarrow> hart_ok s \<and> (\<forall>L. lock_free s L)"

definition cur_proc :: "'z kbase_scheme \<Rightarrow> nat option" where
  "cur_proc s = c_proc (current_cpu s)"

lemma quiet_avail [simp, intro]: "quiet s \<Longrightarrow> avail s L"
  by (simp add: quiet_def avail_def)

lemma avail_hart_ok [intro]: "avail s L \<Longrightarrow> hart_ok s"
  by (simp add: avail_def)

lemma hart_ok_wf: "hart_ok s \<Longrightarrow> hart_wf s"
  by (simp add: hart_ok_def)

lemma running_proc_ok [simp]: "hart_ok s \<Longrightarrow> running_proc s = Ret (cur_proc s) s"
  by (simp add: running_proc_eq hart_ok_wf settle_id cur_proc_def)

lemma acquire_avail [simp]:
  "avail s L \<Longrightarrow> spin_lock_acquire L s = Ret () (grab L s)"
  by (simp add: spin_lock_acquire_eq avail_def lock_free_def spin_lock_holding_def)

lemma release_holds [simp]:
  "holds s L \<Longrightarrow> spin_lock_release L s = Ret () (ungrab L s)"
  by (auto simp: spin_lock_release_eq holds_def hart_ok_def hart_wf_def)

lemma hart_ok_grab [simp]: "hart_ok s \<Longrightarrow> hart_ok (grab L s)"
  by (auto simp: grab_def hart_defs sie_clear)

lemma holds_grab [simp]: "avail s L \<Longrightarrow> holds (grab L s) L"
  by (auto simp: holds_def avail_def)
     (auto simp: grab_def spin_lock_holding_def hart_defs)

lemma holds_grab_other [simp]: "holds s L' \<Longrightarrow> L \<noteq> L' \<Longrightarrow> holds (grab L s) L'"
  by (auto simp: holds_def)
     (auto simp: grab_def spin_lock_holding_def hart_defs)

lemma avail_grab_other [simp]: "avail s L' \<Longrightarrow> L \<noteq> L' \<Longrightarrow> avail (grab L s) L'"
  by (auto simp: avail_def)
     (auto simp: grab_def lock_free_def hart_defs)

lemma ungrab_grab [simp]:
  assumes "avail s L"
  shows "ungrab L (grab L s) = s"
proof -
  have "set_lock L False (-1) (set_lock L True (int (tp s)) (pushed s)) = pushed s"
    using assms
    by (simp add: set_lock_def avail_def lock_free_def upd_cpu_def pushed_def lock_upd_triv)
  then show ?thesis
    using assms by (simp add: ungrab_def grab_def popped_pushed avail_def hart_ok_wf settle_id)
qed

lemma cur_proc_grab [simp]: "cur_proc (grab L s) = cur_proc s"
  by (simp add: cur_proc_def grab_def hart_defs)

lemma grab_fields [simp]:
  "tp (grab L s) = tp s" "sleeps (grab L s) = sleeps s" "procs (grab L s) = procs s"
  by (simp_all add: grab_def hart_defs)

lemma ungrab_fields [simp]:
  "tp (ungrab L s) = tp s" "sleeps (ungrab L s) = sleeps s" "procs (ungrab L s) = procs s"
  by (simp_all add: ungrab_def hart_defs Let_def)

lemma procs_frame [simp, quiet_simps]:
  "hart_ok (procs_update f s) = hart_ok s"
  "avail (procs_update f s) L = avail s L"
  "holds (procs_update f s) L = holds s L"
  "quiet (procs_update f s) = quiet s"
  "cur_proc (procs_update f s) = cur_proc s"
  "ungrab L (procs_update f s) = procs_update f (ungrab L s)"
  by (simp_all add: avail_def holds_def quiet_def cur_proc_def lock_free_def
      spin_lock_holding_def ungrab_def hart_defs Let_def)

lemma sleeps_frame [simp, quiet_simps]:
  "hart_ok (sleeps_update f s) = hart_ok s"
  "avail (sleeps_update f s) L = avail s L"
  "holds (sleeps_update f s) L = holds s L"
  "quiet (sleeps_update f s) = quiet s"
  "cur_proc (sleeps_update f s) = cur_proc s"
  "ungrab L (sleeps_update f s) = sleeps_update f (ungrab L s)"
  by (simp_all add: avail_def holds_def quiet_def cur_proc_def lock_free_def
      spin_lock_holding_def ungrab_def hart_defs Let_def)

section \<open>Interleaving the processors\<close>

text \<open>
  Every processor runs the routines above on the shared lock table, in any order. A step
  sets \<^verbatim>\<open>tp\<close> to the processor that moves and runs one routine to its return;
  a processor that spins or panics makes no step. \<^verbatim>\<open>intr_on\<close> is called by the
  scheduler and the trap handler with no lock held, which is the guard of its rule.
\<close>

definition boot_state :: kbase where
  "boot_state =
     \<lparr>tp = 0, sstatus = (\<lambda>_. 0),
      cpus = (\<lambda>_. \<lparr>c_proc = None, c_ctx = \<lparr>ctx_ra = 0, ctx_sp = 0, ctx_s = \<lambda>_. 0\<rparr>,
                  n_off = 0, intr_ena = False\<rparr>),
      spins = (\<lambda>_. \<lparr>sl_locked = False, sl_cpuid = -1, sl_name = []\<rparr>),
      sleeps = (\<lambda>_. \<lparr>slp_locked = False, slp_pid = -1, slp_name = []\<rparr>),
      procs = (\<lambda>_. \<lparr>p_state = PROC_UNUSED, p_chan = None, p_killed = False, p_xstate = 0,
                   p_pid = -1, p_parent = None, p_kernel_stack = 0, p_size = 0,
                   p_page_table = 0, p_tf = 0,
                   p_ctx = \<lparr>ctx_ra = 0, ctx_sp = 0, ctx_s = \<lambda>_. 0\<rparr>,
                   p_ofile = (\<lambda>_. None), p_cwd = None, p_name = (\<lambda>_. 0)\<rparr>)\<rparr>"

inductive hart_step :: "kbase \<Rightarrow> kbase \<Rightarrow> bool" where
  acquire: "spin_lock_acquire L (s\<lparr>tp := h\<rparr>) = Ret () t \<Longrightarrow> hart_step s t"
| release: "spin_lock_release L (s\<lparr>tp := h\<rparr>) = Ret () t \<Longrightarrow> hart_step s t"
| proc: "running_proc (s\<lparr>tp := h\<rparr>) = Ret p t \<Longrightarrow> hart_step s t"
| enable: "n_off (cpus s h) = 0 \<Longrightarrow> intr_on (s\<lparr>tp := h\<rparr>) = Ret () t \<Longrightarrow> hart_step s t"
| disable: "intr_off (s\<lparr>tp := h\<rparr>) = Ret () t \<Longrightarrow> hart_step s t"

inductive hart_reachable :: "kbase \<Rightarrow> bool" where
  boot: "hart_reachable boot_state"
| step: "hart_reachable s \<Longrightarrow> hart_step s t \<Longrightarrow> hart_reachable t"

definition held :: "'z kbase_scheme \<Rightarrow> nat \<Rightarrow> lock_id set" where
  "held s h = {L. sl_locked (spins s L) \<and> sl_cpuid (spins s L) = int h}"

text \<open>
  A processor has disabled interrupts at least once for each lock it holds, and a lock is
  either free or held by one processor.
\<close>

definition lock_inv :: "'z kbase_scheme \<Rightarrow> bool" where
  "lock_inv s \<longleftrightarrow>
     (\<forall>h. (0 < n_off (cpus s h) \<longrightarrow> \<not> bit (sstatus s h) 1) \<and>
          finite (held s h) \<and> int (card (held s h)) \<le> n_off (cpus s h)) \<and>
     (\<forall>L. if sl_locked (spins s L) then \<exists>h. sl_cpuid (spins s L) = int h
          else sl_cpuid (spins s L) = -1)"

lemma lock_inv_boot: "lock_inv boot_state"
  by (simp add: lock_inv_def boot_state_def held_def)

lemma lock_inv_tp: "lock_inv (s\<lparr>tp := h\<rparr>) = lock_inv s"
  by (simp add: lock_inv_def held_def)

lemma lock_inv_wf: "lock_inv s \<Longrightarrow> hart_wf s"
  unfolding lock_inv_def by (auto simp: hart_defs) (metis of_nat_0_le_iff order_trans)

lemma held_grab:
  "held (grab L s) h = (if h = tp s then insert L (held s h) else held s h - {L})"
  by (auto simp: held_def grab_def hart_defs)

lemma held_ungrab: "held (ungrab L s) h = held s h - {L}"
  by (auto simp: held_def ungrab_def hart_defs Let_def)

lemma lock_inv_grab:
  assumes "lock_inv s" "\<not> sl_locked (spins s L)"
  shows "lock_inv (grab L s)"
proof -
  have hs: "L \<notin> held s h" for h using assms(2) by (simp add: held_def)
  have "int (card (held (grab L s) h)) \<le> n_off (cpus (grab L s) h) \<and> finite (held (grab L s) h)" for h
  proof -
    have "n_off (cpus (grab L s) h) = n_off (cpus s h) + (if h = tp s then 1 else 0)"
      by (simp add: grab_def hart_defs)
    then show ?thesis
      using assms(1) hs [of h] by (auto simp: held_grab lock_inv_def)
  qed
  moreover have "\<not> bit (sstatus (grab L s) h) 1" if "0 < n_off (cpus (grab L s) h)" for h
    using that assms(1) by (auto simp: grab_def hart_defs lock_inv_def split: if_splits)
  moreover have "if sl_locked (spins (grab L s) M) then \<exists>h. sl_cpuid (spins (grab L s) M) = int h
      else sl_cpuid (spins (grab L s) M) = -1" for M
    using assms(1) by (auto simp: grab_def hart_defs lock_inv_def)
  ultimately show ?thesis unfolding lock_inv_def by blast
qed

lemma lock_inv_ungrab:
  assumes "lock_inv s" "spin_lock_holding L s"
  shows "lock_inv (ungrab L s)"
proof -
  have L: "L \<in> held s (tp s)" "\<And>h. h \<noteq> tp s \<Longrightarrow> L \<notin> held s h"
    using assms(2) by (auto simp: held_def spin_lock_holding_def current_cpuid_def)
  have n: "n_off (cpus (ungrab L s) h) = n_off (cpus s h) - (if h = tp s then 1 else 0)" for h
    by (simp add: ungrab_def hart_defs Let_def)
  have "int (card (held (ungrab L s) h)) \<le> n_off (cpus (ungrab L s) h) \<and> finite (held (ungrab L s) h)" for h
  proof (cases "h = tp s")
    case True
    have f: "finite (held s h)" and c: "int (card (held s h)) \<le> n_off (cpus s h)"
      using assms(1) by (auto simp: lock_inv_def)
    have "0 < card (held s h)" using f L(1) True by (auto simp: card_gt_0_iff)
    then show ?thesis
      using f c L(1) True by (simp add: n held_ungrab card_Diff_singleton)
  next
    case False
    then show ?thesis
      using assms(1) L(2) [of h] by (auto simp: n held_ungrab lock_inv_def)
  qed
  moreover have "\<not> bit (sstatus (ungrab L s) h) 1" if "0 < n_off (cpus (ungrab L s) h)" for h
    using that assms(1) by (auto simp: ungrab_def hart_defs lock_inv_def Let_def split: if_splits)
  moreover have "if sl_locked (spins (ungrab L s) M) then \<exists>h. sl_cpuid (spins (ungrab L s) M) = int h
      else sl_cpuid (spins (ungrab L s) M) = -1" for M
    using assms(1) by (auto simp: ungrab_def hart_defs lock_inv_def Let_def)
  ultimately show ?thesis unfolding lock_inv_def by blast
qed

lemma lock_inv_step:
  assumes "hart_step s t" "lock_inv s"
  shows "lock_inv t"
  using assms(1)
proof cases
  case (acquire L h)
  then show ?thesis
    using assms(2) by (auto simp: spin_lock_acquire_eq lock_inv_tp intro!: lock_inv_grab split: if_splits)
next
  case (release L h)
  then show ?thesis
    using assms(2) by (auto simp: spin_lock_release_eq lock_inv_tp intro!: lock_inv_ungrab split: if_splits)
next
  case (proc h p)
  then have "t = settle (s\<lparr>tp := h\<rparr>)"
    using assms(2) by (simp add: running_proc_eq lock_inv_wf lock_inv_tp)
  moreover have "n_off (cpus (settle (s\<lparr>tp := h\<rparr>)) k) = n_off (cpus s k)"
      "sstatus (settle (s\<lparr>tp := h\<rparr>)) = sstatus s" "spins (settle (s\<lparr>tp := h\<rparr>)) = spins s" for k
    by (auto simp: settle_def hart_defs)
  ultimately show ?thesis
    using assms(2) by (simp add: lock_inv_def held_def)
next
  case (enable h)
  then show ?thesis
    using assms(2) by (auto simp: intr_on_def lock_inv_def held_def split: if_splits)
next
  case (disable h)
  then show ?thesis
    using assms(2) by (auto simp: intr_off_def lock_inv_def held_def split: if_splits)
qed

lemma reachable_lock_inv: "hart_reachable s \<Longrightarrow> lock_inv s"
  by (induction rule: hart_reachable.induct) (auto intro: lock_inv_boot lock_inv_step)

section \<open>Properties\<close>

text \<open>
  C4. Mutual exclusion. In every reachable state of the processors, if processor \<open>h\<close>
  holds a spin lock then interrupts are disabled on \<open>h\<close>, and on any other processor
  \<^verbatim>\<open>spin_lock_acquire\<close> of that lock spins and \<^verbatim>\<open>spin_lock_release\<close>
  panics: only the holder can end the critical section.
\<close>

theorem spin_lock_mutual_exclusion:
  assumes "hart_reachable s" and "spin_lock_holding L (s\<lparr>tp := h\<rparr>)" and "h' \<noteq> h"
  shows "\<not> intr_bit (s\<lparr>tp := h\<rparr>) \<and>
    spin_lock_acquire L (s\<lparr>tp := h'\<rparr>) = Spin \<and>
    spin_lock_release L (s\<lparr>tp := h'\<rparr>) = Panic ''release unheld lock''"
proof -
  have inv: "lock_inv s" using assms(1) by (rule reachable_lock_inv)
  have "L \<in> held s h"
    using assms(2) by (simp add: held_def spin_lock_holding_def current_cpuid_def)
  then have "0 < card (held s h)" using inv by (auto simp: lock_inv_def card_gt_0_iff)
  then have "0 < n_off (cpus s h)"
    using inv unfolding lock_inv_def by (metis of_nat_0_less_iff order_less_le_trans)
  then have "\<not> bit (sstatus s h) 1" using inv by (auto simp: lock_inv_def)
  then show ?thesis
    using assms(2,3)
    by (simp add: spin_lock_acquire_eq spin_lock_release_eq spin_lock_holding_def
        current_cpuid_def intr_bit_iff)
qed

theorem spin_lock_mutual_exclusion_witness:
  "\<exists>s. hart_reachable s \<and> spin_lock_holding L_pid (s\<lparr>tp := 1\<rparr>) \<and>
    spin_lock_acquire L_pid (s\<lparr>tp := 2\<rparr>) = Spin"
proof -
  let ?s = "grab L_pid (boot_state\<lparr>tp := 1\<rparr>)"
  have "spin_lock_acquire L_pid (boot_state\<lparr>tp := 1\<rparr>) = Ret () ?s"
    by (simp add: spin_lock_acquire_eq spin_lock_holding_def boot_state_def)
  then have r: "hart_reachable ?s"
    by (intro hart_reachable.step [OF hart_reachable.boot] hart_step.acquire)
  have h: "spin_lock_holding L_pid (?s\<lparr>tp := 1\<rparr>)"
    by (simp add: spin_lock_holding_def current_cpuid_def grab_def set_lock_def boot_state_def)
  have ne: "(2::nat) \<noteq> 1" by simp
  show ?thesis
    using r h spin_lock_mutual_exclusion [OF r h ne] by blast
qed

text \<open>
  C25. Critical sections nest. From any well-formed processor state in which \<open>L\<close> is free,
  acquiring and releasing \<open>L\<close> returns to the same state, except that
  \<^verbatim>\<open>intr_ena\<close> records the interrupt bit when the section is the outermost one;
  from then on (\<open>hart_ok\<close>) the pair is the identity.
\<close>

theorem acquire_release_restores:
  assumes "hart_wf s" and "lock_free s L"
  shows "thenK (spin_lock_acquire L) (spin_lock_release L) s = Ret () (settle s) \<and>
    hart_ok (settle s) \<and> settle (settle s) = settle s"
proof -
  have a: "spin_lock_acquire L s = Ret () (grab L s)"
    using assms(2) by (simp add: spin_lock_acquire_eq lock_free_def spin_lock_holding_def)
  have "spin_lock_release L (grab L s) = Ret () (ungrab L (grab L s))"
    using assms(1) by (simp add: spin_lock_release_eq grab_def spin_lock_holding_def hart_defs)
  moreover have "ungrab L (grab L s) = settle s"
    using assms(2) popped_pushed [OF assms(1)]
    by (simp add: ungrab_def grab_def set_lock_def lock_free_def upd_cpu_def pushed_def
        lock_upd_triv)
  ultimately show ?thesis
    using a assms(1) by (simp add: thenK_def hart_ok_settle settle_id)
qed

theorem acquire_release_restores_witness:
  "hart_wf boot_state \<and> lock_free boot_state L_log \<and>
   thenK (spin_lock_acquire L_log) (spin_lock_release L_log) boot_state = Ret () (settle boot_state)"
proof -
  have w: "hart_wf boot_state" by (simp add: hart_defs boot_state_def)
  have f: "lock_free boot_state L_log" by (simp add: lock_free_def boot_state_def)
  show ?thesis using w f acquire_release_restores [OF w f] by simp
qed

end
