(* ===== verification/Sched.thy ===== *)
theory Sched
  imports Hart
begin

text \<open>
  Giving up the processor and being woken: \<^verbatim>\<open>scheduler\<close>, \<^verbatim>\<open>sched\<close>,
  \<^verbatim>\<open>yield\<close>, \<^verbatim>\<open>sleep_on\<close>, \<^verbatim>\<open>wake_up\<close>,
  \<^verbatim>\<open>kill\<close>, \<^verbatim>\<open>killed\<close> and \<^verbatim>\<open>set_killed\<close> of
  \<^verbatim>\<open>kernel/sched/proc.c\<close>, and the sleep locks of \<^verbatim>\<open>kernel/lock.c\<close>
  that are built on them.

  \<^verbatim>\<open>context_switch\<close> is the outcome \<open>Switch\<close>: the routine stops there, and
  what the source does after the call is a definition of its own
  (\<open>sched_resume\<close>, \<open>sleep_on_resume\<close>, \<open>scheduler_resume\<close>). A dereference of the
  null pointer (no process runs on this processor) faults, and the kernel trap handler
  panics with \<open>kernel trap\<close>.
\<close>

section \<open>Definitions\<close>

definition current_proc :: "('z kbase_scheme, nat) kernel" where
  "current_proc =
     bindK running_proc (\<lambda>p. case p of None \<Rightarrow> panicK ''kernel trap'' | Some i \<Rightarrow> retK i)"

definition upd_proc :: "nat \<Rightarrow> (process \<Rightarrow> process) \<Rightarrow> ('z kbase_scheme, unit) kernel" where
  "upd_proc i f = modK (\<lambda>s. s\<lparr>procs := (procs s)(i := f (procs s i))\<rparr>)"

definition context_switch :: "('z kbase_scheme, unit) kernel" where
  "context_switch s = Switch s"

definition sched :: "('z kbase_scheme, unit) kernel" where
  "sched =
     bindK current_proc (\<lambda>p.
     bindK (getK (\<lambda>s. (spin_lock_holding (L_proc p) s, n_off (current_cpu s),
                       p_state (procs s p)))) (\<lambda>(h, n, st).
     if \<not> h then panicK ''the process lock is not held during scheduling''
     else if n \<noteq> 1 then panicK ''locked during scheduling''
     else if st = PROC_RUNNING then panicK ''schedule a running process''
     else bindK intr_get (\<lambda>ie.
       if ie then panicK ''scheduling can be interrupted'' else context_switch)))"

text \<open>After the switch back, \<^verbatim>\<open>sched\<close> restores the \<^verbatim>\<open>intr_ena\<close> it saved.\<close>

definition sched_resume :: "bool \<Rightarrow> ('z kbase_scheme, unit) kernel" where
  "sched_resume ie = modK (upd_cpu (\<lambda>c. c\<lparr>intr_ena := ie\<rparr>))"

definition killed :: "nat \<Rightarrow> ('z kbase_scheme, bool) kernel" where
  "killed p =
     thenK (spin_lock_acquire (L_proc p)) (
     bindK (getK (\<lambda>s. p_killed (procs s p))) (\<lambda>k.
     thenK (spin_lock_release (L_proc p)) (retK k)))"

definition set_killed :: "nat \<Rightarrow> ('z kbase_scheme, unit) kernel" where
  "set_killed p = seqK [
     spin_lock_acquire (L_proc p),
     upd_proc p (\<lambda>q. q\<lparr>p_killed := True\<rparr>),
     spin_lock_release (L_proc p)]"

definition yield :: "('z kbase_scheme, unit) kernel" where
  "yield = bindK current_proc (\<lambda>p. seqK [
     spin_lock_acquire (L_proc p),
     upd_proc p (\<lambda>q. q\<lparr>p_state := PROC_RUNNABLE\<rparr>),
     sched,
     spin_lock_release (L_proc p)])"

definition sleep_on :: "chan \<Rightarrow> lock_id \<Rightarrow> ('z kbase_scheme, unit) kernel" where
  "sleep_on ch L = bindK current_proc (\<lambda>p. seqK [
     spin_lock_acquire (L_proc p),
     spin_lock_release L,
     upd_proc p (\<lambda>q. q\<lparr>p_chan := Some ch\<rparr>),
     upd_proc p (\<lambda>q. q\<lparr>p_state := PROC_SLEEPING\<rparr>),
     sched,
     upd_proc p (\<lambda>q. q\<lparr>p_chan := None\<rparr>),
     spin_lock_release (L_proc p),
     spin_lock_acquire L])"

definition sleep_on_resume :: "nat \<Rightarrow> bool \<Rightarrow> lock_id \<Rightarrow> ('z kbase_scheme, unit) kernel" where
  "sleep_on_resume p ie L = seqK [
     sched_resume ie,
     upd_proc p (\<lambda>q. q\<lparr>p_chan := None\<rparr>),
     spin_lock_release (L_proc p),
     spin_lock_acquire L]"

definition wake_up :: "chan \<Rightarrow> ('z kbase_scheme, unit) kernel" where
  "wake_up ch = bindK running_proc (\<lambda>rp.
     forK [0..<N_PROC] (\<lambda>p.
       if Some p \<noteq> rp then
         thenK (spin_lock_acquire (L_proc p)) (
         bindK (getK (\<lambda>s. procs s p)) (\<lambda>q. seqK [
           whenK (p_state q = PROC_SLEEPING \<and> p_chan q = Some ch)
             (upd_proc p (\<lambda>q. q\<lparr>p_state := PROC_RUNNABLE\<rparr>)),
           spin_lock_release (L_proc p)]))
       else retK ()))"

definition kill :: "int \<Rightarrow> ('z kbase_scheme, int) kernel" where
  "kill pid =
     bindK (untilK [0..<N_PROC] (\<lambda>p.
       thenK (spin_lock_acquire (L_proc p)) (
       bindK (getK (\<lambda>s. procs s p)) (\<lambda>q.
       if p_pid q = pid then
         thenK (seqK [
           upd_proc p (\<lambda>q. q\<lparr>p_killed := True\<rparr>),
           whenK (p_state q = PROC_SLEEPING) (upd_proc p (\<lambda>q. q\<lparr>p_state := PROC_RUNNABLE\<rparr>)),
           spin_lock_release (L_proc p)]) (retK (Some 0))
       else thenK (spin_lock_release (L_proc p)) (retK None)))))
     (\<lambda>r. case r of None \<Rightarrow> retK (-1) | Some v \<Rightarrow> retK v)"

text \<open>
  One turn of the scheduler's inner loop, up to the switch into the process it chose and
  from the switch back; \<open>found\<close> is whether a process ran.
\<close>

definition scheduler_visit :: "nat \<Rightarrow> ('z kbase_scheme, unit) kernel" where
  "scheduler_visit p =
     thenK (spin_lock_acquire (L_proc p)) (
     bindK (getK (\<lambda>s. p_state (procs s p))) (\<lambda>st. seqK [
       whenK (st = PROC_RUNNABLE) (seqK [
         upd_proc p (\<lambda>q. q\<lparr>p_state := PROC_RUNNING\<rparr>),
         modK (upd_cpu (\<lambda>c. c\<lparr>c_proc := Some p\<rparr>)),
         context_switch,
         modK (upd_cpu (\<lambda>c. c\<lparr>c_proc := None\<rparr>))]),
       spin_lock_release (L_proc p)]))"

definition scheduler_resume :: "nat \<Rightarrow> ('z kbase_scheme, unit) kernel" where
  "scheduler_resume p = seqK [
     modK (upd_cpu (\<lambda>c. c\<lparr>c_proc := None\<rparr>)),
     spin_lock_release (L_proc p)]"

subsection \<open>Sleep locks (lock.c)\<close>

definition sleep_lock_init :: "sleep_id \<Rightarrow> string \<Rightarrow> ('z kbase_scheme, unit) kernel" where
  "sleep_lock_init l name = seqK [
     spin_lock_init (L_sleep l) ''sleep_lock'',
     modK (\<lambda>s. s\<lparr>sleeps := (sleeps s)(l := \<lparr>slp_locked = False, slp_pid = -1, slp_name = name\<rparr>)\<rparr>)]"

definition sleep_lock_holding :: "sleep_id \<Rightarrow> ('z kbase_scheme, bool) kernel" where
  "sleep_lock_holding l =
     thenK (spin_lock_acquire (L_sleep l)) (
     bindK (getK (\<lambda>s. sleeps s l)) (\<lambda>k.
     bindK (if slp_locked k
            then bindK current_proc (\<lambda>p. getK (\<lambda>s. p_pid (procs s p) = slp_pid k))
            else retK False) (\<lambda>is_holding.
     thenK (spin_lock_release (L_sleep l)) (retK is_holding))))"

text \<open>
  \<^verbatim>\<open>while (lock->locked) sleep_on(...)\<close>: a sleeping process is out of the
  routine at the first \<^verbatim>\<open>sleep_on\<close>, so one test of the loop guard is enough.
\<close>

definition sleep_lock_acquire :: "sleep_id \<Rightarrow> ('z kbase_scheme, unit) kernel" where
  "sleep_lock_acquire l =
     bindK (sleep_lock_holding l) (\<lambda>h.
     if h then panicK ''repeatedly acquire lock'' else
     thenK (spin_lock_acquire (L_sleep l)) (
     bindK (getK (\<lambda>s. slp_locked (sleeps s l))) (\<lambda>b.
     thenK (whenK b (sleep_on (Ch_sleep l) (L_sleep l))) (
     thenK (modK (\<lambda>s. s\<lparr>sleeps := (sleeps s)(l := (sleeps s l)\<lparr>slp_locked := True\<rparr>)\<rparr>)) (
     bindK current_proc (\<lambda>p. seqK [
       modK (\<lambda>s. s\<lparr>sleeps := (sleeps s)(l := (sleeps s l)\<lparr>slp_pid := p_pid (procs s p)\<rparr>)\<rparr>),
       spin_lock_release (L_sleep l)]))))))"

definition sleep_lock_release :: "sleep_id \<Rightarrow> ('z kbase_scheme, unit) kernel" where
  "sleep_lock_release l =
     bindK (sleep_lock_holding l) (\<lambda>h.
     if \<not> h then panicK ''release unheld lock'' else seqK [
       spin_lock_acquire (L_sleep l),
       modK (\<lambda>s. s\<lparr>sleeps := (sleeps s)(l := (sleeps s l)\<lparr>slp_locked := False\<rparr>)\<rparr>),
       modK (\<lambda>s. s\<lparr>sleeps := (sleeps s)(l := (sleeps s l)\<lparr>slp_pid := -1\<rparr>)\<rparr>),
       wake_up (Ch_sleep l),
       spin_lock_release (L_sleep l)])"

section \<open>Behaviour under the locks\<close>

lemma current_proc_ok [simp]:
  "hart_ok s \<Longrightarrow> cur_proc s = Some p \<Longrightarrow> current_proc s = Ret p s"
  by (simp add: current_proc_def)

lemma upd_proc_apply [simp]:
  "upd_proc i f s = Ret () (s\<lparr>procs := (procs s)(i := f (procs s i))\<rparr>)"
  by (simp add: upd_proc_def)

lemma killed_ok [simp]:
  "avail s (L_proc p) \<Longrightarrow> killed p s = Ret (p_killed (procs s p)) s"
  by (simp add: killed_def thenK_def)

lemma set_killed_ok [simp]:
  "avail s (L_proc p) \<Longrightarrow>
     set_killed p s = Ret () (s\<lparr>procs := (procs s)(p := (procs s p)\<lparr>p_killed := True\<rparr>)\<rparr>)"
  by (simp add: set_killed_def thenK_def)

subsection \<open>wake_up\<close>

definition woken :: "nat option \<Rightarrow> chan \<Rightarrow> (nat \<Rightarrow> process) \<Rightarrow> nat \<Rightarrow> process" where
  "woken rp ch ps i =
     (if i < N_PROC \<and> Some i \<noteq> rp \<and> p_state (ps i) = PROC_SLEEPING \<and> p_chan (ps i) = Some ch
      then (ps i)\<lparr>p_state := PROC_RUNNABLE\<rparr> else ps i)"

definition wake_one :: "nat option \<Rightarrow> chan \<Rightarrow> nat \<Rightarrow> process \<Rightarrow> process" where
  "wake_one rp ch i q =
     (if Some i \<noteq> rp \<and> p_state q = PROC_SLEEPING \<and> p_chan q = Some ch
      then q\<lparr>p_state := PROC_RUNNABLE\<rparr> else q)"

lemma fold_procs:
  "distinct ps \<Longrightarrow>
   fold (\<lambda>i t. t\<lparr>procs := (procs t)(i := g i (procs t i))\<rparr>) ps s =
     s\<lparr>procs := \<lambda>i. if i \<in> set ps then g i (procs s i) else procs s i\<rparr>"
proof (induction ps arbitrary: s)
  case (Cons i ps)
  let ?f = "\<lambda>i t. t\<lparr>procs := (procs t)(i := g i (procs t i))\<rparr>"
  have "fold ?f (i # ps) s = fold ?f ps (?f i s)" by (rule fold_simps(2))
  also have "\<dots> = (?f i s)\<lparr>procs := \<lambda>j. if j \<in> set ps then g j (procs (?f i s) j) else procs (?f i s) j\<rparr>"
    using Cons by (intro Cons.IH) simp
  also have "(\<lambda>j. if j \<in> set ps then g j (procs (?f i s) j) else procs (?f i s) j) =
      (\<lambda>j. if j \<in> set (i # ps) then g j (procs s j) else procs s j)"
    using Cons.prems by (auto simp: fun_eq_iff)
  also have "(?f i s)\<lparr>procs := \<lambda>j. if j \<in> set (i # ps) then g j (procs s j) else procs s j\<rparr> =
      s\<lparr>procs := \<lambda>j. if j \<in> set (i # ps) then g j (procs s j) else procs s j\<rparr>"
    by simp
  finally show ?case .
qed simp

definition procs_avail :: "'z kbase_scheme \<Rightarrow> bool" where
  "procs_avail s \<longleftrightarrow> hart_ok s \<and> (\<forall>p<N_PROC. avail s (L_proc p))"

lemma procs_availD [simp]: "procs_avail s \<Longrightarrow> hart_ok s"
  by (simp add: procs_avail_def)

lemma procs_avail_grab [simp]:
  "procs_avail s \<Longrightarrow> (\<And>p. L \<noteq> L_proc p) \<Longrightarrow> procs_avail (grab L s)"
  by (simp add: procs_avail_def)

lemma procs_avail_frame [simp, quiet_simps]:
  "procs_avail (procs_update f s) = procs_avail s"
  "procs_avail (sleeps_update g s) = procs_avail s"
  by (simp_all add: procs_avail_def)

lemma quiet_procs_avail [simp, intro]: "quiet s \<Longrightarrow> procs_avail s"
  unfolding procs_avail_def using quiet_avail by (blast intro: avail_hart_ok)

text \<open>\<^verbatim>\<open>wake_up\<close> skips the caller, who may hold its own lock.\<close>

definition others_avail :: "'z kbase_scheme \<Rightarrow> bool" where
  "others_avail s \<longleftrightarrow> hart_ok s \<and> (\<forall>p<N_PROC. Some p \<noteq> cur_proc s \<longrightarrow> avail s (L_proc p))"

lemma procs_others_avail: "procs_avail s \<Longrightarrow> others_avail s"
  by (simp add: procs_avail_def others_avail_def)

lemma wake_up_others:
  assumes "others_avail s"
  shows "wake_up ch s = Ret () (s\<lparr>procs := woken (cur_proc s) ch (procs s)\<rparr>)"
proof -
  let ?upd = "\<lambda>i t. t\<lparr>procs := (procs t)(i := wake_one (cur_proc s) ch i (procs t i))\<rparr>"
  let ?P = "\<lambda>t. others_avail t \<and> cur_proc t = cur_proc s"
  let ?body = "\<lambda>p.
       if Some p \<noteq> cur_proc s then
         thenK (spin_lock_acquire (L_proc p)) (
         bindK (getK (\<lambda>s. procs s p)) (\<lambda>q. seqK [
           whenK (p_state q = PROC_SLEEPING \<and> p_chan q = Some ch)
             (upd_proc p (\<lambda>q. q\<lparr>p_state := PROC_RUNNABLE\<rparr>)),
           spin_lock_release (L_proc p)]))
       else retK ()"
  have run: "forK [0..<N_PROC] ?body s = Ret () (fold ?upd [0..<N_PROC] s) \<and> ?P (fold ?upd [0..<N_PROC] s)"
  proof (rule forK_fold)
    fix i and t :: "'a kbase_scheme"
    assume "i \<in> set [0..<N_PROC]" and P: "?P t"
    then have "Some i \<noteq> cur_proc s \<Longrightarrow> avail t (L_proc i)" by (auto simp: others_avail_def)
    then have "?body i t = Ret () (?upd i t)"
      by (cases "Some i = cur_proc s";
          cases "p_state (procs t i) = PROC_SLEEPING \<and> p_chan (procs t i) = Some ch")
         (auto simp: thenK_def wake_one_def)
    moreover have "?P (?upd i t)" using P by (simp add: others_avail_def)
    ultimately show "?body i t = Ret () (?upd i t) \<and> ?P (?upd i t)" by blast
  qed (use assms in simp)
  have all: "fold ?upd [0..<N_PROC] s = s\<lparr>procs := woken (cur_proc s) ch (procs s)\<rparr>"
  proof -
    have "(\<lambda>i. if i \<in> set [0..<N_PROC] then wake_one (cur_proc s) ch i (procs s i) else procs s i) =
        woken (cur_proc s) ch (procs s)"
      by (auto simp: fun_eq_iff woken_def wake_one_def)
    then show ?thesis by (simp only: fold_procs distinct_upt)
  qed
  have "wake_up ch s = forK [0..<N_PROC] ?body s"
    unfolding wake_up_def using assms by (intro bindK_Ret running_proc_ok) (simp add: others_avail_def)
  also have "\<dots> = Ret () (fold ?upd [0..<N_PROC] s)" by (rule conjunct1 [OF run])
  finally show ?thesis unfolding all .
qed

lemma wake_up_ok [simp]:
  "procs_avail s \<Longrightarrow> wake_up ch s = Ret () (s\<lparr>procs := woken (cur_proc s) ch (procs s)\<rparr>)"
  by (intro wake_up_others procs_others_avail)

subsection \<open>kill\<close>

lemma kill_ok:
  assumes "procs_avail s"
  shows "kill pid s =
    (case find (\<lambda>p. p_pid (procs s p) = pid) [0..<N_PROC] of
       None \<Rightarrow> Ret (-1) s
     | Some p \<Rightarrow> Ret 0 (s\<lparr>procs := (procs s)(p := (procs s p)\<lparr>p_killed := True,
         p_state := if p_state (procs s p) = PROC_SLEEPING then PROC_RUNNABLE
                    else p_state (procs s p)\<rparr>)\<rparr>))"
proof -
  let ?v = "\<lambda>p. s\<lparr>procs := (procs s)(p := (procs s p)\<lparr>p_killed := True,
         p_state := if p_state (procs s p) = PROC_SLEEPING then PROC_RUNNABLE
                    else p_state (procs s p)\<rparr>)\<rparr>"
  have av: "avail s (L_proc p)" if "p \<in> set [0..<N_PROC]" for p
    using that assms by (simp add: procs_avail_def)
  let ?body = "\<lambda>p. thenK (spin_lock_acquire (L_proc p)) (
       bindK (getK (\<lambda>s. procs s p)) (\<lambda>q.
       if p_pid q = pid then
         thenK (seqK [
           upd_proc p (\<lambda>q. q\<lparr>p_killed := True\<rparr>),
           whenK (p_state q = PROC_SLEEPING) (upd_proc p (\<lambda>q. q\<lparr>p_state := PROC_RUNNABLE\<rparr>)),
           spin_lock_release (L_proc p)]) (retK (Some (0 :: int)))
       else thenK (spin_lock_release (L_proc p)) (retK None)))"
  have "untilK [0..<N_PROC] ?body s =
    (case find (\<lambda>p. p_pid (procs s p) = pid) [0..<N_PROC] of
       None \<Rightarrow> Ret None s | Some p \<Rightarrow> Ret (Some 0) (?v p))"
  proof (rule untilK_find)
    fix p assume p: "p \<in> set [0..<N_PROC]"
    note a = av [OF p]
    show "?body p s = Ret None s" if "p_pid (procs s p) \<noteq> pid"
      using a that by (simp add: thenK_def)
    show "?body p s = Ret (Some 0) (?v p)" if "p_pid (procs s p) = pid"
      using a that by (cases "p_state (procs s p) = PROC_SLEEPING") (simp_all add: thenK_def)
  qed
  then show ?thesis
    unfolding kill_def by (simp add: bindK_def split: option.splits)
qed

subsection \<open>Sleep locks\<close>

lemma sleep_lock_holding_ok [simp]:
  assumes "avail s (L_sleep l)" "cur_proc s = Some p"
  shows "sleep_lock_holding l s =
    Ret (slp_locked (sleeps s l) \<and> p_pid (procs s p) = slp_pid (sleeps s l)) s"
  using assms avail_hart_ok [OF assms(1)]
  by (cases "slp_locked (sleeps s l)") (simp_all add: sleep_lock_holding_def thenK_def)

lemma sleep_lock_acquire_ok [simp]:
  assumes "avail s (L_sleep l)" "cur_proc s = Some p" "\<not> slp_locked (sleeps s l)"
  shows "sleep_lock_acquire l s =
    Ret () (s\<lparr>sleeps := (sleeps s)(l := (sleeps s l)\<lparr>slp_locked := True, slp_pid := p_pid (procs s p)\<rparr>)\<rparr>)"
  using assms avail_hart_ok [OF assms(1)]
  by (simp add: sleep_lock_acquire_def thenK_def)

lemma sleep_lock_acquire_again:
  assumes "avail s (L_sleep l)" "cur_proc s = Some p"
    "slp_locked (sleeps s l)" "slp_pid (sleeps s l) = p_pid (procs s p)"
  shows "sleep_lock_acquire l s = Panic ''repeatedly acquire lock''"
  using assms by (simp add: sleep_lock_acquire_def thenK_def)

lemma sleep_lock_release_ok [simp]:
  assumes "avail s (L_sleep l)" "procs_avail s" "cur_proc s = Some p"
    "slp_locked (sleeps s l)" "slp_pid (sleeps s l) = p_pid (procs s p)"
  shows "sleep_lock_release l s =
    Ret () (s\<lparr>sleeps := (sleeps s)(l := (sleeps s l)\<lparr>slp_locked := False, slp_pid := -1\<rparr>),
              procs := woken (Some p) (Ch_sleep l) (procs s)\<rparr>)"
  using assms by (simp add: sleep_lock_release_def thenK_def)

lemma sleep_lock_release_unheld:
  assumes "avail s (L_sleep l)" "cur_proc s = Some p"
    "\<not> (slp_locked (sleeps s l) \<and> slp_pid (sleeps s l) = p_pid (procs s p))"
  shows "sleep_lock_release l s = Panic ''release unheld lock''"
  using assms by (auto simp: sleep_lock_release_def thenK_def)

text \<open>
  Waking a channel on which no process sleeps changes nothing.
\<close>

definition no_sleeper :: "'z kbase_scheme \<Rightarrow> chan \<Rightarrow> bool" where
  "no_sleeper s ch \<longleftrightarrow>
     (\<forall>i. \<not> (p_state (procs s i) = PROC_SLEEPING \<and> p_chan (procs s i) = Some ch))"

lemma woken_id: "no_sleeper s ch \<Longrightarrow> woken rp ch (procs s) = procs s"
  by (auto simp: woken_def no_sleeper_def fun_eq_iff)

subsection \<open>Sleeping\<close>

lemma n_off_grab [simp]: "n_off (current_cpu (grab L s)) = n_off (current_cpu s) + 1"
  by (simp add: grab_def hart_defs)

lemma n_off_frame [simp]:
  "n_off (current_cpu (procs_update f s)) = n_off (current_cpu s)"
  "n_off (current_cpu (sleeps_update g s)) = n_off (current_cpu s)"
  by (simp_all add: hart_defs)

lemma n_off_ungrab [simp]: "n_off (current_cpu (ungrab L s)) = n_off (current_cpu s) - 1"
  by (simp add: ungrab_def hart_defs Let_def)

lemma cur_proc_ungrab [simp]: "cur_proc (ungrab L s) = cur_proc s"
  by (simp add: cur_proc_def ungrab_def hart_defs Let_def)

lemma hart_ok_ungrab [simp]:
  "hart_ok s \<Longrightarrow> 1 < n_off (current_cpu s) \<Longrightarrow> hart_ok (ungrab L s)"
  by (auto simp: ungrab_def hart_defs Let_def)

lemma holds_ungrab [simp]:
  "holds s L \<Longrightarrow> L \<noteq> L' \<Longrightarrow> 1 < n_off (current_cpu s) \<Longrightarrow> holds (ungrab L' s) L"
  by (auto simp: holds_def spin_lock_holding_def current_cpuid_def)
     (auto simp: ungrab_def hart_defs Let_def)

lemma sched_eq:
  assumes "hart_ok s" "cur_proc s = Some p"
  shows "sched s =
    (if \<not> spin_lock_holding (L_proc p) s
     then Panic ''the process lock is not held during scheduling''
     else if n_off (current_cpu s) \<noteq> 1 then Panic ''locked during scheduling''
     else if p_state (procs s p) = PROC_RUNNING then Panic ''schedule a running process''
     else Switch s)"
  using assms
  by (auto simp: sched_def intr_get_def context_switch_def intr_bit_def hart_ok_def hart_wf_def
      bindK_def)

text \<open>
  A process that sleeps holding exactly the lock it passes gives up the processor in
  state \<open>PROC_SLEEPING\<close> on the channel, with its own lock held for the scheduler to
  release and the passed lock released only after that: no wake-up between the caller's
  test and the switch is lost. With any further spin lock held the kernel panics.
\<close>

lemma sleep_on_ok:
  assumes "holds s L" "avail s (L_proc p)" "cur_proc s = Some p" "L \<noteq> L_proc p"
  shows "sleep_on ch L s =
    (if n_off (current_cpu s) = 1
     then Switch ((ungrab L (grab (L_proc p) s))
            \<lparr>procs := (procs s)(p := (procs s p)\<lparr>p_chan := Some ch, p_state := PROC_SLEEPING\<rparr>)\<rparr>)
     else Panic ''locked during scheduling'')"
proof -
  let ?t = "ungrab L (grab (L_proc p) s)"
  let ?u = "?t\<lparr>procs := (procs s)(p := (procs s p)\<lparr>p_chan := Some ch, p_state := PROC_SLEEPING\<rparr>)\<rparr>"
  have pos: "1 < n_off (current_cpu (grab (L_proc p) s))"
    using assms(1) by (simp add: holds_def)
  have hp: "holds (grab (L_proc p) s) (L_proc p)" using assms(2) by simp
  have hl: "holds (grab (L_proc p) s) L" using assms(1,4) by simp
  have "holds ?t (L_proc p)" using hp assms(4) pos by simp
  then have "spin_lock_holding (L_proc p) ?t" "hart_ok ?t" by (simp_all add: holds_def)
  then have u: "spin_lock_holding (L_proc p) ?u" "hart_ok ?u" "cur_proc ?u = Some p"
      "n_off (current_cpu ?u) = n_off (current_cpu s)" "p_state (procs ?u p) = PROC_SLEEPING"
    using assms(3) by (simp_all add: spin_lock_holding_def current_cpuid_def)
  have "sleep_on ch L s = thenK sched (seqK [
     upd_proc p (\<lambda>q. q\<lparr>p_chan := None\<rparr>), spin_lock_release (L_proc p), spin_lock_acquire L]) ?u"
    using assms(2,3) hl avail_hart_ok [OF assms(2)] by (simp add: sleep_on_def thenK_def)
  then show ?thesis
    by (simp add: thenK_def bindK_def sched_eq [OF u(2,3)] u)
qed

subsection \<open>Switching out and back in\<close>

definition setp :: "nat option \<Rightarrow> 'z kbase_scheme \<Rightarrow> 'z kbase_scheme" where
  "setp c s = upd_cpu (\<lambda>x. x\<lparr>c_proc := c\<rparr>) s"

lemma cpu_c_proc_swap: "x\<lparr>c_proc := c, intr_ena := b, n_off := n\<rparr> = x\<lparr>intr_ena := b, n_off := n, c_proc := c\<rparr>"
    "x\<lparr>c_proc := c, n_off := n\<rparr> = x\<lparr>n_off := n, c_proc := c\<rparr>"
    "x\<lparr>c_proc := c, intr_ena := b\<rparr> = x\<lparr>intr_ena := b, c_proc := c\<rparr>"
  by (cases x; simp)+

lemma cpu_c_proc_triv: "c_proc x = c \<Longrightarrow> x\<lparr>c_proc := c\<rparr> = x"
  by (cases x) simp

lemma setp_frame [simp]:
  "hart_ok (setp c s) = hart_ok s" "avail (setp c s) L = avail s L" "holds (setp c s) L = holds s L"
  "quiet (setp c s) = quiet s" "procs_avail (setp c s) = procs_avail s" "cur_proc (setp c s) = c"
  "procs (setp c s) = procs s" "sleeps (setp c s) = sleeps s" "spins (setp c s) = spins s" "tp (setp c s) = tp s"
  "n_off (current_cpu (setp c s)) = n_off (current_cpu s)"
  "intr_ena (current_cpu (setp c s)) = intr_ena (current_cpu s)"
  by (simp_all add: setp_def procs_avail_def avail_def holds_def quiet_def cur_proc_def lock_free_def
      spin_lock_holding_def hart_defs)

lemma setp_grab: "grab L (setp c s) = setp c (grab L s)" "ungrab L (setp c s) = setp c (ungrab L s)"
  by (simp_all add: setp_def grab_def ungrab_def hart_defs Let_def cpu_c_proc_swap)

lemma setp_simps [simp]:
  "setp c (setp d s) = setp c s" "cur_proc s = c \<Longrightarrow> setp c s = s"
  "setp c (procs_update f s) = procs_update f (setp c s)"
  by (simp_all add: setp_def hart_defs cur_proc_def cpu_c_proc_triv)

lemma grab_frame [simp]:
  "grab L (procs_update f s) = procs_update f (grab L s)"
  "grab L (sleeps_update g s) = sleeps_update g (grab L s)"
  by (simp_all add: grab_def hart_defs)

text \<open>Handing one lock over for another, as \<^verbatim>\<open>sleep_on\<close> does.\<close>

lemma ungrab_grab_other:
  assumes "avail s L" "L \<noteq> L'"
  shows "ungrab L (grab L' (grab L s)) = grab L' s"
proof -
  have *: "grab L' (grab L s) = grab L (grab L' s)"
    using assms(2) by (simp add: grab_def hart_defs fun_upd_twist sie_clear)
  have "avail (grab L' s) L" using assms by simp
  then show ?thesis unfolding * by (rule ungrab_grab)
qed

text \<open>
  \<open>calm s p\<close>: process \<open>p\<close> runs on this processor outside any critical section, no
  spin lock is held, and no process is asleep on a channel of the block layer. It is the
  state in which a system call enters the file system.
\<close>

fun fs_chan :: "chan \<Rightarrow> bool" where
  "fs_chan (Ch_sleep _) = True"
| "fs_chan (Ch_buf _) = True"
| "fs_chan Ch_disk_free = True"
| "fs_chan Ch_log = True"
| "fs_chan _ = False"

definition calm :: "'z kbase_scheme \<Rightarrow> nat \<Rightarrow> bool" where
  "calm s p \<longleftrightarrow> quiet s \<and> n_off (current_cpu s) = 0 \<and> cur_proc s = Some p \<and> p < N_PROC \<and>
     p_state (procs s p) = PROC_RUNNING \<and> p_chan (procs s p) = None \<and>
     (\<forall>ch. fs_chan ch \<longrightarrow> no_sleeper s ch)"

lemma calmD:
  assumes "calm s p"
  shows "quiet s" "hart_ok s" "n_off (current_cpu s) = 0" "cur_proc s = Some p" "p < N_PROC"
    "p_state (procs s p) = PROC_RUNNING" "p_chan (procs s p) = None" "fs_chan ch \<Longrightarrow> no_sleeper s ch"
  using assms quiet_avail [THEN avail_hart_ok, of s] by (auto simp: calm_def)

lemma sleep_on_calm:
  assumes "calm s p" "L \<noteq> L_proc p"
  shows "sleep_on ch L (grab L s) = Switch ((grab (L_proc p) s)
    \<lparr>procs := (procs s)(p := (procs s p)\<lparr>p_chan := Some ch, p_state := PROC_SLEEPING\<rparr>)\<rparr>)"
proof -
  note c = calmD [OF assms(1)]
  have "sleep_on ch L (grab L s) = Switch ((ungrab L (grab (L_proc p) (grab L s)))
    \<lparr>procs := (procs s)(p := (procs s p)\<lparr>p_chan := Some ch, p_state := PROC_SLEEPING\<rparr>)\<rparr>)"
    using c assms(2) by (subst sleep_on_ok [where p = p]) auto
  then show ?thesis using ungrab_grab_other [of s L "L_proc p"] c(1) assms(2) by simp
qed

text \<open>The way back in: the scheduler runs the process and \<^verbatim>\<open>sleep_on\<close> returns.\<close>

lemma proc_upd_swap:
  "q\<lparr>p_state := a, p_chan := b\<rparr> = q\<lparr>p_chan := b, p_state := a\<rparr>"
  "p_state q = a \<Longrightarrow> p_chan q = b \<Longrightarrow> q\<lparr>p_chan := b, p_state := a\<rparr> = q"
  by (cases q; simp)+

lemma proc_upd_triv: "p_state q = a \<Longrightarrow> q\<lparr>p_chan := b, p_state := a\<rparr> = q\<lparr>p_chan := b\<rparr>"
  by (cases q) simp

lemma proc_chan_triv: "p_chan q = b \<Longrightarrow> q\<lparr>p_chan := b\<rparr> = q"
  by (cases q) simp

lemma procs_triv: "s\<lparr>procs := procs s\<rparr> = s"
  by (cases s) simp

lemma scheduler_visit_runnable:
  assumes "avail s (L_proc p)" "p_state (procs s p) = PROC_RUNNABLE"
  shows "scheduler_visit p s = Switch (setp (Some p) ((grab (L_proc p) s)
    \<lparr>procs := (procs s)(p := (procs s p)\<lparr>p_state := PROC_RUNNING\<rparr>)\<rparr>))"
  using assms by (simp add: scheduler_visit_def thenK_def bindK_def context_switch_def setp_def)

lemma intr_ena_frame [simp]:
  "intr_ena (current_cpu (procs_update f s)) = intr_ena (current_cpu s)"
  "intr_ena (current_cpu (sleeps_update g s)) = intr_ena (current_cpu s)"
  by (simp_all add: hart_defs)

lemma sched_resume_id: "intr_ena (current_cpu s) = ie \<Longrightarrow> sched_resume ie s = Ret () s"
  by (simp add: sched_resume_def hart_defs cpu_upd_triv)

lemma sleep_on_resume_id:
  assumes "intr_ena (current_cpu s) = ie"
  shows "sleep_on_resume p ie L s = seqK [
     upd_proc p (\<lambda>q. q\<lparr>p_chan := None\<rparr>),
     spin_lock_release (L_proc p),
     spin_lock_acquire L] s"
  by (simp add: sleep_on_resume_def thenK_def bindK_def sched_resume_id [OF assms])

section \<open>Properties\<close>


definition one_proc :: kbase where
  "one_proc = boot_state\<lparr>cpus := (cpus boot_state)(0 := (cpus boot_state 0)\<lparr>c_proc := Some 0\<rparr>),
     procs := (procs boot_state)(0 := (procs boot_state 0)\<lparr>p_state := PROC_RUNNING, p_pid := 1\<rparr>)\<rparr>"

lemma one_proc_quiet: "quiet one_proc" "cur_proc one_proc = Some 0"
  by (simp_all add: one_proc_def boot_state_def quiet_def lock_free_def cur_proc_def hart_defs)






end
