(* ===== verification/Interfaces.thy ===== *)
theory Interfaces
  imports Prelude
begin

text \<open>
  The contracts that several components of the kernel share, as locales, with what follows
  from each contract alone. Every one is interpreted on the kernel's own operations, in
  the theory of the component that provides them.
\<close>

section \<open>Pools of resources\<close>

text \<open>
  An allocator with a null result: pages (\<^verbatim>\<open>pm_alloc\<close>/\<^verbatim>\<open>pm_free\<close>), zeroed
  pages, disk descriptors. \<open>inv s F\<close> says that the free resources of \<open>s\<close> are
  exactly \<open>F\<close>; \<open>U\<close> is the set of resources that may be given back.
\<close>

locale resource_pool =
  fixes inv :: "'s \<Rightarrow> 'r set \<Rightarrow> bool"
    and U :: "'r set"
    and null :: 'r
    and take_res :: "('s, 'r) kernel"
    and give_res :: "'r \<Rightarrow> ('s, unit) kernel"
  assumes inv_fin: "inv s F \<Longrightarrow> finite F \<and> F \<subseteq> U"
    and null_U: "null \<notin> U"
    and take_empty: "inv s {} \<Longrightarrow> take_res s = Ret null s"
    and take_some: "inv s F \<Longrightarrow> F \<noteq> {} \<Longrightarrow>
      \<exists>r t. take_res s = Ret r t \<and> r \<in> F \<and> inv t (F - {r})"
    and give_back: "inv s F \<Longrightarrow> r \<in> U - F \<Longrightarrow> \<exists>t. give_res r s = Ret () t \<and> inv t (insert r F)"
begin

fun take_n :: "nat \<Rightarrow> ('s, 'r list) kernel" where
  "take_n 0 = retK []"
| "take_n (Suc n) = bindK take_res (\<lambda>r. bindK (take_n n) (\<lambda>rs. retK (r # rs)))"

lemma take_n_distinct:
  assumes "inv s F" "n \<le> card F"
  shows "\<exists>rs t. take_n n s = Ret rs t \<and> length rs = n \<and> distinct rs \<and> set rs \<subseteq> F \<and> inv t (F - set rs)"
  using assms
proof (induction n arbitrary: s F)
  case (Suc n)
  then have "F \<noteq> {}" "finite F" using inv_fin by auto
  with Suc.prems take_some obtain r t where r: "take_res s = Ret r t" "r \<in> F" "inv t (F - {r})"
    by blast
  then have "n \<le> card (F - {r})" using Suc.prems \<open>finite F\<close> by simp
  from Suc.IH [OF r(3) this] obtain rs u where
    "take_n n t = Ret rs u" "length rs = n" "distinct rs" "set rs \<subseteq> F - {r}" "inv u (F - {r} - set rs)"
    by blast
  moreover have "F - {r} - set rs = F - set (r # rs)" by auto
  ultimately show ?case
    using r(1,2) by (intro exI [of _ "r # rs"] exI [of _ u]) auto
qed simp

lemma give_all:
  assumes "inv s F" "distinct rs" "set rs \<subseteq> U - F"
  shows "\<exists>t. forK rs give_res s = Ret () t \<and> inv t (F \<union> set rs)"
  using assms
proof (induction rs arbitrary: s F)
  case (Cons r rs)
  then obtain t where t: "give_res r s = Ret () t" "inv t (insert r F)"
    using give_back [of s F r] by auto
  have "set rs \<subseteq> U - insert r F" using Cons.prems by auto
  from Cons.IH [OF t(2) _ this] Cons.prems(2) obtain u where
    "forK rs give_res t = Ret () u" "inv u (insert r F \<union> set rs)" by auto
  with t show ?case by (intro exI [of _ u]) simp
qed simp

text \<open>Allocating \<open>n\<close> resources and giving them back leaves the same free set.\<close>

lemma take_give_n:
  assumes "inv s F" "n \<le> card F"
  shows "\<exists>t. bindK (take_n n) (\<lambda>rs. forK rs give_res) s = Ret () t \<and> inv t F"
proof -
  from take_n_distinct [OF assms] obtain rs t where
    t: "take_n n s = Ret rs t" "distinct rs" "set rs \<subseteq> F" "inv t (F - set rs)" by blast
  have "set rs \<subseteq> U - (F - set rs)" using t(3) inv_fin [OF assms(1)] by auto
  from give_all [OF t(4,2) this] obtain u where
    "forK rs give_res t = Ret () u" "inv u (F - set rs \<union> set rs)" by blast
  moreover have "F - set rs \<union> set rs = F" using t(3) by auto
  ultimately show ?thesis using t(1) by simp
qed

lemma exhausted:
  assumes "inv s F"
  shows "\<exists>rs t. bindK (take_n (card F)) (\<lambda>rs. bindK take_res (\<lambda>r. retK (rs, r))) s = Ret (rs, null) t \<and>
    set rs = F"
proof -
  from take_n_distinct [OF assms le_refl] obtain rs t where
    t: "take_n (card F) s = Ret rs t" "length rs = card F" "distinct rs" "set rs \<subseteq> F" "inv t (F - set rs)"
    by blast
  have "set rs = F"
    using t(2-4) inv_fin [OF assms] by (metis card_subset_eq distinct_card)
  with t have "inv t {}" by simp
  then show ?thesis using t(1) \<open>set rs = F\<close> take_empty [of t] by auto
qed

end

section \<open>Cached blocks\<close>

text \<open>
  What the layers above a buffer cache rely on. \<open>inv s L D W R H\<close>: the cache shows the
  contents \<open>L\<close> over the disk contents \<open>D\<close>, which were those of \<open>W\<close> before, latest
  first; block \<open>n\<close> has \<open>R n\<close> references,
  and the caller has locked the blocks of \<open>H\<close> in the buffers it gives. A reference may be
  dropped for the last time only when the block is clean, and at most \<open>N\<close> blocks can be
  referenced at once.
\<close>

definition used :: "('n \<Rightarrow> nat) \<Rightarrow> 'n set" where
  "used R = {n. 0 < R n}"

lemma card_used_Suc: "card (used (R(m := k))) \<le> Suc (card (used R))"
proof (cases "finite (used R)")
  case True
  have "used (R(m := k)) \<subseteq> insert m (used R)" by (auto simp: used_def)
  then have "card (used (R(m := k))) \<le> card (insert m (used R))" using True by (intro card_mono) auto
  also have "\<dots> \<le> Suc (card (used R))" by (simp add: card_insert_if True)
  finally show ?thesis .
next
  case False
  have "used R \<subseteq> insert m (used (R(m := k)))" by (auto simp: used_def)
  then have "infinite (used (R(m := k)))" using False by (meson finite_insert finite_subset)
  then show ?thesis by simp
qed

locale block_io =
  fixes inv :: "'s \<Rightarrow> ('n \<Rightarrow> 'd) \<Rightarrow> ('n \<Rightarrow> 'd) \<Rightarrow> ('n \<Rightarrow> 'd) list \<Rightarrow> ('n \<Rightarrow> nat) \<Rightarrow> ('n \<rightharpoonup> nat) \<Rightarrow> bool"
    and ready :: "'s \<Rightarrow> bool"
    and step :: "'s \<Rightarrow> 's \<Rightarrow> bool"
    and data :: "'s \<Rightarrow> nat \<Rightarrow> 'd"
    and rd :: "'n \<Rightarrow> ('s, nat) kernel"
    and setd :: "nat \<Rightarrow> ('d \<Rightarrow> 'd) \<Rightarrow> ('s, unit) kernel"
    and wr :: "nat \<Rightarrow> ('s, unit) kernel"
    and rel :: "nat \<Rightarrow> ('s, unit) kernel"
    and ok :: "'n \<Rightarrow> bool"
    and N :: nat
  assumes step_refl: "step s s"
    and step_trans: "step s t \<Longrightarrow> step t u \<Longrightarrow> step s u"
    and step_ready: "step s t \<Longrightarrow> ready s \<Longrightarrow> ready t"
    and clean: "inv s L D W R H \<Longrightarrow> ok n \<Longrightarrow> R n = 0 \<Longrightarrow> L n = D n"
    and held: "inv s L D W R H \<Longrightarrow> H n = Some b \<Longrightarrow> data s b = L n \<and> 0 < R n"
    and rd_ok: "ready s \<Longrightarrow> inv s L D W R H \<Longrightarrow> ok n \<Longrightarrow> H n = None \<Longrightarrow> R n < 2 ^ 31 \<Longrightarrow> 0 < R n \<or> card (used R) < N \<Longrightarrow>
      \<exists>b t. rd n s = Ret b t \<and> step s t \<and> inv t L D W (R(n := R n + 1)) (H(n \<mapsto> b))"
    and setd_ok: "inv s L D W R H \<Longrightarrow> H n = Some b \<Longrightarrow>
      \<exists>t. setd b f s = Ret () t \<and> step s t \<and> inv t (L(n := f (L n))) D W R H"
    and wr_ok: "ready s \<Longrightarrow> inv s L D W R H \<Longrightarrow> H n = Some b \<Longrightarrow>
      \<exists>t. wr b s = Ret () t \<and> step s t \<and> inv t L (D(n := L n)) (D # W) R H"
    and rel_ok: "ready s \<Longrightarrow> inv s L D W R H \<Longrightarrow> H n = Some b \<Longrightarrow> (R n = 1 \<longrightarrow> L n = D n) \<Longrightarrow>
      \<exists>t. rel b s = Ret () t \<and> step s t \<and> inv t L D W (R(n := R n - 1)) (H(n := None))"
begin

text \<open>Read a block, use its contents, release it.\<close>

lemma read_session:
  assumes "ready s" "inv s L D W R H" "ok n" "H n = None" "R n < 2 ^ 31" "0 < R n \<or> card (used R) < N"
  shows "\<exists>t. (\<forall>(g :: 'd \<Rightarrow> ('s, 'a) kernel). bindK (rd n) (\<lambda>b. bindK (getK (\<lambda>s. data s b)) (\<lambda>d. thenK (rel b) (g d))) s = g (L n) t) \<and>
    step s t \<and> inv t L D W R H"
proof -
  obtain b s1 where 1: "rd n s = Ret b s1" "step s s1" "inv s1 L D W (R(n := R n + 1)) (H(n \<mapsto> b))"
    using rd_ok [OF assms] by blast
  have d: "data s1 b = L n" using held [OF 1(3)] by simp
  have r: "ready s1" by (rule step_ready [OF 1(2) assms(1)])
  have e: "(R(n := R n + 1))(n := (R(n := R n + 1)) n - 1) = R" "(H(n \<mapsto> b))(n := None) = H"
    using assms(4) by (auto simp: fun_eq_iff)
  obtain t where t: "rel b s1 = Ret () t" "step s1 t" "inv t L D W R H"
    using rel_ok [OF r 1(3), of n b] clean [OF assms(2,3)] unfolding e by auto
  show ?thesis using 1 d t step_trans by (intro exI [of _ t]) auto
qed

text \<open>Read a block, change it, write it through, release it.\<close>

lemma write_session:
  assumes "ready s" "inv s L D W R H" "ok n" "H n = None" "R n < 2 ^ 31" "0 < R n \<or> card (used R) < N"
  shows "\<exists>t. bindK (rd n) (\<lambda>b. thenK (setd b f) (thenK (wr b) (rel b))) s = Ret () t \<and>
    step s t \<and> inv t (L(n := f (L n))) (D(n := f (L n))) (D # W) R H"
proof -
  obtain b s1 where 1: "rd n s = Ret b s1" "step s s1" "inv s1 L D W (R(n := R n + 1)) (H(n \<mapsto> b))"
    using rd_ok [OF assms] by blast
  obtain s2 where 2: "setd b f s1 = Ret () s2" "step s1 s2" "inv s2 (L(n := f (L n))) D W (R(n := R n + 1)) (H(n \<mapsto> b))"
    using setd_ok [OF 1(3), of n b f] by auto
  have r2: "ready s2" using step_ready 1(2) 2(2) assms(1) by blast
  obtain s3 where 3: "wr b s2 = Ret () s3" "step s2 s3"
    "inv s3 (L(n := f (L n))) (D(n := f (L n))) (D # W) (R(n := R n + 1)) (H(n \<mapsto> b))"
    using wr_ok [OF r2 2(3), of n b] by auto
  have r3: "ready s3" by (rule step_ready [OF 3(2) r2])
  have e: "(R(n := R n + 1))(n := (R(n := R n + 1)) n - 1) = R" "(H(n \<mapsto> b))(n := None) = H"
    using assms(4) by (auto simp: fun_eq_iff)
  obtain t where t: "rel b s3 = Ret () t" "step s3 t" "inv t (L(n := f (L n))) (D(n := f (L n))) (D # W) R H"
    using rel_ok [OF r3 3(3), of n b] unfolding e by auto
  have "step s t" using 1(2) 2(2) 3(2) t(2) step_trans by blast
  then show ?thesis using 1(1) 2(1) 3(1) t by auto
qed

end


locale block_pins = block_io +
  fixes pin :: "nat \<Rightarrow> ('a, unit) kernel"
    and unpin :: "nat \<Rightarrow> ('a, unit) kernel"
  assumes pin_ok: "ready s \<Longrightarrow> inv s L D W R H \<Longrightarrow> H n = Some b \<Longrightarrow> R n < 2 ^ 31 \<Longrightarrow>
      \<exists>t. pin b s = Ret () t \<and> step s t \<and> inv t L D W (R(n := R n + 1)) H"
    and unpin_ok: "ready s \<Longrightarrow> inv s L D W R H \<Longrightarrow> H n = Some b \<Longrightarrow> 1 < R n \<Longrightarrow>
      \<exists>t. unpin b s = Ret () t \<and> step s t \<and> inv t L D W (R(n := R n - 1)) H"
begin

text \<open>
  Copy block \<open>m\<close> over block \<open>n\<close> and write it through, dropping a pin on \<open>n\<close> when
  \<open>u\<close> says so: the step the log takes for each block, in both directions.
\<close>

lemma copy_session:
  assumes "ready s" "inv s L D W R H" "ok m" "ok n" "m \<noteq> n" "H m = None" "H n = None"
    and "R m < 2 ^ 31" "R n < 2 ^ 31" "u \<longrightarrow> 0 < R n"
    and "0 < R m \<or> card (used R) < N" "0 < R n \<or> card (used (R(m := R m + 1))) < N"
  shows "\<exists>t. bindK (rd m) (\<lambda>a. bindK (rd n) (\<lambda>b. bindK (getK (\<lambda>s. data s a)) (\<lambda>d.
      thenK (setd b (\<lambda>_. d)) (thenK (wr b) (thenK (whenK u (unpin b)) (thenK (rel a) (rel b))))))) s = Ret () t \<and>
    step s t \<and> inv t (L(n := L m)) (D(n := L m)) (D # W) (if u then R(n := R n - 1) else R) H"
proof -
  obtain a s1 where 1: "rd m s = Ret a s1" "step s s1" "inv s1 L D W (R(m := R m + 1)) (H(m \<mapsto> a))"
    using rd_ok [OF assms(1,2,3,6,8,11)] by blast
  have r1: "ready s1" by (rule step_ready [OF 1(2) assms(1)])
  obtain b s2 where 2: "rd n s1 = Ret b s2" "step s1 s2"
    "inv s2 L D W (R(m := R m + 1, n := R n + 1)) (H(m \<mapsto> a, n \<mapsto> b))"
    using rd_ok [OF r1 1(3) assms(4)] assms(5,7,9,12) by auto
  define K where "K = H(m \<mapsto> a, n \<mapsto> b)"
  note 2 = 2 [folded K_def]
  have H: "K m = Some a" "K n = Some b" using assms(5) by (auto simp: K_def)
  have d: "data s2 a = L m" using held [OF 2(3) H(1)] by simp
  obtain s3 where 3: "setd b (\<lambda>_. L m) s2 = Ret () s3" "step s2 s3"
    "inv s3 (L(n := L m)) D W (R(m := R m + 1, n := R n + 1)) K"
    using setd_ok [OF 2(3) H(2), of "\<lambda>_. L m"] by auto
  have r3: "ready s3" using step_ready 2(2) 3(2) r1 by blast
  obtain s4 where 4: "wr b s3 = Ret () s4" "step s3 s4"
    "inv s4 (L(n := L m)) (D(n := L m)) (D # W) (R(m := R m + 1, n := R n + 1)) K"
    using wr_ok [OF r3 3(3) H(2)] by auto
  have r4: "ready s4" by (rule step_ready [OF 4(2) r3])
  define k where "k = (if u then R n else R n + 1)"
  have "\<exists>s5. whenK u (unpin b) s4 = Ret () s5 \<and> step s4 s5 \<and>
    inv s5 (L(n := L m)) (D(n := L m)) (D # W) (R(m := R m + 1, n := k)) K"
  proof (cases u)
    case True
    then show ?thesis using unpin_ok [OF r4 4(3) H(2)] assms(10) by (auto simp: k_def)
  qed (use 4(3) step_refl in \<open>auto simp: k_def\<close>)
  then obtain s5 where 5: "whenK u (unpin b) s4 = Ret () s5" "step s4 s5"
    "inv s5 (L(n := L m)) (D(n := L m)) (D # W) (R(m := R m + 1, n := k)) K" by blast
  have r5: "ready s5" by (rule step_ready [OF 5(2) r4])
  have c: "R m = 0 \<longrightarrow> L m = D m" using clean [OF assms(2,3)] by blast
  have e1: "(R(m := R m + 1, n := k))(m := (R(m := R m + 1, n := k)) m - 1) = R(n := k)" "K(m := None) = H(n \<mapsto> b)"
    using assms(5,6) by (auto simp: fun_eq_iff K_def)
  obtain s6 where 6: "rel a s5 = Ret () s6" "step s5 s6" "inv s6 (L(n := L m)) (D(n := L m)) (D # W) (R(n := k)) (H(n \<mapsto> b))"
    using rel_ok [OF r5 5(3) H(1)] c assms(5) unfolding e1 by auto
  have r6: "ready s6" by (rule step_ready [OF 6(2) r5])
  have e2: "(R(n := k))(n := (R(n := k)) n - 1) = (if u then R(n := R n - 1) else R)" "(H(n \<mapsto> b))(n := None) = H"
    using assms(7) by (auto simp: k_def fun_eq_iff)
  obtain t where 7: "rel b s6 = Ret () t" "step s6 t"
    "inv t (L(n := L m)) (D(n := L m)) (D # W) (if u then R(n := R n - 1) else R) H"
    using rel_ok [OF r6 6(3), of n b] unfolding e2 by auto
  have "step s t" using 1(2) 2(2) 3(2) 4(2) 5(2) 6(2) 7(2) by (meson step_trans)
  then show ?thesis using 1(1) 2(1) d 3(1) 4(1) 5(1) 6(1) 7 by auto
qed

text \<open>A loop of such copies, from the blocks \<open>src\<close> to the blocks \<open>dst\<close>.\<close>

lemma copy_loop:
  fixes n :: nat
  assumes "ready s" "inv s L D W R H"
    and blk: "\<And>i. i < n \<Longrightarrow> ok (src i) \<and> ok (dst i) \<and> H (src i) = None \<and> H (dst i) = None \<and>
      R (src i) < 2 ^ 31 \<and> R (dst i) < 2 ^ 31 \<and> (0 < R (src i) \<or> card (used R) < N) \<and>
      (0 < R (dst i) \<or> \<not> u \<and> card (used (R(src i := R (src i) + 1))) < N)"
    and dis: "\<And>i j. i < n \<Longrightarrow> j < n \<Longrightarrow> src i \<noteq> dst j"
    and inj: "u \<Longrightarrow> inj_on dst {..<n}" and fin: "finite (used R)"
    and body: "\<And>i t. i < n \<Longrightarrow> step s t \<Longrightarrow> body i t = bindK (rd (src i)) (\<lambda>a. bindK (rd (dst i)) (\<lambda>b.
      bindK (getK (\<lambda>s. data s a)) (\<lambda>d. thenK (setd b (\<lambda>_. d)) (thenK (wr b) (thenK (whenK u (unpin b))
      (thenK (rel a) (rel b))))))) t"
    and le: "i \<le> n"
  shows "\<exists>t. forK [0..<i] body s = Ret () t \<and> step s t \<and>
    inv t (puts L dst (\<lambda>j. L (src j)) i) (puts D dst (\<lambda>j. L (src j)) i)
      (map (puts D dst (\<lambda>j. L (src j))) (rev [0..<i]) @ W)
      (if u then puts R dst (\<lambda>j. R (dst j) - 1) i else R) H"
  using le
proof (induction i)
  case (Suc i)
  let ?v = "\<lambda>j. L (src j)" and ?R = "\<lambda>i. if u then puts R dst (\<lambda>j. R (dst j) - 1) i else R"
  obtain t where t: "forK [0..<i] body s = Ret () t" "step s t"
    "inv t (puts L dst ?v i) (puts D dst ?v i) (map (puts D dst ?v) (rev [0..<i]) @ W) (?R i) H"
    using Suc by auto
  have i: "i < n" using Suc.prems by simp
  note bi = blk [OF i]
  have ns: "dst j \<noteq> src i" if "j < i" for j using dis [OF i, of j] that i by auto
  have nd: "dst j \<noteq> dst i" if "u" "j < i" for j using inj that i by (auto simp: inj_on_def)
  have Rs: "?R i (src i) = R (src i)" by (simp add: puts_other ns)
  have Rd: "?R i (dst i) = R (dst i)" by (simp add: puts_other nd)
  have sub: "used (?R i) \<subseteq> used R"
  proof
    fix k assume "k \<in> used (?R i)"
    then have "0 < ?R i k" by (simp add: used_def)
    then show "k \<in> used R"
      using puts_cases [of R dst "\<lambda>j. R (dst j) - 1" i k] by (auto simp: used_def split: if_splits)
  qed
  have c: "card (used (?R i)) \<le> card (used R)" by (rule card_mono [OF fin sub])
  have d2: "0 < ?R i (dst i) \<or> card (used ((?R i)(src i := ?R i (src i) + 1))) < N"
    using bi Rd Rs by auto
  have Ls: "puts L dst ?v i (src i) = L (src i)" by (rule puts_other) (rule ns)
  have "ready t" by (rule step_ready [OF t(2) assms(1)])
  from copy_session [OF this t(3), of "src i" "dst i" u] obtain r where
    r: "body i t = Ret () r" "step t r"
      "inv r ((puts L dst ?v i)(dst i := L (src i))) ((puts D dst ?v i)(dst i := L (src i)))
        (puts D dst ?v i # map (puts D dst ?v) (rev [0..<i]) @ W)
        (if u then (?R i)(dst i := ?R i (dst i) - 1) else ?R i) H"
    unfolding body [OF i t(2)] Ls Rs Rd using bi dis [OF i i] c d2 Rd Rs by auto
  have e: "(if u then (?R i)(dst i := ?R i (dst i) - 1) else ?R i) = ?R (Suc i)"
    unfolding Rd by simp
  have "forK [0..<Suc i] body s = Ret () r" using t(1) r(1) by (simp add: forK_append)
  moreover have "map (puts D dst ?v) (rev [0..<Suc i]) = puts D dst ?v i # map (puts D dst ?v) (rev [0..<i])" by simp
  ultimately show ?case
    using r step_trans [OF t(2) r(2)] unfolding e puts.simps(2) by (intro exI [of _ r]) (simp del: fun_upd_apply)
qed (use assms(2) step_refl in auto)

end


end
