(* ===== verification/Pmem.thy ===== *)
theory Pmem
  imports Strings Sched Interfaces
begin

text \<open>
  The physical page allocator of \<^verbatim>\<open>kernel/mm/mm.c\<close>: a singly linked list of free
  pages threaded through the first word of each page.

  \<open>mem\<close> is the whole of physical memory, a byte per address; the kernel maps it one to
  one. The linker symbols \<^verbatim>\<open>_kernel_end\<close>, \<^verbatim>\<open>_text_start\<close>,
  \<^verbatim>\<open>_text_end\<close> and \<^verbatim>\<open>trampoline\<close> are constants of the state.
  The lemmas see a page as an array of 512 words (\<open>ent\<close>, \<open>set_ent\<close>), with the laws
  of an array store; the free list and the page tables are both built on those laws. A loop
  \<^verbatim>\<open>for (a = first; a < last; a += PAGE_SIZE)\<close> runs over \<open>page_range first last\<close>;
  \<open>page_range_unfold\<close> is its one-step unfolding.
\<close>

section \<open>Definitions\<close>

record kmem = kbase +
  mem :: memory
  free_head :: u64
  kernel_page_table :: u64
  kernel_end :: u64
  text_start :: u64
  text_end :: u64
  trampoline :: u64
  satp :: "nat \<Rightarrow> u64"

definition upd_mem :: "(memory \<Rightarrow> memory) \<Rightarrow> ('z kmem_scheme, unit) kernel" where
  "upd_mem f = modK (\<lambda>s. s\<lparr>mem := f (mem s)\<rparr>)"

definition page_range :: "u64 \<Rightarrow> u64 \<Rightarrow> u64 list" where
  "page_range a b = map (\<lambda>i. a + of_nat i * PAGE_SIZE) [0..<(unat b - unat a + 4095) div 4096]"

text \<open>The body of the loop of \<^verbatim>\<open>pm_init\<close>: push a page on the free list.\<close>

definition pm_init_page :: "u64 \<Rightarrow> ('z kmem_scheme, unit) kernel" where
  "pm_init_page ptr = seqK [
     modK (\<lambda>s. s\<lparr>mem := store64 ptr (free_head s) (mem s)\<rparr>),
     modK (\<lambda>s. s\<lparr>free_head := ptr\<rparr>)]"

definition pm_init :: "('z kmem_scheme, unit) kernel" where
  "pm_init = seqK [
     modK (\<lambda>s. s\<lparr>free_head := 0\<rparr>),
     spin_lock_init L_free_list ''free_list'',
     bindK (getK kernel_end) (\<lambda>first. forK (page_range first MAX_PADDR) pm_init_page)]"

definition pm_alloc :: "('z kmem_scheme, u64) kernel" where
  "pm_alloc =
     thenK (spin_lock_acquire L_free_list) (
     bindK (getK free_head) (\<lambda>ptr. thenK (seqK [
       whenK (ptr \<noteq> 0) (modK (\<lambda>s. s\<lparr>free_head := load64 (mem s) (free_head s)\<rparr>)),
       spin_lock_release L_free_list])
     (retK ptr)))"

definition pm_zalloc :: "('z kmem_scheme, u64) kernel" where
  "pm_zalloc =
     bindK pm_alloc (\<lambda>ptr.
     thenK (whenK (ptr \<noteq> 0) (upd_mem (memset ptr 0 4096))) (retK ptr))"

definition pm_free :: "u64 \<Rightarrow> ('z kmem_scheme, unit) kernel" where
  "pm_free ptr = seqK [
     spin_lock_acquire L_free_list,
     modK (\<lambda>s. s\<lparr>mem := store64 ptr (free_head s) (mem s)\<rparr>),
     modK (\<lambda>s. s\<lparr>free_head := ptr\<rparr>),
     spin_lock_release L_free_list]"

section \<open>Frame\<close>

lemma mem_frame [simp, quiet_simps]:
  "hart_ok (mem_update f s) = hart_ok s"
  "avail (mem_update f s) L = avail s L"
  "holds (mem_update f s) L = holds s L"
  "quiet (mem_update f s) = quiet s"
  "cur_proc (mem_update f s) = cur_proc s"
  "ungrab L (mem_update f s) = mem_update f (ungrab L s)"
  by (simp_all add: avail_def holds_def quiet_def cur_proc_def lock_free_def
      spin_lock_holding_def ungrab_def hart_defs Let_def)

lemma free_head_frame [simp, quiet_simps]:
  "hart_ok (free_head_update f s) = hart_ok s"
  "avail (free_head_update f s) L = avail s L"
  "holds (free_head_update f s) L = holds s L"
  "quiet (free_head_update f s) = quiet s"
  "cur_proc (free_head_update f s) = cur_proc s"
  "ungrab L (free_head_update f s) = free_head_update f (ungrab L s)"
  by (simp_all add: avail_def holds_def quiet_def cur_proc_def lock_free_def
      spin_lock_holding_def ungrab_def hart_defs Let_def)

lemma kmem_procs_avail [simp, quiet_simps]:
  "procs_avail (mem_update f s) = procs_avail s"
  "procs_avail (free_head_update g s) = procs_avail s"
  by (simp_all add: procs_avail_def)

lemma kmem_grab [simp]:
  "mem (grab L s) = mem s" "free_head (grab L s) = free_head s"
  "mem (ungrab L s) = mem s" "free_head (ungrab L s) = free_head s"
  by (simp_all add: grab_def ungrab_def hart_defs Let_def)

lemma upd_mem_apply [simp]: "upd_mem f s = Ret () (s\<lparr>mem := f (mem s)\<rparr>)"
  by (simp add: upd_mem_def)

section \<open>Pages as arrays of words\<close>

definition ent :: "memory \<Rightarrow> u64 \<Rightarrow> nat \<Rightarrow> u64" where
  "ent m p i = load64 m (p + of_nat i * 8)"

definition set_ent :: "u64 \<Rightarrow> nat \<Rightarrow> u64 \<Rightarrow> memory \<Rightarrow> memory" where
  "set_ent p i v m = store64 (p + of_nat i * 8) v m"

lemma page_aligned_room: "page_aligned p \<Longrightarrow> i < 4096 \<Longrightarrow> unat p + i < 2 ^ 64"
proof -
  assume "page_aligned p" "i < 4096"
  then obtain k where "unat p = 4096 * k" by (auto simp: page_aligned_iff)
  then show ?thesis using u64_bound [of p] \<open>i < 4096\<close> by simp
qed

lemma page_offset: "page_aligned p \<Longrightarrow> i < 4096 \<Longrightarrow> unat (p + of_nat i) = unat p + i"
  by (rule unat_add_of_nat) (rule page_aligned_room)

lemma page_offset_eq:
  assumes "page_aligned p" "page_aligned q" "i < 4096" "j < 4096"
  shows "p + of_nat i = q + of_nat j \<longleftrightarrow> p = q \<and> i = j"
proof
  assume "p + of_nat i = q + of_nat j"
  then have e: "unat p + i = unat q + j"
    using page_offset [OF assms(1,3)] page_offset [OF assms(2,4)] by simp
  from assms(1,2) obtain k l where kl: "unat p = 4096 * k" "unat q = 4096 * l"
    unfolding page_aligned_iff by (metis dvd_def mod_eq_0_iff_dvd)
  have "k = (unat p + i) div 4096" "l = (unat q + j) div 4096"
    using kl assms(3,4) by simp_all
  with e have "k = l" by simp
  with kl e show "p = q \<and> i = j" by (simp add: word_unat_eq_iff)
qed simp

lemma span_page_mem: "x \<in> span (p + of_nat a) n \<longleftrightarrow> (\<exists>i<n. x = p + of_nat (a + i))"
  by (auto simp: span_def algebra_simps)

lemma pages_disjoint:
  assumes "page_aligned p" "page_aligned q" "p \<noteq> q"
  shows "span p 4096 \<inter> span q 4096 = {}"
  using page_offset_eq [OF assms(1,2)] assms(3) by (auto simp: span_def)

lemma word_span: "i < 512 \<Longrightarrow> x \<in> span (p + of_nat i * 8) 8 \<Longrightarrow> \<exists>k<8. x = p + of_nat (8 * i + k)"
  by (auto simp: span_def algebra_simps)

lemma word_span_page: "i < 512 \<Longrightarrow> span (p + of_nat i * 8) 8 \<subseteq> span p 4096"
proof
  fix x assume "i < 512" "x \<in> span (p + of_nat i * 8) 8"
  from word_span [OF this] obtain k where "k < 8" "x = p + of_nat (8 * i + k)" by blast
  moreover have "8 * i + k < 4096" using \<open>i < 512\<close> \<open>k < 8\<close> by simp
  ultimately show "x \<in> span p 4096" by blast
qed

lemma word_spans_disjoint:
  assumes "page_aligned p" "page_aligned q" "i < 512" "j < 512" "\<not> (p = q \<and> i = j)"
  shows "span (p + of_nat i * 8) 8 \<inter> span (q + of_nat j * 8) 8 = {}"
proof (rule ccontr)
  assume "span (p + of_nat i * 8) 8 \<inter> span (q + of_nat j * 8) 8 \<noteq> {}"
  then obtain x where "x \<in> span (p + of_nat i * 8) 8" "x \<in> span (q + of_nat j * 8) 8" by blast
  then obtain k l where kl: "k < 8" "l < 8" "p + of_nat (8 * i + k) = q + of_nat (8 * j + l)"
    using word_span assms(3,4) by metis
  moreover have "8 * i + k < 4096" "8 * j + l < 4096" using kl assms by auto
  ultimately have "p = q" "8 * i + k = 8 * j + l"
    using page_offset_eq [OF assms(1,2)] by blast+
  then have "p = q \<and> i = j" using kl(1,2) by presburger
  with assms(5) show False by blast
qed

text \<open>The laws of the array store.\<close>

lemma ent_set_ent:
  assumes "page_aligned p" "page_aligned q" "i < 512" "j < 512"
  shows "ent (set_ent p i v m) q j = (if p = q \<and> i = j then v else ent m q j)"
  using word_spans_disjoint [OF assms]
  by (auto simp: ent_def set_ent_def intro: load64_other)

lemma ent_cong: "i < 512 \<Longrightarrow> (\<And>x. x \<in> span p 4096 \<Longrightarrow> m x = m' x) \<Longrightarrow> ent m p i = ent m' p i"
  unfolding ent_def using word_span_page by (blast intro: load64_cong)

lemma set_ent_out: "i < 512 \<Longrightarrow> x \<notin> span p 4096 \<Longrightarrow> set_ent p i v m x = m x"
  unfolding set_ent_def using word_span_page by (blast intro: store64_out)

lemma ent_memset:
  assumes "page_aligned p" "page_aligned q" "j < 512"
  shows "ent (memset p 0 4096 m) q j = (if p = q then 0 else ent m q j)"
proof (cases "p = q")
  case True
  then have "memset p 0 4096 m x = 0" if "x \<in> span (q + of_nat j * 8) 8" for x
    using that word_span_page [OF assms(3)] by (auto simp: memset_apply)
  then show ?thesis using True by (simp add: ent_def load64_zero)
next
  case False
  then have "memset p 0 4096 m x = m x" if "x \<in> span q 4096" for x
    using that pages_disjoint [OF assms(1,2)] by (auto simp: memset_apply)
  then show ?thesis using False assms(3) by (auto intro: ent_cong)
qed

lemma load64_ent: "load64 m p = ent m p 0" and store64_ent: "store64 p v m = set_ent p 0 v m"
  by (simp_all add: ent_def set_ent_def)

section \<open>The free list\<close>

fun fl_at :: "memory \<Rightarrow> u64 \<Rightarrow> u64 list \<Rightarrow> bool" where
  "fl_at m h [] \<longleftrightarrow> h = 0"
| "fl_at m h (p # ps) \<longleftrightarrow> h = p \<and> p \<noteq> 0 \<and> fl_at m (ent m p 0) ps"

definition pool :: "'z kmem_scheme \<Rightarrow> u64 list \<Rightarrow> bool" where
  "pool s ps \<longleftrightarrow> fl_at (mem s) (free_head s) ps \<and> distinct ps \<and> (\<forall>p\<in>set ps. page_aligned p)"

lemma fl_at_cong:
  "(\<And>p. p \<in> set ps \<Longrightarrow> ent m p 0 = ent m' p 0) \<Longrightarrow> fl_at m h ps = fl_at m' h ps"
  by (induction ps arbitrary: h) auto

lemma fl_at_set_ent:
  assumes "page_aligned q" "q \<notin> set ps" "\<forall>p\<in>set ps. page_aligned p" "i < 512"
  shows "fl_at (set_ent q i v m) h ps = fl_at m h ps"
  by (rule fl_at_cong) (use assms in \<open>auto simp: ent_set_ent\<close>)

lemma pool_frame:
  assumes "pool s ps" "free_head t = free_head s"
    "\<And>p. p \<in> set ps \<Longrightarrow> ent (mem t) p 0 = ent (mem s) p 0"
  shows "pool t ps"
  using assms fl_at_cong [of ps "mem t" "mem s"] by (simp add: pool_def)

lemma pool_upd_other [simp]:
  "pool (procs_update f s) ps = pool s ps" "pool (sleeps_update g s) ps = pool s ps"
  by (simp_all add: pool_def)

lemma pool_grab [simp]: "pool (grab L s) ps = pool s ps" "pool (ungrab L s) ps = pool s ps"
  by (simp_all add: pool_def)

lemma pm_alloc_eq:
  assumes "avail s L_free_list"
  shows "pm_alloc s = (if free_head s = 0 then Ret 0 s
    else Ret (free_head s) (s\<lparr>free_head := ent (mem s) (free_head s) 0\<rparr>))"
  using assms by (simp add: pm_alloc_def thenK_def load64_ent)

lemma pm_alloc_empty: "avail s L_free_list \<Longrightarrow> pool s [] \<Longrightarrow> pm_alloc s = Ret 0 s"
  by (simp add: pm_alloc_eq pool_def)

lemma pm_alloc_cons:
  assumes "avail s L_free_list" "pool s (p # ps)"
  shows "pm_alloc s = Ret p (s\<lparr>free_head := ent (mem s) p 0\<rparr>)"
    and "pool (s\<lparr>free_head := ent (mem s) p 0\<rparr>) ps"
  using assms by (auto simp: pm_alloc_eq pool_def)

lemma pm_zalloc_empty: "avail s L_free_list \<Longrightarrow> pool s [] \<Longrightarrow> pm_zalloc s = Ret 0 s"
  by (simp add: pm_zalloc_def pm_alloc_empty)

lemma pm_zalloc_cons:
  assumes "avail s L_free_list" "pool s (p # ps)"
  shows "pm_zalloc s = Ret p (s\<lparr>free_head := ent (mem s) p 0, mem := memset p 0 4096 (mem s)\<rparr>)"
    and "pool (s\<lparr>free_head := ent (mem s) p 0, mem := memset p 0 4096 (mem s)\<rparr>) ps"
proof -
  have p: "p \<noteq> 0" using assms(2) by (simp add: pool_def)
  then show "pm_zalloc s = Ret p (s\<lparr>free_head := ent (mem s) p 0, mem := memset p 0 4096 (mem s)\<rparr>)"
    by (simp add: pm_zalloc_def pm_alloc_cons(1) [OF assms])
  show "pool (s\<lparr>free_head := ent (mem s) p 0, mem := memset p 0 4096 (mem s)\<rparr>) ps"
    by (rule pool_frame [OF pm_alloc_cons(2) [OF assms]])
       (use assms(2) in \<open>auto simp: pool_def ent_memset\<close>)
qed

lemma pm_free_eq:
  assumes "avail s L_free_list"
  shows "pm_free p s = Ret () (s\<lparr>mem := set_ent p 0 (free_head s) (mem s), free_head := p\<rparr>)"
  using assms by (simp add: pm_free_def thenK_def store64_ent)

lemma pm_free_pool:
  assumes "pool s ps" "page_aligned p" "p \<noteq> 0" "p \<notin> set ps"
  shows "pool (s\<lparr>mem := set_ent p 0 (free_head s) (mem s), free_head := p\<rparr>) (p # ps)"
  using assms by (simp add: pool_def ent_set_ent fl_at_set_ent)

subsection \<open>The page allocator as a resource pool\<close>

definition pm_inv :: "'z kmem_scheme \<Rightarrow> u64 set \<Rightarrow> bool" where
  "pm_inv s F \<longleftrightarrow> avail s L_free_list \<and> (\<exists>ps. pool s ps \<and> set ps = F)"

definition pages :: "u64 set" where
  "pages = {p. page_aligned p \<and> p \<noteq> 0}"

lemma null_page [simp]: "0 \<notin> pages"
  by (simp add: pages_def)

lemma pool_pages: "pool s ps \<Longrightarrow> set ps \<subseteq> pages"
proof -
  have "fl_at m h ps \<Longrightarrow> 0 \<notin> set ps" for m h
    by (induction ps arbitrary: h) auto
  then show "pool s ps \<Longrightarrow> set ps \<subseteq> pages" by (auto simp: pool_def pages_def)
qed

lemma pm_inv_fin: "pm_inv s F \<Longrightarrow> finite F \<and> F \<subseteq> pages"
  using pool_pages by (auto simp: pm_inv_def)

lemma pm_inv_empty: "pm_inv s {} \<Longrightarrow> pm_alloc s = Ret 0 s \<and> pm_zalloc s = Ret 0 s"
  by (auto simp: pm_inv_def pm_alloc_empty pm_zalloc_empty)

lemma pm_inv_some:
  assumes "pm_inv s F" "F \<noteq> {}"
  shows "\<exists>r t. pm_alloc s = Ret r t \<and> r \<in> F \<and> pm_inv t (F - {r})"
    and "\<exists>r t. pm_zalloc s = Ret r t \<and> r \<in> F \<and> pm_inv t (F - {r})"
proof -
  from assms obtain p ps where p: "avail s L_free_list" "pool s (p # ps)" "F = set (p # ps)"
    unfolding pm_inv_def by (metis list.exhaust list.set(1))
  then have d: "set ps = F - {p}" by (auto simp: pool_def)
  show "\<exists>r t. pm_alloc s = Ret r t \<and> r \<in> F \<and> pm_inv t (F - {r})"
    using pm_alloc_cons [OF p(1,2)] p d by (auto simp: pm_inv_def)
  show "\<exists>r t. pm_zalloc s = Ret r t \<and> r \<in> F \<and> pm_inv t (F - {r})"
    using pm_zalloc_cons [OF p(1,2)] p d by (auto simp: pm_inv_def)
qed

lemma pm_inv_give:
  assumes "pm_inv s F" "r \<in> pages - F"
  shows "\<exists>t. pm_free r s = Ret () t \<and> pm_inv t (insert r F)"
proof -
  from assms obtain ps where p: "avail s L_free_list" "pool s ps" "F = set ps"
    by (auto simp: pm_inv_def)
  have "pool (s\<lparr>mem := set_ent r 0 (free_head s) (mem s), free_head := r\<rparr>) (r # ps)"
    using assms(2) p by (intro pm_free_pool) (auto simp: pages_def)
  then show ?thesis
    using p pm_free_eq [OF p(1), of r] unfolding pm_inv_def by fastforce
qed

interpretation pm: resource_pool pm_inv pages 0 pm_alloc pm_free
  by unfold_locales (simp_all add: pm_inv_fin pm_inv_empty pm_inv_some(1) pm_inv_give)

interpretation pmz: resource_pool pm_inv pages 0 pm_zalloc pm_free
  by unfold_locales (simp_all add: pm_inv_fin pm_inv_empty pm_inv_some(2) pm_inv_give)

section \<open>Initialisation\<close>

lemma page_range_unfold:
  assumes "a < b" "unat b \<le> 2 ^ 64 - 4096"
  shows "page_range a b = a # page_range (a + PAGE_SIZE) b"
proof -
  have lt: "unat a < unat b" using assms(1) by (simp add: word_less_nat_alt)
  have u: "unat (a + PAGE_SIZE) = unat a + 4096"
    using lt assms(2) by (simp add: PAGE_SIZE_def unat_word_ariths)
  let ?n = "(unat b - unat a + 4095) div 4096"
  let ?m = "(unat b - (unat a + 4096) + 4095) div 4096"
  have n: "?n = Suc ?m"
  proof (cases "unat b \<le> unat a + 4096")
    case True
    then have "?n = 1" using lt by (intro div_nat_eqI) auto
    then show ?thesis using True by simp
  next
    case False
    then obtain e where "unat b = unat a + 4096 + e" by (metis le_add_diff_inverse nat_le_linear)
    then have "unat b - unat a + 4095 = (e + 4095) + 4096" "unat b - (unat a + 4096) = e" by simp_all
    then show ?thesis by simp
  qed
  have "[0..<?n] = 0 # map Suc [0..<?m]"
    unfolding n map_Suc_upt by (simp add: upt_conv_Cons)
  moreover have "a + of_nat (Suc i) * PAGE_SIZE = a + PAGE_SIZE + of_nat i * PAGE_SIZE" for i
    by (simp add: distrib_right)
  ultimately show ?thesis
    unfolding page_range_def u by (simp add: comp_def del: of_nat_Suc)
qed

lemma page_range_empty: "b \<le> a \<Longrightarrow> page_range a b = []"
  by (simp add: page_range_def word_le_nat_alt)

lemma page_range_aligned:
  assumes "page_aligned a" "page_aligned b"
  shows "set (page_range a b) = {p. page_aligned p \<and> a \<le> p \<and> p < b}" and "distinct (page_range a b)"
proof -
  obtain k l where kl: "unat a = 4096 * k" "unat b = 4096 * l"
    using assms unfolding page_aligned_iff by (metis dvd_def mod_eq_0_iff_dvd)
  have n: "(unat b - unat a + 4095) div 4096 = l - k" by (simp add: kl flip: diff_mult_distrib2)
  have u: "unat (a + of_nat i * PAGE_SIZE) = 4096 * (k + i)" if "i < l - k" for i
  proof -
    have "4096 * (k + i) < 4096 * l" using that by simp
    then have "4096 * (k + i) < 2 ^ 64" using kl u64_bound [of b] by simp
    then have "unat (a + of_nat (i * 4096)) = unat a + i * 4096"
      by (intro unat_add_of_nat) (simp add: kl algebra_simps)
    then show ?thesis by (simp add: PAGE_SIZE_def kl algebra_simps)
  qed
  have "p \<in> set (page_range a b)" if p: "page_aligned p" "a \<le> p" "p < b" for p
  proof -
    obtain j where j: "unat p = 4096 * j"
      using p(1) unfolding page_aligned_iff by (metis dvd_def mod_eq_0_iff_dvd)
    then have "j - k < l - k" "k \<le> j" using p kl by (auto simp: word_le_nat_alt word_less_nat_alt)
    then have "p = a + of_nat (j - k) * PAGE_SIZE"
      using u [of "j - k"] j by (simp add: word_unat_eq_iff)
    then show ?thesis using \<open>j - k < l - k\<close> by (auto simp: page_range_def n)
  qed
  moreover have "page_aligned p \<and> a \<le> p \<and> p < b" if "p \<in> set (page_range a b)" for p
  proof -
    from that obtain i where "i < l - k" "p = a + of_nat i * PAGE_SIZE" by (auto simp: page_range_def n)
    with u [of i] kl show ?thesis
      by (auto simp: page_aligned_iff word_le_nat_alt word_less_nat_alt)
  qed
  ultimately show "set (page_range a b) = {p. page_aligned p \<and> a \<le> p \<and> p < b}" by blast
  have "inj_on (\<lambda>i. a + of_nat i * PAGE_SIZE) {0..<l - k}"
    by (rule inj_onI) (use u in \<open>metis add_left_cancel atLeastLessThan_iff mult_cancel1 zero_neq_numeral\<close>)
  then show "distinct (page_range a b)"
    by (simp add: page_range_def n distinct_map)
qed

lemma pm_init_page_apply:
  "pm_init_page p s = Ret () (s\<lparr>mem := set_ent p 0 (free_head s) (mem s), free_head := p\<rparr>)"
  by (simp add: pm_init_page_def store64_ent)

lemma init_loop:
  assumes "pool s ps" "distinct xs" "set xs \<subseteq> pages" "set xs \<inter> set ps = {}"
  shows "\<exists>m h. forK xs pm_init_page s = Ret () (s\<lparr>mem := m, free_head := h\<rparr>) \<and>
    pool (s\<lparr>mem := m, free_head := h\<rparr>) (rev xs @ ps)"
  using assms
proof (induction xs arbitrary: s ps)
  case Nil
  then show ?case by (intro exI [of _ "mem s"] exI [of _ "free_head s"]) simp
next
  case (Cons x xs)
  let ?t = "s\<lparr>mem := set_ent x 0 (free_head s) (mem s), free_head := x\<rparr>"
  have "pool ?t (x # ps)" using Cons.prems by (intro pm_free_pool) (auto simp: pages_def)
  moreover have "distinct xs" "set xs \<subseteq> pages" "set xs \<inter> set (x # ps) = {}"
    using Cons.prems by auto
  ultimately obtain m h where "forK xs pm_init_page ?t = Ret () (?t\<lparr>mem := m, free_head := h\<rparr>)"
      "pool (?t\<lparr>mem := m, free_head := h\<rparr>) (rev xs @ x # ps)"
    using Cons.IH by blast
  moreover have "forK (x # xs) pm_init_page s = forK xs pm_init_page ?t"
    by (simp only: forK.simps thenK_Ret [OF pm_init_page_apply])
  ultimately show ?case by auto
qed

section \<open>Properties\<close>

text \<open>
  C31. After \<^verbatim>\<open>pm_init\<close> the free list holds exactly the pages between the end of the
  kernel image and the end of memory, each once, and its lock is free.
\<close>

theorem pm_init_pool:
  assumes "hart_ok s" and "page_aligned (kernel_end s)" and "kernel_end s \<noteq> 0"
  shows "\<exists>t. pm_init s = Ret () t \<and>
    pm_inv t {p. page_aligned p \<and> kernel_end s \<le> p \<and> p < MAX_PADDR}"
proof -
  let ?xs = "page_range (kernel_end s) MAX_PADDR"
  let ?s = "s\<lparr>free_head := 0, spins := (spins s)(L_free_list :=
      \<lparr>sl_locked = False, sl_cpuid = -1, sl_name = ''free_list''\<rparr>)\<rparr>"
  have al: "page_aligned MAX_PADDR" by (simp add: page_aligned_iff MAX_PADDR_def)
  note xs = page_range_aligned [OF assms(2) al]
  have pl: "pool ?s []" by (simp add: pool_def)
  have "p \<noteq> 0" if "kernel_end s \<le> p" for p using that assms(3) by (metis word_le_0_iff)
  then have sub: "set ?xs \<subseteq> pages" unfolding xs(1) pages_def by blast
  obtain m h where mh: "forK ?xs pm_init_page ?s = Ret () (?s\<lparr>mem := m, free_head := h\<rparr>)"
      "pool (?s\<lparr>mem := m, free_head := h\<rparr>) (rev ?xs @ [])"
    using init_loop [OF pl xs(2) sub] by auto
  have "pm_init s = forK ?xs pm_init_page ?s"
    by (simp add: pm_init_def spin_lock_init_def thenK_def)
  then have run: "pm_init s = Ret () (?s\<lparr>mem := m, free_head := h\<rparr>)" unfolding mh(1) .
  have "avail (?s\<lparr>mem := m, free_head := h\<rparr>) L_free_list"
    using assms(1) by (simp add: avail_def lock_free_def hart_defs)
  moreover have "set (rev ?xs @ []) = {p. page_aligned p \<and> kernel_end s \<le> p \<and> p < MAX_PADDR}"
    using xs(1) by simp
  ultimately have "pm_inv (?s\<lparr>mem := m, free_head := h\<rparr>)
      {p. page_aligned p \<and> kernel_end s \<le> p \<and> p < MAX_PADDR}"
    unfolding pm_inv_def using mh(2) by blast
  with run show ?thesis by blast
qed

definition mem_state :: kmem where
  "mem_state = kbase.extend boot_state
     (kmem.fields (\<lambda>_. 0) 0 0 0x87ffd000 0x80200000 0x80210000 0x8020f000 (\<lambda>_. 0))"

lemma mem_state_ok [simp]: "quiet mem_state" "kernel_end mem_state = 0x87ffd000"
  by (simp_all add: mem_state_def boot_state_def quiet_def lock_free_def hart_defs
      kbase.defs kmem.defs)

theorem pm_init_pool_witness:
  "\<exists>t. pm_init mem_state = Ret () t \<and> pm_inv t {p. page_aligned p \<and> 0x87ffd000 \<le> p \<and> p < MAX_PADDR}"
proof -
  have "hart_ok mem_state" using mem_state_ok(1) by (rule quiet_avail [THEN avail_hart_ok])
  from pm_init_pool [OF this] show ?thesis by (simp add: page_aligned_iff)
qed



end
