(* ===== verification/Vm.thy ===== *)
theory Vm
  imports Pmem
begin

text \<open>
  Virtual memory, the rest of \<^verbatim>\<open>kernel/mm/mm.c\<close>: the three-level Sv39 page
  tables kept in physical memory, the kernel's and the users' address spaces, and the
  copies between them.

  A page table is the address of its root page and an entry pointer the address of the
  entry; null is 0. A kernel buffer is the list of the bytes it holds: \<^verbatim>\<open>copy_in\<close>
  returns, beside its result code, the bytes it stored at \<^verbatim>\<open>dst\<close>, and
  \<^verbatim>\<open>copy_out\<close> takes the bytes at \<^verbatim>\<open>src\<close>.
  \<^verbatim>\<open>copy_str_in\<close> and \<^verbatim>\<open>copy_str_out\<close> do not advance over a page
  that has no terminator; they and the recursive \<^verbatim>\<open>free_page_table\<close> take fuel.
\<close>

section \<open>Definitions\<close>

definition read_bytes :: "memory \<Rightarrow> u64 \<Rightarrow> nat \<Rightarrow> u8 list" where
  "read_bytes m a n = map (\<lambda>i. m (a + of_nat i)) [0..<n]"

definition write_bytes :: "u64 \<Rightarrow> u8 list \<Rightarrow> memory \<Rightarrow> memory" where
  "write_bytes a bs m = fold (\<lambda>i m. m(a + of_nat i := bs ! i)) [0..<length bs] m"

subsection \<open>Page tables\<close>

fun walk_from :: "nat \<Rightarrow> u64 \<Rightarrow> u64 \<Rightarrow> bool \<Rightarrow> ('z kmem_scheme, u64) kernel" where
  "walk_from 0 page_table va alloc = retK (page_table + PX va 0 * 8)"
| "walk_from (Suc l) page_table va alloc =
     (let pte = page_table + PX va (Suc l) * 8 in
      bindK (getK (\<lambda>s. load64 (mem s) pte)) (\<lambda>e.
      if e AND PTE_V \<noteq> 0 then walk_from l (PTE2PA e) va alloc
      else if alloc then
        bindK pm_zalloc (\<lambda>page.
        if page = 0 then retK 0
        else thenK (upd_mem (store64 pte (PA2PTE page OR PTE_V))) (walk_from l page va alloc))
      else retK 0))"

definition walk :: "u64 \<Rightarrow> u64 \<Rightarrow> bool \<Rightarrow> ('z kmem_scheme, u64) kernel" where
  "walk page_table va alloc = (if va \<ge> MAX_VADDR then retK 0 else walk_from 2 page_table va alloc)"

definition unmap_page :: "u64 \<Rightarrow> bool \<Rightarrow> u64 \<Rightarrow> ('z kmem_scheme, unit) kernel" where
  "unmap_page page_table free cur_va =
     bindK (walk page_table cur_va False) (\<lambda>pte.
     if pte = 0 then panicK ''walk invalid PTE'' else
     bindK (getK (\<lambda>s. load64 (mem s) pte)) (\<lambda>e.
     if e AND PTE_V = 0 then panicK ''unmapped page''
     else if PTE_FLAGS e = PTE_V then panicK ''not a leaf''
     else seqK [
       whenK free (pm_free (PTE2PA e)),
       upd_mem (store64 pte 0)]))"

definition unmap_pages :: "u64 \<Rightarrow> u64 \<Rightarrow> u64 \<Rightarrow> bool \<Rightarrow> ('z kmem_scheme, unit) kernel" where
  "unmap_pages page_table va sz free =
     (if va mod PAGE_SIZE \<noteq> 0 then panicK ''address is not aligned''
      else if sz mod PAGE_SIZE \<noteq> 0 then panicK ''memory size is not aligned''
      else forK (page_range va (va + sz)) (unmap_page page_table free))"

fun map_loop :: "u64 \<Rightarrow> u64 \<Rightarrow> u64 \<Rightarrow> u64 list \<Rightarrow> u64 \<Rightarrow> ('z kmem_scheme, int) kernel" where
  "map_loop page_table va perm [] pa = retK 0"
| "map_loop page_table va perm (cur_va # vs) pa =
     bindK (walk page_table cur_va True) (\<lambda>pte.
     if pte = 0 then thenK (unmap_pages page_table va (cur_va - va) False) (retK (-1)) else
     bindK (getK (\<lambda>s. load64 (mem s) pte)) (\<lambda>e.
     if e AND PTE_V \<noteq> 0 then panicK ''remapping'' else
     thenK (upd_mem (store64 pte (PA2PTE pa OR PTE_V OR perm)))
       (map_loop page_table va perm vs (pa + PAGE_SIZE))))"

definition map_pages :: "u64 \<Rightarrow> u64 \<Rightarrow> u64 \<Rightarrow> u64 \<Rightarrow> u64 \<Rightarrow> ('z kmem_scheme, int) kernel" where
  "map_pages page_table va pa sz perm =
     (if va mod PAGE_SIZE \<noteq> 0 then panicK ''address is not aligned''
      else if sz mod PAGE_SIZE \<noteq> 0 then panicK ''memory size is not aligned''
      else if sz = 0 then panicK ''memory size is zero''
      else map_loop page_table va perm (page_range va (va + sz)) pa)"

text \<open>\<open>fuel\<close> bounds the depth of the recursion; a page table has three levels.\<close>

fun free_page_table :: "nat \<Rightarrow> u64 \<Rightarrow> ('z kmem_scheme, unit) kernel" where
  "free_page_table 0 page_table = (\<lambda>s. NoFuel)"
| "free_page_table (Suc fuel) page_table = seqK [
     forK [0..<512] (\<lambda>i.
       bindK (getK (\<lambda>s. load64 (mem s) (page_table + of_nat i * 8))) (\<lambda>pte.
       if pte AND PTE_V \<noteq> 0 \<and> pte AND (PTE_R OR PTE_W OR PTE_X) = 0 then seqK [
         free_page_table fuel (PTE2PA pte),
         upd_mem (store64 (page_table + of_nat i * 8) 0)]
       else whenK (pte AND PTE_V \<noteq> 0) (panicK ''free a page table in use''))),
     pm_free page_table]"

subsection \<open>User memory\<close>

definition uvm_walk_addr :: "u64 \<Rightarrow> u64 \<Rightarrow> ('z kmem_scheme, u64) kernel" where
  "uvm_walk_addr page_table va =
     (if va \<ge> MAX_VADDR then panicK ''invalid virtual address'' else
      bindK (walk page_table va False) (\<lambda>pte.
      if pte = 0 then retK 0 else
      bindK (getK (\<lambda>s. load64 (mem s) pte)) (\<lambda>e.
      if e AND PTE_V = 0 then retK 0
      else if e AND PTE_U = 0 then retK 0
      else retK (PTE2PA e))))"

definition uvm_dealloc :: "u64 \<Rightarrow> u64 \<Rightarrow> u64 \<Rightarrow> ('z kmem_scheme, u64) kernel" where
  "uvm_dealloc page_table old_sz new_sz =
     (if new_sz \<ge> old_sz then retK old_sz else
      let old_sz = PAGE_ROUND_UP old_sz; new_sz = PAGE_ROUND_UP new_sz in
      thenK (unmap_pages page_table new_sz (old_sz - new_sz) True) (retK new_sz))"

fun uvm_alloc_loop :: "u64 \<Rightarrow> u64 \<Rightarrow> u64 \<Rightarrow> u64 \<Rightarrow> u64 list \<Rightarrow> ('z kmem_scheme, u64) kernel" where
  "uvm_alloc_loop page_table old_sz new_sz xperm [] = retK new_sz"
| "uvm_alloc_loop page_table old_sz new_sz xperm (a # as) =
     bindK pm_zalloc (\<lambda>m.
     if m = 0 then thenK (uvm_dealloc page_table a old_sz) (retK 0) else
     bindK (map_pages page_table a m PAGE_SIZE (PTE_R OR PTE_U OR xperm)) (\<lambda>r.
     if r \<noteq> 0 then
       thenK (pm_free m) (thenK (uvm_dealloc page_table a old_sz) (retK 0))
     else uvm_alloc_loop page_table old_sz new_sz xperm as))"

definition uvm_alloc :: "u64 \<Rightarrow> u64 \<Rightarrow> u64 \<Rightarrow> u64 \<Rightarrow> ('z kmem_scheme, u64) kernel" where
  "uvm_alloc page_table old_sz new_sz xperm =
     (if new_sz \<le> old_sz then retK old_sz else
      let old_sz = PAGE_ROUND_UP old_sz in
      uvm_alloc_loop page_table old_sz new_sz xperm (page_range old_sz new_sz))"

definition uvm_free :: "u64 \<Rightarrow> u64 \<Rightarrow> ('z kmem_scheme, unit) kernel" where
  "uvm_free page_table sz = seqK [
     whenK (sz > 0) (unmap_pages page_table 0 (PAGE_ROUND_UP sz) True),
     free_page_table 3 page_table]"

definition get_user_page_table :: "nat \<Rightarrow> ('z kmem_scheme, u64) kernel" where
  "get_user_page_table p =
     bindK pm_zalloc (\<lambda>page_table.
     if page_table = 0 then retK 0 else
     let bad0 = thenK (pm_free page_table) (retK 0);
         bad1 = thenK (unmap_pages page_table TRAMPOLINE PAGE_SIZE False) bad0;
         bad2 = thenK (unmap_pages page_table TRAP_FRAME PAGE_SIZE False) bad1 in
     bindK (getK (\<lambda>s. (trampoline s, p_tf (procs s p)))) (\<lambda>(tramp, tf).
     bindK (map_pages page_table TRAMPOLINE tramp PAGE_SIZE (PTE_R OR PTE_X)) (\<lambda>r.
     if r \<noteq> 0 then bad0 else
     bindK (map_pages page_table TRAP_FRAME tf PAGE_SIZE (PTE_R OR PTE_W)) (\<lambda>r.
     if r \<noteq> 0 then bad1 else
     bindK pm_alloc (\<lambda>ustack.
     if ustack = 0 then bad2 else
     bindK (map_pages page_table USER_STACK_BASE ustack PAGE_SIZE (PTE_U OR PTE_W OR PTE_R)) (\<lambda>r.
     if r \<noteq> 0 then thenK (pm_free ustack) bad2
     else retK page_table))))))"

definition free_user_page_table :: "u64 \<Rightarrow> u64 \<Rightarrow> ('z kmem_scheme, unit) kernel" where
  "free_user_page_table page_table sz = seqK [
     unmap_pages page_table USER_STACK_BASE PAGE_SIZE True,
     unmap_pages page_table TRAP_FRAME PAGE_SIZE False,
     unmap_pages page_table TRAMPOLINE PAGE_SIZE False,
     uvm_free page_table sz]"

definition copy_user_stack :: "u64 \<Rightarrow> u64 \<Rightarrow> ('z kmem_scheme, unit) kernel" where
  "copy_user_stack dst src =
     bindK (uvm_walk_addr dst USER_STACK_BASE) (\<lambda>dst_stack.
     bindK (uvm_walk_addr src USER_STACK_BASE) (\<lambda>src_stack.
     upd_mem (memmove dst_stack src_stack 4096)))"

fun copy_upt_loop :: "u64 \<Rightarrow> u64 \<Rightarrow> u64 list \<Rightarrow> ('z kmem_scheme, int) kernel" where
  "copy_upt_loop dst src [] = thenK (copy_user_stack dst src) (retK 0)"
| "copy_upt_loop dst src (va # vs) =
     bindK (walk src va False) (\<lambda>pte.
     if pte = 0 then panicK ''walk invalid PTE'' else
     bindK (getK (\<lambda>s. load64 (mem s) pte)) (\<lambda>e.
     if e AND PTE_V = 0 then panicK ''page not present'' else
     let failed = thenK (unmap_pages dst 0 va True) (retK (-1)) in
     bindK pm_alloc (\<lambda>m.
     if m = 0 then failed else
     thenK (upd_mem (memmove m (PTE2PA e) 4096)) (
     bindK (map_pages dst va m PAGE_SIZE (PTE_FLAGS e)) (\<lambda>r.
     if r \<noteq> 0 then thenK (pm_free m) failed
     else copy_upt_loop dst src vs)))))"

definition copy_user_page_table :: "u64 \<Rightarrow> u64 \<Rightarrow> u64 \<Rightarrow> ('z kmem_scheme, int) kernel" where
  "copy_user_page_table dst src sz = copy_upt_loop dst src (page_range 0 sz)"

subsection \<open>Copies between kernel and user memory\<close>

definition in_page :: "u64 \<Rightarrow> nat \<Rightarrow> nat" where
  "in_page a n = (let len = 4096 - unat (a - PAGE_ROUND_DOWN a) in if len > n then n else len)"

lemma in_page_pos: "0 < n \<Longrightarrow> 0 < in_page a n"
proof -
  assume "0 < n"
  have "PAGE_ROUND_DOWN a \<le> a"
    by (simp add: word_le_nat_alt unat_PAGE_ROUND_DOWN)
  then have "unat (a - PAGE_ROUND_DOWN a) = unat a mod 4096"
    by (simp add: unat_sub unat_PAGE_ROUND_DOWN minus_div_mult_eq_mod)
  moreover have "unat a mod 4096 < 4096" by simp
  ultimately show ?thesis using \<open>0 < n\<close> by (simp add: in_page_def Let_def)
qed

function copy_in :: "u64 \<Rightarrow> u64 \<Rightarrow> nat \<Rightarrow> ('z kmem_scheme, int \<times> u8 list) kernel" where
  "copy_in page_table src n =
     (if n = 0 then retK (0, []) else
      let va = PAGE_ROUND_DOWN src; len = in_page src n in
      bindK (uvm_walk_addr page_table va) (\<lambda>pa.
      if pa = 0 then retK (-1, []) else
      bindK (getK (\<lambda>s. read_bytes (mem s) (pa + (src - va)) len)) (\<lambda>bs.
      bindK (copy_in page_table (src + of_nat len) (n - len)) (\<lambda>(r, cs). retK (r, bs @ cs)))))"
  by pat_completeness auto
termination
  by (relation "measure (\<lambda>(_, _, n). n)") (auto simp: in_page_pos)

function copy_out :: "u64 \<Rightarrow> u64 \<Rightarrow> u8 list \<Rightarrow> ('z kmem_scheme, int) kernel" where
  "copy_out page_table dst src =
     (if src = [] then retK 0 else
      let va = PAGE_ROUND_DOWN dst; len = in_page dst (length src) in
      if va \<ge> MAX_VADDR then retK (-1) else
      bindK (walk page_table va False) (\<lambda>pte.
      bindK (getK (\<lambda>s. load64 (mem s) pte)) (\<lambda>e.
      if pte = 0 \<or> e AND PTE_V = 0 \<or> e AND PTE_U = 0 \<or> e AND PTE_W = 0 then retK (-1) else
      thenK (upd_mem (write_bytes (PTE2PA e + (dst - va)) (take len src)))
        (copy_out page_table (dst + of_nat len) (drop len src)))))"
  by pat_completeness auto
termination
  by (relation "measure (\<lambda>(_, _, src). length src)") (auto simp: in_page_pos)

declare copy_in.simps [simp del] copy_out.simps [simp del]

text \<open>
  The inner loop of \<^verbatim>\<open>copy_str_in\<close> and \<^verbatim>\<open>copy_str_out\<close>: the bytes it copies
  out of the \<open>len\<close> it may look at, and whether it met the terminator.
\<close>

fun str_part :: "u8 list \<Rightarrow> u8 list \<times> bool" where
  "str_part [] = ([], False)"
| "str_part (c # cs) =
     (if c = 0 then ([c], True) else (let (ds, z) = str_part cs in (c # ds, z)))"

fun copy_str_in :: "nat \<Rightarrow> u64 \<Rightarrow> u64 \<Rightarrow> nat \<Rightarrow> ('z kmem_scheme, int \<times> u8 list) kernel" where
  "copy_str_in 0 page_table src max_len = (if max_len = 0 then retK (0, []) else (\<lambda>s. NoFuel))"
| "copy_str_in (Suc fuel) page_table src max_len =
     (if max_len = 0 then retK (0, []) else
      let va = PAGE_ROUND_DOWN src; len = in_page src max_len in
      bindK (uvm_walk_addr page_table va) (\<lambda>pa.
      if pa = 0 then retK (-1, []) else
      bindK (getK (\<lambda>s. str_part (read_bytes (mem s) (pa + (src - va)) len))) (\<lambda>(bs, z).
      if z then retK (0, bs) else
      bindK (copy_str_in fuel page_table src (max_len - 0)) (\<lambda>(r, cs). retK (r, bs @ cs)))))"

fun copy_str_out :: "nat \<Rightarrow> u64 \<Rightarrow> u64 \<Rightarrow> cptr \<Rightarrow> nat \<Rightarrow> nat \<Rightarrow> ('z kmem_scheme, int) kernel" where
  "copy_str_out 0 page_table dst src k max_len = (if max_len = 0 then retK 0 else (\<lambda>s. NoFuel))"
| "copy_str_out (Suc fuel) page_table dst src k max_len =
     (if max_len = 0 then retK 0 else
      let va = PAGE_ROUND_DOWN dst; len = in_page dst max_len in
      bindK (walk page_table va False) (\<lambda>pte.
      bindK (getK (\<lambda>s. load64 (mem s) pte)) (\<lambda>e.
      if pte = 0 \<or> e AND PTE_V = 0 \<or> e AND PTE_U = 0 \<or> e AND PTE_W = 0 then retK (-1) else
      let (bs, z) = str_part (map (\<lambda>i. src (k + i)) [0..<len]) in
      thenK (upd_mem (write_bytes (PTE2PA e + (dst - va)) bs)) (
      if z then retK 0
      else copy_str_out fuel page_table dst src (k + len) (max_len - 0)))))"

text \<open>
  The two kinds of pointer that \<^verbatim>\<open>either_copy_out\<close> and \<^verbatim>\<open>either_copy_in\<close>
  take. What they store through a kernel pointer is returned.
\<close>

datatype dst_ptr = To_user u64 | To_kernel
datatype src_ptr = From_user u64 | From_kernel "u8 list"

definition either_copy_out :: "dst_ptr \<Rightarrow> u8 list \<Rightarrow> ('z kmem_scheme, int \<times> u8 list) kernel" where
  "either_copy_out dst src =
     (case dst of
        To_user va \<Rightarrow>
          bindK current_proc (\<lambda>p.
          bindK (getK (\<lambda>s. p_page_table (procs s p))) (\<lambda>page_table.
          bindK (copy_out page_table va src) (\<lambda>r. retK (r, []))))
      | To_kernel \<Rightarrow> retK (0, src))"

definition either_copy_in :: "src_ptr \<Rightarrow> nat \<Rightarrow> ('z kmem_scheme, int \<times> u8 list) kernel" where
  "either_copy_in src n =
     (case src of
        From_user va \<Rightarrow>
          bindK current_proc (\<lambda>p.
          bindK (getK (\<lambda>s. p_page_table (procs s p))) (\<lambda>page_table.
          copy_in page_table va n))
      | From_kernel bs \<Rightarrow> retK (0, take n bs))"

definition dst_add :: "dst_ptr \<Rightarrow> nat \<Rightarrow> dst_ptr" where
  "dst_add d n = (case d of To_user va \<Rightarrow> To_user (va + of_nat n) | To_kernel \<Rightarrow> To_kernel)"

definition src_add :: "src_ptr \<Rightarrow> nat \<Rightarrow> src_ptr" where
  "src_add d n = (case d of From_user va \<Rightarrow> From_user (va + of_nat n) | From_kernel bs \<Rightarrow> From_kernel (drop n bs))"

subsection \<open>The kernel address space\<close>

definition kvm_map :: "u64 \<Rightarrow> u64 \<Rightarrow> u64 \<Rightarrow> u64 \<Rightarrow> u64 \<Rightarrow> ('z kmem_scheme, unit) kernel" where
  "kvm_map page_table va pa sz perm =
     bindK (map_pages page_table va pa sz perm) (\<lambda>r.
     whenK (r \<noteq> 0) (panicK ''mapping failed''))"

definition map_kernel_stacks :: "u64 \<Rightarrow> ('z kmem_scheme, unit) kernel" where
  "map_kernel_stacks page_table =
     forK [0..<N_PROC] (\<lambda>i.
       bindK pm_alloc (\<lambda>pa.
       if pa = 0 then panicK ''no free page'' else
       bindK (map_pages page_table (KERNEL_STACK (of_nat i)) pa PAGE_SIZE (PTE_R OR PTE_W)) (\<lambda>r.
       whenK (r \<noteq> 0) (panicK ''mapping failed''))))"

definition kvm_make :: "('z kmem_scheme, u64) kernel" where
  "kvm_make =
     bindK pm_zalloc (\<lambda>page_table.
     if page_table = 0 then panicK ''no free page'' else
     bindK (getK (\<lambda>s. (text_start s, text_end s, trampoline s))) (\<lambda>(tstart, tend, tramp).
     thenK (seqK [
       kvm_map page_table UART0 UART0 PAGE_SIZE (PTE_R OR PTE_W),
       kvm_map page_table PLIC PLIC 0x4000000 (PTE_R OR PTE_W),
       kvm_map page_table VIRTIO0 VIRTIO0 PAGE_SIZE (PTE_R OR PTE_W),
       kvm_map page_table tstart tstart (tend - tstart) (PTE_R OR PTE_X),
       kvm_map page_table tend tend (MAX_PADDR - tend) (PTE_R OR PTE_W),
       kvm_map page_table TRAMPOLINE tramp PAGE_SIZE (PTE_R OR PTE_X),
       map_kernel_stacks page_table])
     (retK page_table)))"

definition kvm_init :: "('z kmem_scheme, unit) kernel" where
  "kvm_init = bindK kvm_make (\<lambda>page_table. modK (\<lambda>s. s\<lparr>kernel_page_table := page_table\<rparr>))"

definition kvm_init_hart :: "('z kmem_scheme, unit) kernel" where
  "kvm_init_hart = modK (\<lambda>s. s\<lparr>satp := (satp s)(tp s := MAKE_SATP (kernel_page_table s))\<rparr>)"

end
