(* ===== verification/Ptable.thy ===== *)
theory Ptable
  imports Vm
begin

text \<open>
  Correctness of the page tables of \<^verbatim>\<open>kernel/mm/mm.c\<close>. A page table is a tree of
  pages in memory, disjoint from the free list (\<open>vm_ok\<close>); what a client sees of it is
  the function \<open>pmap\<close> from addresses to last-level entries. The lemmas show that the
  allocating \<^verbatim>\<open>walk\<close> changes no entry, that storing through the pointer it returns
  changes one page of the function, and that \<^verbatim>\<open>map_pages\<close> and
  \<^verbatim>\<open>unmap_pages\<close> are updates of the function on a range.
\<close>

section \<open>Page tables as trees\<close>

definition idx :: "u64 \<Rightarrow> nat \<Rightarrow> nat" where
  "idx va l = unat (PX va l)"

definition valid_pte :: "u64 \<Rightarrow> bool" where
  "valid_pte e \<longleftrightarrow> e AND PTE_V \<noteq> 0"

lemma idx_less [simp]: "idx va l < 512"
  by (simp add: idx_def PX_less)

lemma load64_PX: "load64 m (p + PX va l * 8) = ent m p (idx va l)"
  and store64_PX: "store64 (p + PX va l * 8) v m = set_ent p (idx va l) v m"
  by (simp_all add: ent_def set_ent_def idx_def)

text \<open>
  The pages a table of \<open>l + 1\<close> levels consists of, those of them whose entries point to
  further tables, the well-formedness of the tree (every page is reached once), the page
  and index of the last-level entry of an address, and that entry (0 if there is none).
\<close>

fun pt_tables :: "memory \<Rightarrow> nat \<Rightarrow> u64 \<Rightarrow> u64 set" where
  "pt_tables m 0 r = {r}"
| "pt_tables m (Suc l) r =
     insert r (\<Union>i\<in>{i. i < 512 \<and> valid_pte (ent m r i)}. pt_tables m l (PTE2PA (ent m r i)))"

fun pt_upper :: "memory \<Rightarrow> nat \<Rightarrow> u64 \<Rightarrow> u64 set" where
  "pt_upper m 0 r = {}"
| "pt_upper m (Suc l) r =
     insert r (\<Union>i\<in>{i. i < 512 \<and> valid_pte (ent m r i)}. pt_upper m l (PTE2PA (ent m r i)))"

fun pt_tree :: "memory \<Rightarrow> nat \<Rightarrow> u64 \<Rightarrow> bool" where
  "pt_tree m 0 r \<longleftrightarrow> r \<in> pages"
| "pt_tree m (Suc l) r \<longleftrightarrow> r \<in> pages \<and>
     (\<forall>i<512. valid_pte (ent m r i) \<longrightarrow>
        pt_tree m l (PTE2PA (ent m r i)) \<and> r \<notin> pt_tables m l (PTE2PA (ent m r i)) \<and>
        (\<forall>j<512. j \<noteq> i \<and> valid_pte (ent m r j) \<longrightarrow>
           pt_tables m l (PTE2PA (ent m r i)) \<inter> pt_tables m l (PTE2PA (ent m r j)) = {}))"

fun pt_slot :: "memory \<Rightarrow> nat \<Rightarrow> u64 \<Rightarrow> u64 \<Rightarrow> (u64 \<times> nat) option" where
  "pt_slot m 0 r va = Some (r, idx va 0)"
| "pt_slot m (Suc l) r va =
     (if valid_pte (ent m r (idx va (Suc l))) then pt_slot m l (PTE2PA (ent m r (idx va (Suc l)))) va
      else None)"

definition pt_entry :: "memory \<Rightarrow> nat \<Rightarrow> u64 \<Rightarrow> u64 \<Rightarrow> u64" where
  "pt_entry m l r va = (case pt_slot m l r va of None \<Rightarrow> 0 | Some (p, i) \<Rightarrow> ent m p i)"

definition pte_addr :: "(u64 \<times> nat) option \<Rightarrow> u64" where
  "pte_addr x = (case x of None \<Rightarrow> 0 | Some (p, i) \<Rightarrow> p + of_nat i * 8)"

lemma pt_upper_tables: "pt_upper m l r \<subseteq> pt_tables m l r"
  by (induction l arbitrary: r) auto

lemma pt_root [simp]: "r \<in> pt_tables m l r"
  by (cases l) simp_all

lemma pt_tables_pages: "pt_tree m l r \<Longrightarrow> pt_tables m l r \<subseteq> pages"
  by (induction l arbitrary: r) auto

lemma pt_cong:
  assumes "\<And>p i. p \<in> pt_upper m l r \<Longrightarrow> i < 512 \<Longrightarrow> ent m' p i = ent m p i"
  shows "pt_tables m' l r = pt_tables m l r \<and> pt_upper m' l r = pt_upper m l r \<and>
    pt_tree m' l r = pt_tree m l r \<and> pt_slot m' l r va = pt_slot m l r va"
  using assms
proof (induction l arbitrary: r)
  case (Suc l)
  have e: "ent m' r i = ent m r i" if "i < 512" for i using Suc.prems that by simp
  have IH: "pt_tables m' l (PTE2PA (ent m r i)) = pt_tables m l (PTE2PA (ent m r i))"
      "pt_upper m' l (PTE2PA (ent m r i)) = pt_upper m l (PTE2PA (ent m r i))"
      "pt_tree m' l (PTE2PA (ent m r i)) = pt_tree m l (PTE2PA (ent m r i))"
      "pt_slot m' l (PTE2PA (ent m r i)) va = pt_slot m l (PTE2PA (ent m r i)) va"
    if "i < 512" "valid_pte (ent m r i)" for i
  proof -
    have "ent m' p j = ent m p j" if "p \<in> pt_upper m l (PTE2PA (ent m r i))" "j < 512" for p j
      using Suc.prems [of p j] that \<open>i < 512\<close> \<open>valid_pte (ent m r i)\<close> by auto
    then show "pt_tables m' l (PTE2PA (ent m r i)) = pt_tables m l (PTE2PA (ent m r i))"
      "pt_upper m' l (PTE2PA (ent m r i)) = pt_upper m l (PTE2PA (ent m r i))"
      "pt_tree m' l (PTE2PA (ent m r i)) = pt_tree m l (PTE2PA (ent m r i))"
      "pt_slot m' l (PTE2PA (ent m r i)) va = pt_slot m l (PTE2PA (ent m r i)) va"
      using Suc.IH by blast+
  qed
  have set_eq: "{i. i < 512 \<and> valid_pte (ent m' r i)} = {i. i < 512 \<and> valid_pte (ent m r i)}"
    using e by auto
  have "pt_tables m' (Suc l) r = pt_tables m (Suc l) r" "pt_upper m' (Suc l) r = pt_upper m (Suc l) r"
    unfolding pt_tables.simps pt_upper.simps set_eq using e IH(1,2) by simp_all
  moreover have "pt_tree m' (Suc l) r = pt_tree m (Suc l) r"
    unfolding pt_tree.simps using e IH(1,3) by (auto 0 0 cong: conj_cong imp_cong)
  moreover have "pt_slot m' (Suc l) r va = pt_slot m (Suc l) r va"
    using e [of "idx va (Suc l)"] IH(4) [of "idx va (Suc l)"] by simp
  ultimately show ?case by blast
qed simp

lemma pt_slot_tables:
  "pt_slot m l r va = Some (p, i) \<Longrightarrow> p \<in> pt_tables m l r \<and> i = idx va 0"
proof (induction l arbitrary: r)
  case (Suc l)
  then have v: "valid_pte (ent m r (idx va (Suc l)))"
      "pt_slot m l (PTE2PA (ent m r (idx va (Suc l)))) va = Some (p, i)"
    by (auto split: if_splits)
  with Suc.IH [OF v(2)] show ?case by auto
qed simp

text \<open>In a tree the last-level tables are not inner tables, and determine the path to them.\<close>

lemma pt_slot_not_upper:
  "pt_tree m l r \<Longrightarrow> pt_slot m l r va = Some (p, i) \<Longrightarrow> p \<notin> pt_upper m l r"
proof (induction l arbitrary: r)
  case (Suc l)
  let ?k = "idx va (Suc l)" and ?c = "\<lambda>i. PTE2PA (ent m r i)"
  have v: "valid_pte (ent m r ?k)" and s: "pt_slot m l (?c ?k) va = Some (p, i)"
    using Suc.prems by (auto split: if_splits)
  have p: "p \<in> pt_tables m l (?c ?k)" using pt_slot_tables [OF s] by simp
  have t: "pt_tree m l (?c ?k)" "r \<notin> pt_tables m l (?c ?k)"
    using Suc.prems(1) v by auto
  have "p \<notin> pt_upper m l (?c j)" if "j < 512" "valid_pte (ent m r j)" for j
  proof (cases "j = ?k")
    case True
    then show ?thesis using Suc.IH [OF t(1) s] by simp
  next
    case False
    then have "pt_tables m l (?c ?k) \<inter> pt_tables m l (?c j) = {}"
      using Suc.prems(1) v that by (simp del: pt_tables.simps)
    then show ?thesis using p pt_upper_tables by blast
  qed
  then show ?case using p t(2) by auto
qed simp

lemma pt_slot_path:
  "pt_tree m l r \<Longrightarrow> pt_slot m l r va = Some (p, i) \<Longrightarrow> pt_slot m l r va' = Some (p, i') \<Longrightarrow>
   0 < k \<Longrightarrow> k \<le> l \<Longrightarrow> idx va k = idx va' k"
proof (induction l arbitrary: r)
  case (Suc l)
  let ?a = "idx va (Suc l)" and ?b = "idx va' (Suc l)" and ?c = "\<lambda>i. PTE2PA (ent m r i)"
  have v: "valid_pte (ent m r ?a)" "valid_pte (ent m r ?b)"
    and s: "pt_slot m l (?c ?a) va = Some (p, i)" "pt_slot m l (?c ?b) va' = Some (p, i')"
    using Suc.prems by (auto split: if_splits)
  have "p \<in> pt_tables m l (?c ?a) \<inter> pt_tables m l (?c ?b)"
    using s pt_slot_tables by blast
  moreover have "pt_tables m l (?c ?a) \<inter> pt_tables m l (?c ?b) = {}" if "?b \<noteq> ?a"
    using Suc.prems(1) v that by (simp del: pt_tables.simps)
  ultimately have ab: "?a = ?b" by (cases "?b = ?a") auto
  show ?case
  proof (cases "k = Suc l")
    case False
    have "pt_tree m l (?c ?a)" using Suc.prems(1) v(1) by simp
    then show ?thesis using Suc.IH s ab Suc.prems(4,5) False by simp
  qed (use ab in simp)
qed simp

definition same_path :: "nat \<Rightarrow> u64 \<Rightarrow> u64 \<Rightarrow> bool" where
  "same_path l va va' \<longleftrightarrow> (\<forall>k\<le>l. idx va k = idx va' k)"

lemma same_path_slot: "same_path l va va' \<Longrightarrow> pt_slot m l r va = pt_slot m l r va'"
  by (induction l arbitrary: r) (simp_all add: same_path_def)

text \<open>Writing the entry of an address changes that address and nothing else.\<close>

lemma pt_set_leaf:
  assumes "pt_tree m l r" "pt_slot m l r va = Some (p, i)"
  shows "pt_tree (set_ent p i v m) l r" and "pt_tables (set_ent p i v m) l r = pt_tables m l r"
    and "pt_slot (set_ent p i v m) l r va' = pt_slot m l r va'"
    and "pt_entry (set_ent p i v m) l r va' = (if same_path l va va' then v else pt_entry m l r va')"
proof -
  have p: "p \<in> pages" "i < 512"
    using pt_slot_tables [OF assms(2)] pt_tables_pages [OF assms(1)] by auto
  have e: "ent (set_ent p i v m) q j = (if p = q \<and> i = j then v else ent m q j)"
    if "q \<in> pages" "j < 512" for q j
    using p that by (intro ent_set_ent) (auto simp: pages_def)
  have up: "ent (set_ent p i v m) q j = ent m q j" if "q \<in> pt_upper m l r" "j < 512" for q j
  proof -
    have "q \<in> pages" using that pt_upper_tables pt_tables_pages [OF assms(1)] by blast
    then show ?thesis using e [of q j] that pt_slot_not_upper [OF assms] by auto
  qed
  note c = pt_cong [where m = m and m' = "set_ent p i v m" and l = l and r = r, OF up]
  show "pt_tree (set_ent p i v m) l r" "pt_tables (set_ent p i v m) l r = pt_tables m l r"
    using c assms(1) by blast+
  show sl: "pt_slot (set_ent p i v m) l r va' = pt_slot m l r va'" using c by blast
  show "pt_entry (set_ent p i v m) l r va' = (if same_path l va va' then v else pt_entry m l r va')"
  proof (cases "pt_slot m l r va'")
    case None
    then have "\<not> same_path l va va'" using same_path_slot assms(2) by fastforce
    then show ?thesis using None sl by (simp add: pt_entry_def)
  next
    case (Some x)
    then obtain q j where x: "pt_slot m l r va' = Some (q, j)" by (cases x) auto
    have q: "q \<in> pages" "j = idx va' 0"
      using pt_slot_tables [OF x] pt_tables_pages [OF assms(1)] by auto
    have "p = q \<and> i = j \<longleftrightarrow> same_path l va va'"
    proof
      assume pq: "p = q \<and> i = j"
      then have "idx va k = idx va' k" if "k \<le> l" for k
        using pt_slot_path [OF assms _ _ that, of va' j] x q(2) pt_slot_tables [OF assms(2)]
        by (cases "k = 0") auto
      then show "same_path l va va'" by (simp add: same_path_def)
    next
      assume "same_path l va va'"
      then show "p = q \<and> i = j" using same_path_slot [of l va va' m r] assms(2) x by simp
    qed
    then show ?thesis using sl x q e [of q j] by (auto simp: pt_entry_def)
  qed
qed

section \<open>Memory frames\<close>

definition touches :: "u64 set \<Rightarrow> memory \<Rightarrow> memory \<Rightarrow> bool" where
  "touches P m m' \<longleftrightarrow> (\<forall>x. (\<forall>p\<in>P. x \<notin> span p 4096) \<longrightarrow> m' x = m x)"

lemma touches_refl [simp]: "touches P m m"
  by (simp add: touches_def)

lemma touches_mono: "touches P m m' \<Longrightarrow> P \<subseteq> Q \<Longrightarrow> touches Q m m'"
  unfolding touches_def by blast

lemma touches_trans: "touches P m m' \<Longrightarrow> touches P m' m'' \<Longrightarrow> touches P m m''"
  by (simp add: touches_def)

lemma touches_set_ent: "p \<in> P \<Longrightarrow> i < 512 \<Longrightarrow> touches P m (set_ent p i v m)"
  by (auto simp: touches_def set_ent_out)

lemma touches_memset: "p \<in> P \<Longrightarrow> touches P m (memset p v 4096 m)"
  by (auto simp: touches_def memset_apply)

lemma touches_byte:
  assumes "touches P m m'" "P \<subseteq> pages" "q \<in> pages" "q \<notin> P" "x \<in> span q 4096"
  shows "m' x = m x"
proof -
  have "x \<notin> span p 4096" if "p \<in> P" for p
    using pages_disjoint [of p q] that assms(2-5) by (auto simp: pages_def)
  then show ?thesis using assms(1) by (simp add: touches_def)
qed

lemma touches_ent:
  "touches P m m' \<Longrightarrow> P \<subseteq> pages \<Longrightarrow> q \<in> pages \<Longrightarrow> q \<notin> P \<Longrightarrow> i < 512 \<Longrightarrow> ent m' q i = ent m q i"
  by (rule ent_cong) (auto intro: touches_byte)

section \<open>walk\<close>

lemma walk_from_lookup:
  "walk_from l r va False s = Ret (pte_addr (pt_slot (mem s) l r va)) s"
  by (induction l arbitrary: r)
     (simp_all add: Let_def load64_PX valid_pte_def pte_addr_def idx_def)

lemma walk_lookup:
  "walk r va False s = Ret (if va \<ge> MAX_VADDR then 0 else pte_addr (pt_slot (mem s) 2 r va)) s"
  by (simp add: walk_def walk_from_lookup)

lemma pte_addr_nonzero:
  assumes "pt_tree m l r" "pt_slot m l r va = Some (p, i)"
  shows "pte_addr (Some (p, i)) \<noteq> 0"
proof -
  have p: "page_aligned p" "p \<noteq> 0" "i < 512"
    using pt_slot_tables [OF assms(2)] pt_tables_pages [OF assms(1)] by (auto simp: pages_def)
  have "unat (p + of_nat (i * 8)) = unat p + i * 8" using p by (intro page_offset) simp_all
  moreover have "unat p \<noteq> 0" using p(2) by (simp add: unat_eq_zero)
  ultimately show ?thesis by (auto simp: pte_addr_def word_unat_eq_iff)
qed

lemma pte_addr_eq_0: "pt_tree m l r \<Longrightarrow> pte_addr (pt_slot m l r va) = 0 \<longleftrightarrow> pt_slot m l r va = None"
  using pte_addr_nonzero by (cases "pt_slot m l r va") (auto simp: pte_addr_def split: prod.splits)

lemma pte_addr_load: "pt_slot m l r va = Some (p, i) \<Longrightarrow> load64 m' (pte_addr (pt_slot m l r va)) = ent m' p i"
  and pte_addr_store: "pt_slot m l r va = Some (p, i) \<Longrightarrow> store64 (pte_addr (pt_slot m l r va)) v m' = set_ent p i v m'"
  by (simp_all add: pte_addr_def ent_def set_ent_def)

lemma valid_0 [simp]: "\<not> valid_pte 0"
  by (simp add: valid_pte_def)

text \<open>The subtables of a table other than the one at index \<open>k\<close>.\<close>

definition others :: "memory \<Rightarrow> nat \<Rightarrow> u64 \<Rightarrow> nat \<Rightarrow> u64 set" where
  "others m l r k = (\<Union>j\<in>{j. j < 512 \<and> j \<noteq> k \<and> valid_pte (ent m r j)}. pt_tables m l (PTE2PA (ent m r j)))"

lemma tables_split:
  assumes "k < 512"
  shows "pt_tables m (Suc l) r = insert r (others m l r k \<union>
    (if valid_pte (ent m r k) then pt_tables m l (PTE2PA (ent m r k)) else {}))"
  using assms by (auto simp: others_def)

text \<open>Replacing the subtree at one index of a table.\<close>

lemma pt_subtree:
  assumes tree: "pt_tree m (Suc l) r" and k: "k < 512"
    and ek: "valid_pte (ent m' r k)"
    and ej: "\<And>j. j < 512 \<Longrightarrow> j \<noteq> k \<Longrightarrow> ent m' r j = ent m r j"
    and eo: "\<And>p j. p \<in> others m l r k \<Longrightarrow> j < 512 \<Longrightarrow> ent m' p j = ent m p j"
    and sub: "pt_tree m' l (PTE2PA (ent m' r k))"
    and fresh: "r \<notin> pt_tables m' l (PTE2PA (ent m' r k))"
      "pt_tables m' l (PTE2PA (ent m' r k)) \<inter> others m l r k = {}"
    and ents: "\<And>va. idx va (Suc l) = k \<Longrightarrow>
      pt_entry m' l (PTE2PA (ent m' r k)) va = pt_entry m (Suc l) r va"
  shows "pt_tree m' (Suc l) r"
    and "pt_tables m' (Suc l) r = insert r (others m l r k \<union> pt_tables m' l (PTE2PA (ent m' r k)))"
    and "pt_entry m' (Suc l) r va = pt_entry m (Suc l) r va"
proof -
  let ?c = "\<lambda>j. PTE2PA (ent m r j)" and ?c' = "\<lambda>j. PTE2PA (ent m' r j)"
  have in_o: "pt_tables m l (?c j) \<subseteq> others m l r k" if "j < 512" "j \<noteq> k" "valid_pte (ent m r j)" for j
    using that by (auto simp: others_def)
  have same: "pt_tables m' l (?c j) = pt_tables m l (?c j)" "pt_tree m' l (?c j) = pt_tree m l (?c j)"
      "pt_slot m' l (?c j) va = pt_slot m l (?c j) va"
    if j: "j < 512" "j \<noteq> k" "valid_pte (ent m r j)" for j va
  proof -
    have "ent m' p i = ent m p i" if "p \<in> pt_upper m l (?c j)" "i < 512" for p i
      using that eo in_o [OF j] pt_upper_tables by blast
    then show "pt_tables m' l (?c j) = pt_tables m l (?c j)" "pt_tree m' l (?c j) = pt_tree m l (?c j)"
      "pt_slot m' l (?c j) va = pt_slot m l (?c j) va"
      using pt_cong [of m l "?c j" m' va] by blast+
  qed
  show tb: "pt_tables m' (Suc l) r = insert r (others m l r k \<union> pt_tables m' l (?c' k))"
  proof -
    have "others m' l r k = others m l r k"
      unfolding others_def using ej same(1) by (auto 0 0) (metis, metis)
    then show ?thesis using tables_split [OF k, of m' l r] ek by simp
  qed
  show "pt_tree m' (Suc l) r"
    unfolding pt_tree.simps
  proof (intro conjI allI impI)
    show "r \<in> pages" using tree by simp
  next
    fix i assume i: "i < 512" "valid_pte (ent m' r i)"
    show "pt_tree m' l (?c' i)"
      using tree sub same(2) [of i] ej [of i] i by (cases "i = k") auto
    show "r \<notin> pt_tables m' l (?c' i)"
      using tree fresh(1) same(1) [of i] ej [of i] i by (cases "i = k") auto
    fix j assume j: "j < 512" "j \<noteq> i \<and> valid_pte (ent m' r j)"
    show "pt_tables m' l (?c' i) \<inter> pt_tables m' l (?c' j) = {}"
    proof (cases "i = k \<or> j = k")
      case True
      then show ?thesis
        using i j fresh(2) ej [of i] ej [of j] in_o [of i] in_o [of j] same(1) [of i] same(1) [of j]
        by (elim disjE) (auto simp: disjoint_iff)
    next
      case False
      have "pt_tables m l (?c i) \<inter> pt_tables m l (?c j) = {}"
        using tree i j False ej [of i] ej [of j] by (simp del: pt_tables.simps)
      then show ?thesis using False i j ej [of i] ej [of j] same(1) [of i] same(1) [of j] by simp
    qed
  qed
  show "pt_entry m' (Suc l) r va = pt_entry m (Suc l) r va"
  proof (cases "idx va (Suc l) = k")
    case True
    have "pt_slot m' (Suc l) r va = pt_slot m' l (?c' k) va" using True ek by simp
    then show ?thesis using ents [OF True] by (simp add: pt_entry_def)
  next
    case False
    let ?j = "idx va (Suc l)"
    have e: "ent m' r ?j = ent m r ?j" using ej False by simp
    show ?thesis
    proof (cases "valid_pte (ent m r ?j)")
      case True
      have sl: "pt_slot m' l (?c ?j) va = pt_slot m l (?c ?j) va" using same(3) False True by simp
      show ?thesis
      proof (cases "pt_slot m l (?c ?j) va")
        case (Some x)
        then obtain p i where x: "pt_slot m l (?c ?j) va = Some (p, i)" by (cases x) auto
        have "p \<in> others m l r k" "i < 512"
          using pt_slot_tables [OF x] in_o [of ?j] False True by auto
        then show ?thesis using eo [of p i] sl x e True by (simp add: pt_entry_def)
      qed (use sl e in \<open>simp add: pt_entry_def\<close>)
    qed (use e in \<open>simp add: pt_entry_def\<close>)
  qed
qed

text \<open>
  The contract of the allocating walk: it takes the pages \<open>qs\<close> from the front of the
  free list, adds exactly these to the table, changes no entry and no byte outside the
  table, and finds the slot of the address unless the free list ran out.
\<close>

definition walk_post :: "nat \<Rightarrow> u64 \<Rightarrow> u64 \<Rightarrow> 'z kmem_scheme \<Rightarrow> u64 list \<Rightarrow> u64 \<Rightarrow> 'z kmem_scheme \<Rightarrow> u64 list \<Rightarrow> bool" where
  "walk_post l r va s ps pte t ps' \<longleftrightarrow>
     (\<exists>qs m' h. ps = qs @ ps' \<and> t = s\<lparr>mem := m', free_head := h\<rparr> \<and>
        pt_tables m' l r = pt_tables (mem s) l r \<union> set qs \<and>
        touches (pt_tables (mem s) l r \<union> set qs) (mem s) m') \<and>
     pool t ps' \<and> pt_tree (mem t) l r \<and>
     (\<forall>va'. pt_entry (mem t) l r va' = pt_entry (mem s) l r va') \<and>
     pte = (case pt_slot (mem t) l r va of None \<Rightarrow> 0 | Some (p, i) \<Rightarrow> p + of_nat i * 8) \<and>
     (pt_slot (mem t) l r va = None \<longrightarrow> ps' = [])"

lemma pt_zero_page:
  assumes "r \<in> pages" "\<And>i. i < 512 \<Longrightarrow> ent m r i = 0"
  shows "pt_tree m l r \<and> pt_tables m l r = {r} \<and> pt_entry m l r va = 0"
  using assms by (cases l) (auto simp: pt_entry_def)

lemma pool_disjointD:
  assumes "pool s (qs @ ps)" shows "set qs \<subseteq> pages" "set qs \<inter> set ps = {}"
  using assms pool_pages [OF assms] by (auto simp: pool_def)

lemma others_disjoint:
  assumes "pt_tree m (Suc l) r" "k < 512"
  shows "r \<notin> others m l r k"
    and "valid_pte (ent m r k) \<Longrightarrow> pt_tables m l (PTE2PA (ent m r k)) \<inter> others m l r k = {}"
    and "others m l r k \<subseteq> pt_tables m (Suc l) r" "others m l r k \<subseteq> pages"
proof -
  show "r \<notin> others m l r k" using assms by (auto simp: others_def)
  show "valid_pte (ent m r k) \<Longrightarrow> pt_tables m l (PTE2PA (ent m r k)) \<inter> others m l r k = {}"
    using assms by (auto simp: others_def disjoint_iff)
  show "others m l r k \<subseteq> pt_tables m (Suc l) r" by (auto simp: others_def)
  then show "others m l r k \<subseteq> pages" using pt_tables_pages [OF assms(1)] by blast
qed

lemma valid_link [simp]: "valid_pte (x OR PTE_V)"
proof -
  have "bit ((x OR PTE_V) AND PTE_V) 0" by (simp add: PTE_V_def bit_or_iff bit_and_iff)
  then show ?thesis unfolding valid_pte_def by fastforce
qed

lemma PTE2PA_link: "p \<in> pages \<Longrightarrow> PTE2PA (PA2PTE p OR PTE_V) = p"
  by (intro PTE2PA_pack) (auto simp: pages_def PTE_V_def)

text \<open>The step of the walk when the table of the next level is present.\<close>

lemma walk_post_present:
  assumes tree: "pt_tree (mem s) (Suc l) r" and pl: "pool s ps"
    and dj: "pt_tables (mem s) (Suc l) r \<inter> set ps = {}"
    and v: "valid_pte (ent (mem s) r (idx va (Suc l)))"
    and post: "walk_post l (PTE2PA (ent (mem s) r (idx va (Suc l)))) va s ps pte t ps'"
  shows "walk_post (Suc l) r va s ps pte t ps'"
proof -
  let ?k = "idx va (Suc l)"
  let ?c = "PTE2PA (ent (mem s) r ?k)"
  let ?m = "mem s" and ?m' = "mem t"
  obtain qs h where q: "ps = qs @ ps'" "t = s\<lparr>mem := ?m', free_head := h\<rparr>"
      "pt_tables ?m' l ?c = pt_tables ?m l ?c \<union> set qs" "touches (pt_tables ?m l ?c \<union> set qs) ?m ?m'"
    using post by (auto simp: walk_post_def)
  note sp = tables_split [OF idx_less, of ?m l r va "Suc l"]
  note o = others_disjoint [OF tree idx_less [of va "Suc l"]]
  have qp: "set qs \<subseteq> pages" using pool_disjointD q(1) pl by blast
  have "pt_tables ?m l ?c \<subseteq> pt_tables ?m (Suc l) r" unfolding sp using v by auto
  then have P: "pt_tables ?m l ?c \<union> set qs \<subseteq> pages"
    using qp pt_tables_pages [OF tree] by blast
  have r: "r \<in> pages" "r \<notin> pt_tables ?m l ?c \<union> set qs"
    using tree v dj q(1) by auto
  have er: "ent ?m' r j = ent ?m r j" if "j < 512" for j
    using touches_ent [OF q(4) P r that] .
  have ov: "others ?m l r ?k \<inter> (pt_tables ?m l ?c \<union> set qs) = {}"
    using o(2) [OF v] o(3) dj q(1) by auto
  have eo: "ent ?m' p j = ent ?m p j" if "p \<in> others ?m l r ?k" "j < 512" for p j
    using touches_ent [OF q(4) P _ _ that(2), of p] that(1) o(4) ov by blast
  have ek: "ent ?m' r ?k = ent ?m r ?k" using er by simp
  have ents: "pt_entry ?m' l ?c va' = pt_entry ?m (Suc l) r va'" if "idx va' (Suc l) = ?k" for va'
  proof -
    have "pt_entry ?m' l ?c va' = pt_entry ?m l ?c va'" using post by (simp add: walk_post_def)
    also have "\<dots> = pt_entry ?m (Suc l) r va'" using that v by (simp add: pt_entry_def)
    finally show ?thesis .
  qed
  have st: "pt_tree ?m' l ?c" using post by (simp add: walk_post_def)
  have f1: "r \<notin> pt_tables ?m' l ?c" using r(2) q(3) by simp
  have f2: "pt_tables ?m' l ?c \<inter> others ?m l r ?k = {}" using ov q(3) by blast
  have S: "pt_tree ?m' (Suc l) r"
      "pt_tables ?m' (Suc l) r = insert r (others ?m l r ?k \<union> pt_tables ?m' l (PTE2PA (ent ?m' r ?k)))"
      "pt_entry ?m' (Suc l) r va' = pt_entry ?m (Suc l) r va'" for va'
    by (rule pt_subtree [where k = ?k, OF tree];
        use v er eo st f1 f2 ents ek in \<open>simp del: pt_tables.simps pt_tree.simps\<close>)+
  have tb: "pt_tables ?m' (Suc l) r = pt_tables ?m (Suc l) r \<union> set qs"
    unfolding S(2) sp using v q(3) ek by auto
  have tc: "touches (pt_tables ?m (Suc l) r \<union> set qs) ?m ?m'"
    unfolding sp by (rule touches_mono [OF q(4)]) (use v in auto)
  have sl: "pt_slot ?m' (Suc l) r va = pt_slot ?m' l ?c va" using ek v by simp
  have pp: "pool t ps'" "pte = (case pt_slot ?m' l ?c va of None \<Rightarrow> 0 | Some (p, i) \<Rightarrow> p + of_nat i * 8)"
      "pt_slot ?m' l ?c va = None \<longrightarrow> ps' = []"
    using post unfolding walk_post_def by blast+
  show ?thesis
    unfolding walk_post_def
  proof (intro conjI)
    show "\<exists>qs m' h. ps = qs @ ps' \<and> t = s\<lparr>mem := m', free_head := h\<rparr> \<and>
        pt_tables m' (Suc l) r = pt_tables ?m (Suc l) r \<union> set qs \<and>
        touches (pt_tables ?m (Suc l) r \<union> set qs) ?m m'"
      using q(1,2) tb tc by blast
    show "pool t ps'" by (rule pp(1))
    show "pt_tree ?m' (Suc l) r" by (rule S(1))
    show "\<forall>va'. pt_entry ?m' (Suc l) r va' = pt_entry ?m (Suc l) r va'" using S(3) by blast
    show "pte = (case pt_slot ?m' (Suc l) r va of None \<Rightarrow> 0 | Some (p, i) \<Rightarrow> p + of_nat i * 8)"
      unfolding sl by (rule pp(2))
    show "pt_slot ?m' (Suc l) r va = None \<longrightarrow> ps' = []" unfolding sl by (rule pp(3))
  qed
qed


text \<open>The step when it is missing and the page \<open>q\<close> is linked in.\<close>

lemma walk_post_missing:
  assumes tree: "pt_tree (mem s) (Suc l) r" and pl: "pool s (q # ps)"
    and dj: "pt_tables (mem s) (Suc l) r \<inter> set (q # ps) = {}"
    and nv: "\<not> valid_pte (ent (mem s) r (idx va (Suc l)))"
    and u: "u = s\<lparr>free_head := h, mem := set_ent r (idx va (Suc l)) (PA2PTE q OR PTE_V) (memset q 0 4096 (mem s))\<rparr>"
    and post: "walk_post l q va u ps pte t ps'"
  shows "walk_post (Suc l) r va s (q # ps) pte t ps'"
proof -
  let ?k = "idx va (Suc l)"
  let ?m = "mem s" and ?m1 = "mem u" and ?m' = "mem t"
  obtain qs h' where q: "ps = qs @ ps'" "t = u\<lparr>mem := ?m', free_head := h'\<rparr>"
      "pt_tables ?m' l q = pt_tables ?m1 l q \<union> set qs" "touches (pt_tables ?m1 l q \<union> set qs) ?m1 ?m'"
    using post by (auto simp: walk_post_def)
  note sp = tables_split [OF idx_less, of ?m l r va "Suc l"]
  note o = others_disjoint [OF tree idx_less [of va "Suc l"]]
  have qp: "q \<in> pages" "set qs \<subseteq> pages" "q \<notin> set qs"
    using pool_pages [OF pl] pl q(1) by (auto simp: pool_def)
  have r: "r \<in> pages" "r \<noteq> q" "r \<notin> set qs" using tree dj q(1) by auto
  have m1: "?m1 = set_ent r ?k (PA2PTE q OR PTE_V) (memset q 0 4096 ?m)" by (simp add: u)
  have e1: "ent ?m1 p j = (if p = r \<and> j = ?k then PA2PTE q OR PTE_V else if p = q then 0 else ent ?m p j)"
    if "p \<in> pages" "j < 512" for p j
    using that qp(1) r(1,2) by (auto simp: u pages_def ent_set_ent ent_memset)
  have z: "pt_tree ?m1 l q" "pt_tables ?m1 l q = {q}" "\<And>va. pt_entry ?m1 l q va = 0"
    using pt_zero_page [of q ?m1 l] qp(1) e1 r(2) by auto
  have P: "pt_tables ?m1 l q \<union> set qs \<subseteq> pages" using z(2) qp by auto
  have e': "ent ?m' p j = ent ?m1 p j" if "p \<in> pages" "p \<noteq> q" "p \<notin> set qs" "j < 512" for p j
    using touches_ent [OF q(4) P that(1) _ that(4)] that z(2) by simp
  have er: "ent ?m' r j = ent ?m r j" if "j < 512" "j \<noteq> ?k" for j
    using e' [of r j] e1 [of r j] r that by simp
  have ek: "ent ?m' r ?k = PA2PTE q OR PTE_V" using e' [of r ?k] e1 [of r ?k] r by simp
  have c: "PTE2PA (ent ?m' r ?k) = q" using ek PTE2PA_link qp(1) by simp
  have ov: "q \<notin> others ?m l r ?k" "others ?m l r ?k \<inter> set qs = {}"
    using o(3) dj q(1) by auto
  have eo: "ent ?m' p j = ent ?m p j" if "p \<in> others ?m l r ?k" "j < 512" for p j
  proof -
    have "p \<in> pages" "p \<noteq> q" "p \<notin> set qs" "p \<noteq> r" using that(1) o(1,4) ov by auto
    then show ?thesis using e' [of p j] e1 [of p j] that(2) by simp
  qed
  have ents: "pt_entry ?m' l q va' = pt_entry ?m (Suc l) r va'" if "idx va' (Suc l) = ?k" for va'
    using post z(3) that nv by (simp add: walk_post_def pt_entry_def)
  have f: "r \<notin> pt_tables ?m' l q" "pt_tables ?m' l q \<inter> others ?m l r ?k = {}"
    using q(3) z(2) r ov by auto
  have st: "pt_tree ?m' l q" using post by (simp add: walk_post_def)
  have S: "pt_tree ?m' (Suc l) r"
      "pt_tables ?m' (Suc l) r = insert r (others ?m l r ?k \<union> pt_tables ?m' l (PTE2PA (ent ?m' r ?k)))"
      "pt_entry ?m' (Suc l) r va' = pt_entry ?m (Suc l) r va'" for va'
    by (rule pt_subtree [where k = ?k, OF tree];
        use er eo st f ents ek c in \<open>simp del: pt_tables.simps pt_tree.simps\<close>)+
  have tb: "pt_tables ?m' (Suc l) r = pt_tables ?m (Suc l) r \<union> set (q # qs)"
    unfolding S(2) sp using nv q(3) z(2) c by auto
  have tc: "touches (pt_tables ?m (Suc l) r \<union> set (q # qs)) ?m ?m'"
  proof (rule touches_trans)
    show "touches (pt_tables ?m (Suc l) r \<union> set (q # qs)) ?m ?m1"
      unfolding m1 by (rule touches_trans [OF touches_memset [of q] touches_set_ent]) simp_all
    show "touches (pt_tables ?m (Suc l) r \<union> set (q # qs)) ?m1 ?m'"
      by (rule touches_mono [OF q(4)]) (use z(2) in auto)
  qed
  have sl: "pt_slot ?m' (Suc l) r va = pt_slot ?m' l q va" using c ek by simp
  have ts: "t = s\<lparr>mem := ?m', free_head := h'\<rparr>" by (subst q(2)) (simp add: u)
  have pp: "pool t ps'" "pte = (case pt_slot ?m' l q va of None \<Rightarrow> 0 | Some (p, i) \<Rightarrow> p + of_nat i * 8)"
      "pt_slot ?m' l q va = None \<longrightarrow> ps' = []"
    using post unfolding walk_post_def by blast+
  show ?thesis
    unfolding walk_post_def
  proof (intro conjI)
    show "\<exists>qs m' h. q # ps = qs @ ps' \<and> t = s\<lparr>mem := m', free_head := h\<rparr> \<and>
        pt_tables m' (Suc l) r = pt_tables ?m (Suc l) r \<union> set qs \<and>
        touches (pt_tables ?m (Suc l) r \<union> set qs) ?m m'"
      by (intro exI [of _ "q # qs"] exI [of _ ?m'] exI [of _ h']) (use q(1) ts tb tc in auto)
    show "pool t ps'" by (rule pp(1))
    show "pt_tree ?m' (Suc l) r" by (rule S(1))
    show "\<forall>va'. pt_entry ?m' (Suc l) r va' = pt_entry ?m (Suc l) r va'" using S(3) by blast
    show "pte = (case pt_slot ?m' (Suc l) r va of None \<Rightarrow> 0 | Some (p, i) \<Rightarrow> p + of_nat i * 8)"
      unfolding sl by (rule pp(2))
    show "pt_slot ?m' (Suc l) r va = None \<longrightarrow> ps' = []" unfolding sl by (rule pp(3))
  qed
qed

lemma walk_from_alloc:
  assumes "avail s L_free_list" "pool s ps" "pt_tree (mem s) l r" "pt_tables (mem s) l r \<inter> set ps = {}"
  shows "\<exists>pte t ps'. walk_from l r va True s = Ret pte t \<and> walk_post l r va s ps pte t ps'"
  using assms
proof (induction l arbitrary: r s ps)
  case 0
  then show ?case
    by (intro exI [of _ "r + PX va 0 * 8"] exI [of _ s] exI [of _ ps])
       (auto simp: walk_post_def idx_def intro!: exI [of _ "[]"] exI [of _ "mem s"] exI [of _ "free_head s"])
next
  case (Suc l)
  let ?k = "idx va (Suc l)"
  show ?case
  proof (cases "valid_pte (ent (mem s) r ?k)")
    case True
    let ?c = "PTE2PA (ent (mem s) r ?k)"
    have "pt_tree (mem s) l ?c" using Suc.prems(3) True by simp
    moreover have "pt_tables (mem s) l ?c \<inter> set ps = {}"
      using Suc.prems(4) unfolding tables_split [OF idx_less, of "mem s" l r va "Suc l"]
      using True by auto
    ultimately obtain pte t ps' where
      *: "walk_from l ?c va True s = Ret pte t" "walk_post l ?c va s ps pte t ps'"
      using Suc.IH [OF Suc.prems(1,2)] by blast
    have "walk_from (Suc l) r va True s = Ret pte t"
      using *(1) True by (simp add: Let_def load64_PX valid_pte_def)
    then show ?thesis
      using walk_post_present [OF Suc.prems(3,2,4) True *(2)] by blast
  next
    case False
    show ?thesis
    proof (cases ps)
      case Nil
      have "walk_from (Suc l) r va True s = Ret 0 s"
        using False Suc.prems(1,2) pm_zalloc_empty [of s] Nil
        by (simp add: Let_def load64_PX valid_pte_def)
      moreover have "walk_post (Suc l) r va s ps 0 s []"
        using Suc.prems False Nil
        by (auto simp: walk_post_def simp del: pt_tables.simps
            intro!: exI [of _ "mem s"] exI [of _ "free_head s"])
      ultimately show ?thesis by blast
    next
      case (Cons q qs)
      let ?u = "s\<lparr>free_head := ent (mem s) q 0,
        mem := set_ent r ?k (PA2PTE q OR PTE_V) (memset q 0 4096 (mem s))\<rparr>"
      have q: "q \<in> pages" "r \<in> pages" "q \<noteq> r"
        using pool_pages [OF Suc.prems(2)] Suc.prems(3,4) Cons by auto
      have pl: "pool s (q # qs)" using Suc.prems(2) Cons by simp
      note z = pm_zalloc_cons [OF Suc.prems(1) pl]
      have "pool ?u qs"
      proof (rule pool_frame [OF z(2)])
        fix p assume "p \<in> set qs"
        then have "p \<in> pages" "p \<noteq> r" using pool_pages [OF pl] Suc.prems(4) Cons by auto
        then show "ent (mem ?u) p 0 = ent (mem (s\<lparr>free_head := ent (mem s) q 0, mem := memset q 0 4096 (mem s)\<rparr>)) p 0"
          using q by (simp add: ent_set_ent pages_def)
      qed simp
      moreover have "pt_tree (mem ?u) l q" "pt_tables (mem ?u) l q = {q}"
        using pt_zero_page [of q "mem ?u" l] q by (simp_all add: ent_set_ent ent_memset pages_def)
      moreover have "q \<notin> set qs" using pl by (simp add: pool_def)
      ultimately obtain pte t ps' where
        *: "walk_from l q va True ?u = Ret pte t" "walk_post l q va ?u qs pte t ps'"
        using Suc.IH [of ?u qs q] Suc.prems(1) by auto
      have "walk_from (Suc l) r va True s = walk_from l q va True ?u"
        using False z(1) q(1) by (auto simp: Let_def load64_PX store64_PX valid_pte_def pages_def)
      then show ?thesis
        using walk_post_missing [OF Suc.prems(3) pl _ False refl *(2)] Suc.prems(4) Cons *(1)
        by (auto simp del: pt_tables.simps)
    qed
  qed
qed

section \<open>Address spaces\<close>

text \<open>
  \<open>vm_ok s ps root\<close>: the free list is \<open>ps\<close>, \<open>root\<close> is a well-formed three-level
  table, and no page of the table is free. \<open>pmap\<close> is the table as a function from
  addresses to entries, which is all a client sees of it.
\<close>

definition vm_ok :: "'z kmem_scheme \<Rightarrow> u64 list \<Rightarrow> u64 \<Rightarrow> bool" where
  "vm_ok s ps root \<longleftrightarrow> avail s L_free_list \<and> pool s ps \<and> pt_tree (mem s) 2 root \<and>
     pt_tables (mem s) 2 root \<inter> set ps = {}"

definition pmap :: "memory \<Rightarrow> u64 \<Rightarrow> u64 \<Rightarrow> u64" where
  "pmap m root va = pt_entry m 2 root va"

lemma unat_MAX_VADDR: "unat MAX_VADDR = 2 ^ 38"
  by (simp add: MAX_VADDR_def)

lemma same_path_iff:
  assumes "va < MAX_VADDR" "va' < MAX_VADDR"
  shows "same_path 2 va va' \<longleftrightarrow> unat va div 4096 = unat va' div 4096"
proof -
  have d: "n = (n div 262144 mod 512 * 512 + n div 512 mod 512) * 512 + n mod 512"
    if "n < 134217728" for n :: nat
  proof -
    have "n div 262144 < 512" using that by simp
    moreover have "n div 262144 = n div 512 div 512" by (simp flip: div_mult2_eq)
    ultimately have "n div 262144 mod 512 * 512 + n div 512 mod 512 = n div 512" by simp
    then show ?thesis by (metis div_mult_mod_eq)
  qed
  have i: "idx va k = unat va div 4096 div 512 ^ k mod 512" for va k
  proof -
    have "(2::nat) ^ PXSHIFT k = 4096 * 512 ^ k"
      by (simp add: PXSHIFT_def power_add power_mult)
    then show ?thesis by (simp add: idx_def unat_PX div_mult2_eq)
  qed
  have "unat va div 4096 < 134217728" "unat va' div 4096 < 134217728"
    using assms unat_MAX_VADDR by (simp_all add: word_less_nat_alt less_mult_imp_div_less)
  note da = d [OF this(1)] and db = d [OF this(2)]
  have all: "(\<forall>k\<le>2. P k) \<longleftrightarrow> P 0 \<and> P 1 \<and> P (2::nat)" for P
    by (auto simp: le_Suc_eq numeral_2_eq_2)
  show ?thesis
  proof
    assume "same_path 2 va va'"
    then have "unat va div 4096 mod 512 = unat va' div 4096 mod 512"
        "unat va div 4096 div 512 mod 512 = unat va' div 4096 div 512 mod 512"
        "unat va div 4096 div 262144 mod 512 = unat va' div 4096 div 262144 mod 512"
      unfolding same_path_def all by (simp_all add: i)
    then show "unat va div 4096 = unat va' div 4096" using da db by simp
  qed (simp add: same_path_def i)
qed

lemma same_path_page:
  assumes "page_aligned v" "v < MAX_VADDR" "va < MAX_VADDR"
  shows "same_path 2 v va \<longleftrightarrow> v \<le> va \<and> va < v + PAGE_SIZE"
proof -
  obtain k where k: "unat v = 4096 * k"
    using assms(1) unfolding page_aligned_iff by (metis dvd_def mod_eq_0_iff_dvd)
  have "unat (v + PAGE_SIZE) = unat v + 4096"
    using assms(2) unat_MAX_VADDR by (simp add: PAGE_SIZE_def word_less_nat_alt unat_word_ariths)
  then have "v \<le> va \<and> va < v + PAGE_SIZE \<longleftrightarrow> 4096 * k \<le> unat va \<and> unat va < 4096 * k + 4096"
    by (simp add: word_le_nat_alt word_less_nat_alt k)
  also have "\<dots> \<longleftrightarrow> unat va div 4096 = k"
    by (auto simp: div_nat_eqI)
  finally show ?thesis using same_path_iff [OF assms(2,3)] k by auto
qed

lemma vm_okD:
  assumes "vm_ok s ps root"
  shows "avail s L_free_list" "pool s ps" "pt_tree (mem s) 2 root"
    "pt_tables (mem s) 2 root \<inter> set ps = {}" "pt_tables (mem s) 2 root \<subseteq> pages" "set ps \<subseteq> pages"
  using assms pt_tables_pages [of "mem s" 2 root] pool_pages [of s ps] by (auto simp: vm_ok_def)

text \<open>Storing an entry through the pointer that \<^verbatim>\<open>walk\<close> found.\<close>

lemma store_entry:
  assumes ok: "vm_ok s ps root" and sl: "pt_slot (mem s) 2 root va = Some (p, i)"
  shows "vm_ok (s\<lparr>mem := set_ent p i v (mem s)\<rparr>) ps root"
    and "pt_tables (set_ent p i v (mem s)) 2 root = pt_tables (mem s) 2 root"
    and "pmap (set_ent p i v (mem s)) root va' = (if same_path 2 va va' then v else pmap (mem s) root va')"
    and "touches (pt_tables (mem s) 2 root) (mem s) (set_ent p i v (mem s))"
proof -
  note o = vm_okD [OF ok] and L = pt_set_leaf [OF vm_okD(3) [OF ok] sl, of v]
  have p: "p \<in> pt_tables (mem s) 2 root" "i < 512" using pt_slot_tables [OF sl] by auto
  have "pool (s\<lparr>mem := set_ent p i v (mem s)\<rparr>) ps"
  proof (rule pool_frame [OF o(2)])
    fix q assume "q \<in> set ps"
    then have "q \<in> pages" "q \<noteq> p" using o(4,6) p by auto
    then show "ent (mem (s\<lparr>mem := set_ent p i v (mem s)\<rparr>)) q 0 = ent (mem s) q 0"
      using p o(5) by (auto simp: ent_set_ent pages_def)
  qed simp
  then show "vm_ok (s\<lparr>mem := set_ent p i v (mem s)\<rparr>) ps root"
    using o(1,4) L(1,2) by (simp add: vm_ok_def)
  show "pt_tables (set_ent p i v (mem s)) 2 root = pt_tables (mem s) 2 root" by (rule L(2))
  show "pmap (set_ent p i v (mem s)) root va' = (if same_path 2 va va' then v else pmap (mem s) root va')"
    using L(4) by (simp add: pmap_def)
  show "touches (pt_tables (mem s) 2 root) (mem s) (set_ent p i v (mem s))"
    using p by (rule touches_set_ent)
qed

lemma pmap_slot:
  "valid_pte (pmap m root va) \<Longrightarrow> \<exists>p i. pt_slot m 2 root va = Some (p, i) \<and> pmap m root va = ent m p i"
  by (auto simp: pmap_def pt_entry_def split: option.splits)

text \<open>
  What an operation on the address space may change: only the bytes of the pages in
  \<open>W\<close>, and the table and the free list stay within \<open>W\<close>.
\<close>

definition vm_step :: "u64 set \<Rightarrow> u64 \<Rightarrow> 'z kmem_scheme \<Rightarrow> 'z kmem_scheme \<Rightarrow> u64 list \<Rightarrow> bool" where
  "vm_step W root s t ps' \<longleftrightarrow> vm_ok t ps' root \<and>
     pt_tables (mem s) 2 root \<subseteq> pt_tables (mem t) 2 root \<and>
     pt_tables (mem t) 2 root \<union> set ps' \<subseteq> W \<and>
     touches W (mem s) (mem t) \<and> (\<exists>m h. t = s\<lparr>mem := m, free_head := h\<rparr>)"

lemma vm_step_trans:
  assumes "vm_step W root s t ps" "vm_step W root t u ps'"
  shows "vm_step W root s u ps'"
proof -
  from assms obtain m h m' h' where
    "t = s\<lparr>mem := m, free_head := h\<rparr>" "u = t\<lparr>mem := m', free_head := h'\<rparr>"
    unfolding vm_step_def by blast
  then have "u = s\<lparr>mem := m', free_head := h'\<rparr>" by simp
  then show ?thesis using assms unfolding vm_step_def by (blast intro: touches_trans)
qed

lemma vm_step_refl:
  "vm_ok s ps root \<Longrightarrow> pt_tables (mem s) 2 root \<union> set ps \<subseteq> W \<Longrightarrow> vm_step W root s s ps"
  unfolding vm_step_def by (auto intro!: exI [of _ "mem s"] exI [of _ "free_head s"])

lemma walk_alloc:
  assumes ok: "vm_ok s ps root" and va: "va < MAX_VADDR"
    and W: "pt_tables (mem s) 2 root \<union> set ps \<subseteq> W"
  shows "\<exists>pte t ps'. walk root va True s = Ret pte t \<and> (\<exists>qs. ps = qs @ ps') \<and>
    vm_step W root s t ps' \<and> pmap (mem t) root = pmap (mem s) root \<and>
    (pte = 0 \<and> ps' = [] \<or>
     pte \<noteq> 0 \<and> (\<exists>p i. pt_slot (mem t) 2 root va = Some (p, i) \<and> pte = pte_addr (Some (p, i))))"
proof -
  note o = vm_okD [OF ok]
  obtain pte t ps' where w: "walk_from 2 root va True s = Ret pte t" "walk_post 2 root va s ps pte t ps'"
    using walk_from_alloc [OF o(1-4)] by blast
  then obtain qs h where q: "ps = qs @ ps'" "t = s\<lparr>mem := mem t, free_head := h\<rparr>"
      "pt_tables (mem t) 2 root = pt_tables (mem s) 2 root \<union> set qs"
      "touches (pt_tables (mem s) 2 root \<union> set qs) (mem s) (mem t)"
    by (auto simp: walk_post_def)
  have p: "pool t ps'" "pt_tree (mem t) 2 root" "pmap (mem t) root = pmap (mem s) root"
      "pte = pte_addr (pt_slot (mem t) 2 root va)" "pt_slot (mem t) 2 root va = None \<longrightarrow> ps' = []"
    using w(2) by (auto simp: walk_post_def pmap_def fun_eq_iff pte_addr_def)
  have "avail t L_free_list" by (subst q(2)) (simp add: o(1))
  moreover have "pt_tables (mem t) 2 root \<inter> set ps' = {}"
    using q(1,3) o(2,4) by (auto simp: pool_def)
  ultimately have "vm_ok t ps' root" using p by (simp add: vm_ok_def)
  moreover have "touches W (mem s) (mem t)"
    by (rule touches_mono [OF q(4)]) (use q(1) W in auto)
  ultimately have "vm_step W root s t ps'"
    using q W by (auto simp: vm_step_def)
  moreover have "pte = 0 \<and> ps' = [] \<or>
     pte \<noteq> 0 \<and> (\<exists>p i. pt_slot (mem t) 2 root va = Some (p, i) \<and> pte = pte_addr (Some (p, i)))"
    using p(4,5) pte_addr_eq_0 [OF p(2), of va] by (cases "pt_slot (mem t) 2 root va") auto
  moreover have "walk root va True s = Ret pte t" using w(1) va by (simp add: walk_def linorder_not_le [symmetric])
  ultimately show ?thesis using q(1) p(3) by blast
qed

lemma pt_untouched:
  assumes "touches X m m'" "X \<subseteq> pages" "X \<inter> pt_tables m l r = {}" "pt_tree m l r"
  shows "pt_tree m' l r" "pt_tables m' l r = pt_tables m l r" "pt_slot m' l r va = pt_slot m l r va"
    "pt_entry m' l r va = pt_entry m l r va"
proof -
  note tp = pt_tables_pages [OF assms(4)]
  have e: "ent m' p i = ent m p i" if "p \<in> pt_tables m l r" "i < 512" for p i
    using touches_ent [OF assms(1,2) _ _ that(2), of p] that(1) assms(3) tp by blast
  have c: "pt_tables m' l r = pt_tables m l r \<and> pt_upper m' l r = pt_upper m l r \<and>
    pt_tree m' l r = pt_tree m l r \<and> pt_slot m' l r va = pt_slot m l r va"
    by (rule pt_cong) (use e pt_upper_tables in blast)
  then show "pt_tree m' l r" "pt_tables m' l r = pt_tables m l r" "pt_slot m' l r va = pt_slot m l r va"
    using assms(4) by auto
  show "pt_entry m' l r va = pt_entry m l r va"
  proof (cases "pt_slot m l r va")
    case (Some x)
    then obtain p i where x: "pt_slot m l r va = Some (p, i)" by (cases x) auto
    then show ?thesis using c e [of p i] pt_slot_tables [OF x] by (simp add: pt_entry_def)
  qed (use c in \<open>simp add: pt_entry_def\<close>)
qed

text \<open>Freeing a page that is neither free nor part of the table.\<close>

lemma vm_free:
  assumes ok: "vm_ok s ps root" and f: "f \<in> pages - set ps - pt_tables (mem s) 2 root"
    and W: "pt_tables (mem s) 2 root \<union> set ps \<union> {f} \<subseteq> W"
  shows "\<exists>t. pm_free f s = Ret () t \<and> vm_step W root s t (f # ps) \<and>
    pmap (mem t) root = pmap (mem s) root \<and> (\<forall>va. pt_slot (mem t) 2 root va = pt_slot (mem s) 2 root va)"
proof -
  let ?m = "set_ent f 0 (free_head s) (mem s)"
  let ?t = "s\<lparr>mem := ?m, free_head := f\<rparr>"
  note o = vm_okD [OF ok]
  have tc: "touches {f} (mem s) ?m" by (rule touches_set_ent) simp_all
  note U = pt_untouched [OF tc _ _ o(3)]
  have "pool ?t (f # ps)" using f by (intro pm_free_pool [OF o(2)]) (auto simp: pages_def)
  then have "vm_ok ?t (f # ps) root" using U(1,2) f o(1,4) by (auto simp: vm_ok_def)
  then have "vm_step W root s ?t (f # ps)"
    using U(2) f W touches_mono [OF tc, of W] unfolding vm_step_def by auto
  moreover have "pmap (mem ?t) root = pmap (mem s) root" "pt_slot (mem ?t) 2 root va = pt_slot (mem s) 2 root va" for va
    using U(3,4) f by (auto simp: pmap_def fun_eq_iff)
  ultimately show ?thesis using pm_free_eq [OF o(1), of f] by blast
qed

lemma unmap_page_ok:
  assumes ok: "vm_ok s ps root" and u: "u < MAX_VADDR"
    and e: "valid_pte (pmap (mem s) root u)" "PTE_FLAGS (pmap (mem s) root u) \<noteq> PTE_V"
    and f: "free \<Longrightarrow> PTE2PA (pmap (mem s) root u) \<in> pages - set ps - pt_tables (mem s) 2 root"
    and W: "pt_tables (mem s) 2 root \<union> set ps \<union> (if free then {PTE2PA (pmap (mem s) root u)} else {}) \<subseteq> W"
  shows "\<exists>t. unmap_page root free u s = Ret () t \<and>
    vm_step W root s t (if free then PTE2PA (pmap (mem s) root u) # ps else ps) \<and>
    pt_tables (mem t) 2 root = pt_tables (mem s) 2 root \<and>
    (\<forall>va. pmap (mem t) root va = (if same_path 2 u va then 0 else pmap (mem s) root va))"
proof -
  let ?e = "pmap (mem s) root u"
  let ?ps = "if free then PTE2PA ?e # ps else ps"
  note o = vm_okD [OF ok]
  obtain p i where sl: "pt_slot (mem s) 2 root u = Some (p, i)" "?e = ent (mem s) p i"
    using pmap_slot [OF e(1)] by blast
  obtain t where t: "whenK free (pm_free (PTE2PA ?e)) s = Ret () t" "vm_step W root s t ?ps"
      "pmap (mem t) root = pmap (mem s) root" "pt_slot (mem t) 2 root u = Some (p, i)"
  proof (cases free)
    case True
    then show ?thesis using vm_free [OF ok f [OF True], of W] W that sl(1) by auto
  next
    case False
    then show ?thesis using that sl(1) vm_step_refl [OF ok, of W] W by auto
  qed
  have tb: "pt_tables (mem t) 2 root = pt_tables (mem s) 2 root"
  proof (cases free)
    case True
    have tc: "touches {PTE2PA ?e} (mem s) (mem t)"
      using t(1) True pm_free_eq [OF o(1), of "PTE2PA ?e"] touches_set_ent [of "PTE2PA ?e" "{PTE2PA ?e}" 0]
      by auto
    show ?thesis using pt_untouched(2) [OF tc _ _ o(3)] f [OF True] by auto
  qed (use t(1) in simp)
  have okt: "vm_ok t ?ps root" and Wt: "pt_tables (mem t) 2 root \<union> set ?ps \<subseteq> W"
    using t(2) by (auto simp: vm_step_def)
  let ?t = "t\<lparr>mem := set_ent p i 0 (mem t)\<rparr>"
  note S = store_entry [OF okt t(4), of 0]
  have st: "vm_step W root t ?t ?ps"
  proof -
    have "\<exists>m h. ?t = t\<lparr>mem := m, free_head := h\<rparr>"
      by (intro exI [of _ "set_ent p i 0 (mem t)"] exI [of _ "free_head t"]) simp
    then show ?thesis
      using S(1,2,4) Wt touches_mono [OF S(4), of W] unfolding vm_step_def by auto
  qed
  have a: "pte_addr (Some (p, i)) \<noteq> 0" using pte_addr_nonzero [OF o(3) sl(1)] .
  have "unmap_page root free u s = Ret () ?t"
    using u a e sl t(1)
    by (cases free)
       (simp_all add: unmap_page_def walk_lookup linorder_not_le [symmetric]
        pte_addr_load [OF sl(1), unfolded sl(1)] pte_addr_store [OF sl(1), unfolded sl(1)] valid_pte_def)
  moreover have "vm_step W root s ?t ?ps" using vm_step_trans [OF t(2) st] .
  ultimately show ?thesis using S(2,3) t(3) tb by auto
qed

text \<open>Mapping one page: the body of the loop of \<^verbatim>\<open>map_pages\<close> on its successful path.\<close>

lemma map_page_ok:
  assumes ok: "vm_ok s ps root" and v: "v < MAX_VADDR" "\<not> valid_pte (pmap (mem s) root v)"
    and W: "pt_tables (mem s) 2 root \<union> set ps \<subseteq> W"
  shows "\<exists>pte t ps'. walk root v True s = Ret pte t \<and> (\<exists>qs. ps = qs @ ps') \<and>
    vm_step W root s t ps' \<and> pmap (mem t) root = pmap (mem s) root \<and>
    (pte = 0 \<and> ps' = [] \<or>
     pte \<noteq> 0 \<and> load64 (mem t) pte AND PTE_V = 0 \<and>
     (\<forall>x. vm_step W root s (t\<lparr>mem := store64 pte x (mem t)\<rparr>) ps' \<and>
          (\<forall>va. pmap (store64 pte x (mem t)) root va = (if same_path 2 v va then x else pmap (mem s) root va))))"
proof -
  obtain pte t ps' where w: "walk root v True s = Ret pte t" "\<exists>qs. ps = qs @ ps'"
      "vm_step W root s t ps'" "pmap (mem t) root = pmap (mem s) root"
      "pte = 0 \<and> ps' = [] \<or>
       pte \<noteq> 0 \<and> (\<exists>p i. pt_slot (mem t) 2 root v = Some (p, i) \<and> pte = pte_addr (Some (p, i)))"
    using walk_alloc [OF ok v(1) W] by blast
  show ?thesis
  proof (cases "pte = 0")
    case True
    then show ?thesis using w by blast
  next
    case False
    then obtain p i where sl: "pt_slot (mem t) 2 root v = Some (p, i)" "pte = pte_addr (Some (p, i))"
      using w(5) by blast
    have okt: "vm_ok t ps' root" and Wt: "pt_tables (mem t) 2 root \<union> set ps' \<subseteq> W"
      using w(3) by (auto simp: vm_step_def)
    note ls = pte_addr_load [OF sl(1), unfolded sl(1)] pte_addr_store [OF sl(1), unfolded sl(1)]
    note S = store_entry [OF okt sl(1)]
    have "load64 (mem t) pte = pmap (mem t) root v"
      by (simp add: sl(2) ls pmap_def pt_entry_def sl(1))
    then have "load64 (mem t) pte AND PTE_V = 0" using v(2) w(4) by (simp add: valid_pte_def)
    moreover have "vm_step W root s (t\<lparr>mem := store64 pte x (mem t)\<rparr>) ps'" for x
    proof (rule vm_step_trans [OF w(3)])
      have "\<exists>m h. t\<lparr>mem := set_ent p i x (mem t)\<rparr> = t\<lparr>mem := m, free_head := h\<rparr>"
        by (intro exI [of _ "set_ent p i x (mem t)"] exI [of _ "free_head t"]) simp
      then show "vm_step W root t (t\<lparr>mem := store64 pte x (mem t)\<rparr>) ps'"
        unfolding sl(2) ls using S(1,2) Wt touches_mono [OF S(4), of W] by (auto simp: vm_step_def)
    qed
    moreover have "pmap (store64 pte x (mem t)) root va = (if same_path 2 v va then x else pmap (mem s) root va)" for x va
      unfolding sl(2) ls using S(3) w(4) by simp
    ultimately show ?thesis using w False by blast
  qed
qed

section \<open>Mapping and unmapping ranges\<close>

lemma round_down_le: "PAGE_ROUND_DOWN va \<le> va" and round_down_aligned: "page_aligned (PAGE_ROUND_DOWN va)"
  by (simp_all add: word_le_nat_alt unat_PAGE_ROUND_DOWN page_aligned_iff)

lemma less_round_down:
  assumes "va < MAX_VADDR" shows "va < PAGE_ROUND_DOWN va + PAGE_SIZE"
proof -
  have "unat va < 2 ^ 38" using assms unat_MAX_VADDR by (simp add: word_less_nat_alt)
  moreover have "unat va < unat va div 4096 * 4096 + 4096"
    using div_mult_mod_eq [of "unat va" 4096] mod_less_divisor [of 4096 "unat va"] by linarith
  moreover have "unat va div 4096 * 4096 \<le> unat va" by simp
  ultimately show ?thesis
    by (simp add: word_less_nat_alt PAGE_SIZE_def unat_word_ariths unat_PAGE_ROUND_DOWN)
qed

lemma in_some_page:
  assumes "page_aligned a" "page_aligned b" "b \<le> MAX_VADDR" "va < MAX_VADDR"
  shows "(\<exists>v\<in>set (page_range a b). v \<le> va \<and> va < v + PAGE_SIZE) \<longleftrightarrow> a \<le> va \<and> va < b"
proof -
  obtain k l where kl: "unat a = 4096 * k" "unat b = 4096 * l"
    using assms(1,2) unfolding page_aligned_iff by (metis dvd_def mod_eq_0_iff_dvd)
  have "v \<le> va \<and> va < v + PAGE_SIZE \<longleftrightarrow> unat v \<le> unat va \<and> unat va < unat v + 4096" if "v < b" for v
  proof -
    have "unat (v + PAGE_SIZE) = unat v + 4096"
      using that assms(3) unat_MAX_VADDR
      by (simp add: PAGE_SIZE_def word_less_nat_alt word_le_nat_alt unat_word_ariths)
    then show ?thesis by (simp add: word_less_nat_alt word_le_nat_alt)
  qed
  then have "(\<exists>v\<in>set (page_range a b). v \<le> va \<and> va < v + PAGE_SIZE) \<longleftrightarrow>
      (\<exists>v. page_aligned v \<and> a \<le> v \<and> v < b \<and> unat v \<le> unat va \<and> unat va < unat v + 4096)"
    unfolding page_range_aligned(1) [OF assms(1,2)] by blast
  also have "\<dots> \<longleftrightarrow> 4096 * k \<le> unat va \<and> unat va < 4096 * l"
  proof
    assume "\<exists>v. page_aligned v \<and> a \<le> v \<and> v < b \<and> unat v \<le> unat va \<and> unat va < unat v + 4096"
    then obtain v j where "unat v = 4096 * j" "a \<le> v" "v < b" "unat v \<le> unat va" "unat va < unat v + 4096"
      unfolding page_aligned_iff by (metis dvd_def mod_eq_0_iff_dvd)
    then show "4096 * k \<le> unat va \<and> unat va < 4096 * l"
      using kl by (auto simp: word_less_nat_alt word_le_nat_alt)
  next
    assume r: "4096 * k \<le> unat va \<and> unat va < 4096 * l"
    let ?v = "PAGE_ROUND_DOWN va"
    have v: "unat ?v = 4096 * (unat va div 4096)" by (simp add: unat_PAGE_ROUND_DOWN)
    have "k \<le> unat va div 4096" "unat va div 4096 < l"
      using r by (auto simp: less_eq_div_iff_mult_less_eq div_less_iff_less_mult mult.commute)
    moreover have "unat va < 4096 * (unat va div 4096) + 4096"
      using div_mult_mod_eq [of "unat va" 4096] mod_less_divisor [of 4096 "unat va"] by linarith
    ultimately have "page_aligned ?v \<and> a \<le> ?v \<and> ?v < b \<and> unat ?v \<le> unat va \<and> unat va < unat ?v + 4096"
      using round_down_aligned kl v by (auto simp: word_less_nat_alt word_le_nat_alt)
    then show "\<exists>v. page_aligned v \<and> a \<le> v \<and> v < b \<and> unat v \<le> unat va \<and> unat va < unat v + 4096" by blast
  qed
  finally show ?thesis by (simp add: kl word_less_nat_alt word_le_nat_alt)
qed

lemma unmap_loop:
  assumes "vm_ok s ps root" "distinct xs"
    and "\<And>v. v \<in> set xs \<Longrightarrow> page_aligned v \<and> v < MAX_VADDR \<and> valid_pte (pmap (mem s) root v) \<and>
      PTE_FLAGS (pmap (mem s) root v) \<noteq> PTE_V"
    and "free \<Longrightarrow> (\<forall>v\<in>set xs. PTE2PA (pmap (mem s) root v) \<in> pages - set ps - pt_tables (mem s) 2 root) \<and>
      distinct (map (\<lambda>v. PTE2PA (pmap (mem s) root v)) xs)"
    and "pt_tables (mem s) 2 root \<union> set ps \<union>
      (if free then set (map (\<lambda>v. PTE2PA (pmap (mem s) root v)) xs) else {}) \<subseteq> W"
  shows "\<exists>t. forK xs (unmap_page root free) s = Ret () t \<and>
    vm_step W root s t (if free then rev (map (\<lambda>v. PTE2PA (pmap (mem s) root v)) xs) @ ps else ps) \<and>
    pt_tables (mem t) 2 root = pt_tables (mem s) 2 root \<and>
    (\<forall>va<MAX_VADDR. pmap (mem t) root va =
       (if \<exists>v\<in>set xs. v \<le> va \<and> va < v + PAGE_SIZE then 0 else pmap (mem s) root va))"
  using assms
proof (induction xs arbitrary: s ps)
  case Nil
  then show ?case using vm_step_refl [of s ps root W] by auto
next
  case (Cons x xs)
  let ?F = "\<lambda>v. PTE2PA (pmap (mem s) root v)"
  have x: "page_aligned x" "x < MAX_VADDR" "valid_pte (pmap (mem s) root x)"
      "PTE_FLAGS (pmap (mem s) root x) \<noteq> PTE_V"
    using Cons.prems(3) by auto
  have fx: "?F x \<in> pages - set ps - pt_tables (mem s) 2 root" if free
    using Cons.prems(4) [OF that] by simp
  have Wx: "pt_tables (mem s) 2 root \<union> set ps \<union> (if free then {?F x} else {}) \<subseteq> W"
    using Cons.prems(5) by (auto split: if_splits)
  obtain t where t: "unmap_page root free x s = Ret () t"
      "vm_step W root s t (if free then ?F x # ps else ps)"
      "pt_tables (mem t) 2 root = pt_tables (mem s) 2 root"
      "\<And>va. pmap (mem t) root va = (if same_path 2 x va then 0 else pmap (mem s) root va)"
    using unmap_page_ok [OF Cons.prems(1) x(2-4) fx Wx] by blast
  have keep: "pmap (mem t) root v = pmap (mem s) root v" if "v \<in> set xs" for v
  proof -
    have v: "page_aligned v" "v < MAX_VADDR" "v \<noteq> x" using Cons.prems(2,3) that by auto
    then have "unat x div 4096 \<noteq> unat v div 4096"
      using x(1) unfolding page_aligned_iff word_unat_eq_iff by (metis mod_0_imp_dvd dvd_div_eq_cancel)
    then show ?thesis using t(4) same_path_iff [OF x(2) v(2)] by simp
  qed
  have mp: "map (\<lambda>v. PTE2PA (pmap (mem t) root v)) xs = map ?F xs" using keep by simp
  have ok: "vm_ok t (if free then ?F x # ps else ps) root" using t(2) by (simp add: vm_step_def)
  have lst: "(if free then rev (map (\<lambda>v. PTE2PA (pmap (mem t) root v)) xs) @
      (if free then ?F x # ps else ps) else (if free then ?F x # ps else ps)) =
      (if free then rev (map ?F (x # xs)) @ ps else ps)"
    unfolding mp by simp
  have "\<exists>u. forK xs (unmap_page root free) t = Ret () u \<and>
    vm_step W root t u (if free then rev (map (\<lambda>v. PTE2PA (pmap (mem t) root v)) xs) @
      (if free then ?F x # ps else ps) else (if free then ?F x # ps else ps)) \<and>
    pt_tables (mem u) 2 root = pt_tables (mem t) 2 root \<and>
    (\<forall>va<MAX_VADDR. pmap (mem u) root va =
       (if \<exists>v\<in>set xs. v \<le> va \<and> va < v + PAGE_SIZE then 0 else pmap (mem t) root va))"
  proof (rule Cons.IH [OF ok])
    show "distinct xs" using Cons.prems(2) by simp
    show "page_aligned v \<and> v < MAX_VADDR \<and> valid_pte (pmap (mem t) root v) \<and>
      PTE_FLAGS (pmap (mem t) root v) \<noteq> PTE_V" if "v \<in> set xs" for v
      using Cons.prems(3) that keep by simp
    show "(\<forall>v\<in>set xs. PTE2PA (pmap (mem t) root v) \<in> pages - set (if free then ?F x # ps else ps) -
        pt_tables (mem t) 2 root) \<and> distinct (map (\<lambda>v. PTE2PA (pmap (mem t) root v)) xs)" if free
      unfolding mp t(3) using Cons.prems(4) that keep by (auto simp: image_iff)
    show "pt_tables (mem t) 2 root \<union> set (if free then ?F x # ps else ps) \<union>
      (if free then set (map (\<lambda>v. PTE2PA (pmap (mem t) root v)) xs) else {}) \<subseteq> W"
      unfolding mp t(3) using Cons.prems(5) by (auto split: if_splits)
  qed
  then obtain u where u: "forK xs (unmap_page root free) t = Ret () u"
      "vm_step W root t u (if free then rev (map ?F (x # xs)) @ ps else ps)"
      "pt_tables (mem u) 2 root = pt_tables (mem t) 2 root"
      "\<And>va. va < MAX_VADDR \<Longrightarrow> pmap (mem u) root va =
         (if \<exists>v\<in>set xs. v \<le> va \<and> va < v + PAGE_SIZE then 0 else pmap (mem t) root va)"
    unfolding lst by blast
  have "forK (x # xs) (unmap_page root free) s = Ret () u" using t(1) u(1) by simp
  moreover have "pmap (mem u) root va =
      (if \<exists>v\<in>set (x # xs). v \<le> va \<and> va < v + PAGE_SIZE then 0 else pmap (mem s) root va)"
    if "va < MAX_VADDR" for va
    using u(4) [OF that] t(4) same_path_page [OF x(1,2) that] by auto
  ultimately show ?case using vm_step_trans [OF t(2) u(2)] t(3) u(3) by blast
qed

definition leaf_pte :: "u64 \<Rightarrow> u64 \<Rightarrow> u64" where
  "leaf_pte pa perm = PA2PTE pa OR PTE_V OR perm"

lemma leaf_pte_valid [simp]: "valid_pte (leaf_pte pa perm)"
proof -
  have "leaf_pte pa perm = (PA2PTE pa OR perm) OR PTE_V" by (simp add: leaf_pte_def ac_simps)
  then show ?thesis by (simp only: valid_link)
qed

lemma leaf_perm_less: "perm < 0x400 \<Longrightarrow> PTE_V OR perm < 0x400"
proof -
  assume "perm < 0x400"
  then have "take_bit 10 perm = perm" by (rule flags_bits)
  then have "take_bit 10 (PTE_V OR perm) = PTE_V OR perm" by (simp add: PTE_V_def)
  then have "unat (PTE_V OR perm) = unat (PTE_V OR perm) mod 1024"
    using unat_take_bit_mod [of 10 "PTE_V OR perm"] by simp
  moreover have "unat (PTE_V OR perm) mod 1024 < 1024" by simp
  ultimately show ?thesis by (simp add: word_less_nat_alt)
qed

lemma leaf_pte_flags: "perm < 0x400 \<Longrightarrow> PTE_FLAGS (leaf_pte pa perm) = PTE_V OR perm"
  and leaf_pte_pa: "perm < 0x400 \<Longrightarrow> page_aligned pa \<Longrightarrow> PTE2PA (leaf_pte pa perm) = pa"
  using leaf_perm_less by (simp_all add: leaf_pte_def or.assoc PTE_FLAGS_pack PTE2PA_pack)

lemma aligned_less: "page_aligned a \<Longrightarrow> page_aligned b \<Longrightarrow> a < b \<Longrightarrow> b \<le> MAX_VADDR \<Longrightarrow>
  a + PAGE_SIZE \<le> b \<and> unat (a + PAGE_SIZE) = unat a + 4096 \<and> page_aligned (a + PAGE_SIZE)"
proof -
  assume *: "page_aligned a" "page_aligned b" "a < b" "b \<le> MAX_VADDR"
  obtain k l where kl: "unat a = 4096 * k" "unat b = 4096 * l"
    using *(1,2) unfolding page_aligned_iff by (metis dvd_def mod_eq_0_iff_dvd)
  have "unat (a + PAGE_SIZE) = unat a + 4096"
    using *(3,4) unat_MAX_VADDR
    by (simp add: PAGE_SIZE_def word_less_nat_alt word_le_nat_alt unat_word_ariths)
  then show ?thesis using *(3) kl by (auto simp: word_less_nat_alt word_le_nat_alt page_aligned_iff)
qed

text \<open>
  The whole range \<open>[va, fin)\<close> is mapped, or the free list ran out and the pages mapped
  so far are unmapped again.
\<close>

lemma map_loop_ok:
  assumes "vm_ok s ps root" "page_aligned va" "page_aligned cur" "page_aligned fin"
    and "va \<le> cur" "cur \<le> fin" "fin \<le> MAX_VADDR"
    and "perm < 0x400" "PTE_V OR perm \<noteq> PTE_V"
    and "pt_tables (mem s) 2 root \<union> set ps \<subseteq> W"
    and "\<And>v. v < MAX_VADDR \<Longrightarrow> pmap (mem s) root v =
      (if va \<le> v \<and> v < cur then leaf_pte (pa + (PAGE_ROUND_DOWN v - va)) perm else f v)"
    and "\<And>v. cur \<le> v \<Longrightarrow> v < fin \<Longrightarrow> \<not> valid_pte (f v)"
  shows "\<exists>r t ps'. map_loop root va perm (page_range cur fin) (pa + (cur - va)) s = Ret r t \<and>
    (\<exists>qs. ps = qs @ ps') \<and> vm_step W root s t ps' \<and>
    (r = 0 \<and> (\<forall>v<MAX_VADDR. pmap (mem t) root v =
        (if va \<le> v \<and> v < fin then leaf_pte (pa + (PAGE_ROUND_DOWN v - va)) perm else f v)) \<or>
     r = -1 \<and> ps' = [] \<and> (\<exists>c\<le>fin. \<forall>v<MAX_VADDR. pmap (mem t) root v = (if va \<le> v \<and> v < c then 0 else f v)))"
  using assms(1,3,5,6,10-12)
proof (induction "unat fin - unat cur" arbitrary: s ps cur rule: less_induct)
  case less
  note ok = less.prems(1) and cur = less.prems(2-4) and W = less.prems(5) and pm = less.prems(6)
    and nv = less.prems(7)
  show ?case
  proof (cases "cur < fin")
    case False
    then have "cur = fin" using cur(3) by simp
    then have "page_range cur fin = []" by (simp add: page_range_empty)
    then show ?thesis using vm_step_refl [OF ok W] pm \<open>cur = fin\<close> by auto
  next
    case True
    have lm: "unat fin \<le> 2 ^ 64 - 4096" using assms(7) unat_MAX_VADDR by (simp add: word_le_nat_alt)
    note nx = aligned_less [OF cur(1) assms(4) True assms(7)]
    have cm: "cur < MAX_VADDR" using True assms(7) by simp
    have pr: "page_range cur fin = cur # page_range (cur + PAGE_SIZE) fin"
      by (rule page_range_unfold [OF True lm])
    have ncur: "\<not> valid_pte (pmap (mem s) root cur)" using pm [OF cm] nv [of cur] True by simp
    obtain pte t ps' where w: "walk root cur True s = Ret pte t" "\<exists>qs. ps = qs @ ps'"
        "vm_step W root s t ps'" "pmap (mem t) root = pmap (mem s) root"
        "pte = 0 \<and> ps' = [] \<or> pte \<noteq> 0 \<and> load64 (mem t) pte AND PTE_V = 0 \<and>
          (\<forall>x. vm_step W root s (t\<lparr>mem := store64 pte x (mem t)\<rparr>) ps' \<and>
          (\<forall>va. pmap (store64 pte x (mem t)) root va = (if same_path 2 cur va then x else pmap (mem s) root va)))"
      using map_page_ok [OF ok cm ncur W] by blast
    show ?thesis
    proof (cases "pte = 0")
      case True
      note al = page_range_aligned [OF assms(2) cur(1)]
      have okt: "vm_ok t ps' root" and Wt: "pt_tables (mem t) 2 root \<union> set ps' \<subseteq> W"
        using w(3) by (auto simp: vm_step_def)
      have each: "page_aligned v \<and> v < MAX_VADDR \<and> valid_pte (pmap (mem t) root v) \<and>
          PTE_FLAGS (pmap (mem t) root v) \<noteq> PTE_V" if "v \<in> set (page_range va cur)" for v
      proof -
        have v: "page_aligned v" "va \<le> v" "v < cur" using that al(1) by auto
        moreover have "v < MAX_VADDR" using v(3) cm by simp
        ultimately show ?thesis using pm [of v] w(4) assms(9) leaf_pte_flags [OF assms(8)] by simp
      qed
      obtain u where u: "forK (page_range va cur) (unmap_page root False) t = Ret () u"
          "vm_step W root t u ps'"
          "\<And>v. v < MAX_VADDR \<Longrightarrow> pmap (mem u) root v =
            (if \<exists>x\<in>set (page_range va cur). x \<le> v \<and> v < x + PAGE_SIZE then 0 else pmap (mem t) root v)"
        using unmap_loop [OF okt al(2) each, of False W] Wt by auto
      have ar: "va mod PAGE_SIZE = 0" "(cur - va) mod PAGE_SIZE = 0"
      proof -
        show "va mod PAGE_SIZE = 0" using assms(2) by (simp add: page_aligned_def)
        have "unat (cur - va) = unat cur - unat va" using cur(2) by (rule unat_sub)
        then have "page_aligned (cur - va)"
          using assms(2) cur(1) unfolding page_aligned_iff by (metis dvd_diff_nat mod_eq_0_iff_dvd)
        then show "(cur - va) mod PAGE_SIZE = 0" by (simp add: page_aligned_def)
      qed
      have "map_loop root va perm (page_range cur fin) (pa + (cur - va)) s = Ret (-1) u"
        using w(1) True u(1) ar by (simp add: pr unmap_pages_def)
      moreover have "pmap (mem u) root v = (if va \<le> v \<and> v < cur then 0 else f v)" if "v < MAX_VADDR" for v
        using u(3) [OF that] in_some_page [OF assms(2) cur(1) less_imp_le [OF cm] that] pm [OF that] w(4)
        by auto
      moreover have "ps' = []" using w(5) True by simp
      ultimately show ?thesis using w(2) vm_step_trans [OF w(3) u(2)] cur(3) by blast
    next
      case False
      let ?e = "leaf_pte (pa + (cur - va)) perm"
      let ?t = "t\<lparr>mem := store64 pte ?e (mem t)\<rparr>"
      have st: "vm_step W root s ?t ps'" and
        sp: "\<And>v. pmap (mem ?t) root v = (if same_path 2 cur v then ?e else pmap (mem s) root v)"
        using w(5) False by auto
      have okt: "vm_ok ?t ps' root" and Wt: "pt_tables (mem ?t) 2 root \<union> set ps' \<subseteq> W"
        using st by (auto simp: vm_step_def)
      have step: "map_loop root va perm (page_range cur fin) (pa + (cur - va)) s =
          map_loop root va perm (page_range (cur + PAGE_SIZE) fin) (pa + (cur + PAGE_SIZE - va)) ?t"
        using w(1,5) False by (simp add: pr leaf_pte_def algebra_simps)
      have pm': "pmap (mem ?t) root v =
          (if va \<le> v \<and> v < cur + PAGE_SIZE then leaf_pte (pa + (PAGE_ROUND_DOWN v - va)) perm else f v)"
        if v: "v < MAX_VADDR" for v
      proof -
        have "PAGE_ROUND_DOWN v = cur" if "cur \<le> v \<and> v < cur + PAGE_SIZE"
        proof -
          have "unat cur div 4096 = unat v div 4096"
            using that same_path_page [OF cur(1) cm v] same_path_iff [OF cm v] by blast
          then show ?thesis
            using cur(1) by (auto simp: word_unat_eq_iff unat_PAGE_ROUND_DOWN page_aligned_iff)
        qed
        moreover have "cur \<le> v \<and> v < cur + PAGE_SIZE \<or> \<not> (cur \<le> v \<and> v < cur + PAGE_SIZE)" by blast
        moreover have "va \<le> v" if "cur \<le> v" using that cur(2) by simp
        moreover have "v < cur + PAGE_SIZE" if "v < cur" using that nx by (auto simp: word_less_nat_alt)
        ultimately show ?thesis
          using sp [of v] pm [OF v] same_path_page [OF cur(1) cm v] by (auto simp: not_le not_less)
      qed
      have "unat fin - unat (cur + PAGE_SIZE) < unat fin - unat cur"
        using nx True \<open>cur < fin\<close> by (auto simp: word_less_nat_alt)
      moreover have "va \<le> cur + PAGE_SIZE" using cur(2) nx by (auto simp: word_le_nat_alt)
      moreover have "\<not> valid_pte (f v)" if "cur + PAGE_SIZE \<le> v" "v < fin" for v
        using nv [of v] that nx by (auto simp: word_le_nat_alt)
      ultimately obtain r u ps'' where
        "map_loop root va perm (page_range (cur + PAGE_SIZE) fin) (pa + (cur + PAGE_SIZE - va)) ?t = Ret r u"
        "\<exists>qs. ps' = qs @ ps''" "vm_step W root ?t u ps''"
        "r = 0 \<and> (\<forall>v<MAX_VADDR. pmap (mem u) root v =
          (if va \<le> v \<and> v < fin then leaf_pte (pa + (PAGE_ROUND_DOWN v - va)) perm else f v)) \<or>
         r = -1 \<and> ps'' = [] \<and> (\<exists>c\<le>fin. \<forall>v<MAX_VADDR. pmap (mem u) root v = (if va \<le> v \<and> v < c then 0 else f v))"
        using less.hyps [of "cur + PAGE_SIZE" ?t ps'] okt nx Wt pm' by blast
      moreover have "\<exists>qs. ps = qs @ ps''" using w(2) calculation(2) by (metis append_assoc)
      ultimately show ?thesis unfolding step using vm_step_trans [OF st] by blast
    qed
  qed
qed

section \<open>Properties\<close>

text \<open>
  C3. \<^verbatim>\<open>map_pages\<close> maps all or nothing. On a well-formed page table in which the
  aligned range \<open>[va, va + sz)\<close> is unmapped it returns 0 with every address of the range
  translated to the corresponding physical page with the given permissions and every other
  entry unchanged, or, when the free list is exhausted, -1 with exactly the mappings there
  were before. Either way the table stays a tree disjoint from the free list and no byte
  outside the table and the free pages changes.
\<close>

theorem map_pages_maps:
  fixes s :: "'z kmem_scheme"
  assumes "vm_ok s ps root" and "page_aligned va" and "page_aligned sz" and "sz \<noteq> 0"
    and "unat va + unat sz \<le> 2 ^ 38" and "perm < 0x400" and "PTE_V OR perm \<noteq> PTE_V"
    and "\<forall>v. va \<le> v \<and> v < va + sz \<longrightarrow> \<not> valid_pte (pmap (mem s) root v)"
  shows "\<exists>r t ps'. map_pages root va pa sz perm s = Ret r t \<and> vm_ok t ps' root \<and>
    touches (pt_tables (mem s) 2 root \<union> set ps) (mem s) (mem t) \<and>
    (r = 0 \<and> (\<forall>v<MAX_VADDR. pmap (mem t) root v =
        (if va \<le> v \<and> v < va + sz then PA2PTE (pa + (PAGE_ROUND_DOWN v - va)) OR PTE_V OR perm
         else pmap (mem s) root v)) \<or>
     r = -1 \<and> ps' = [] \<and> (\<forall>v<MAX_VADDR. valid_pte (pmap (mem t) root v) = valid_pte (pmap (mem s) root v) \<and>
        (valid_pte (pmap (mem s) root v) \<longrightarrow> pmap (mem t) root v = pmap (mem s) root v)))"
proof -
  let ?W = "pt_tables (mem s) 2 root \<union> set ps"
  have u: "unat (va + sz) = unat va + unat sz"
    using assms(5) by (simp add: unat_word_ariths)
  have "unat va mod 4096 = 0" "unat sz mod 4096 = 0" using assms(2,3) by (simp_all add: page_aligned_iff)
  then have al: "page_aligned (va + sz)" unfolding page_aligned_iff u by (simp add: mod_add_eq [symmetric])
  have le: "va \<le> va + sz" "va + sz \<le> MAX_VADDR"
    using u assms(5) by (simp_all add: word_le_nat_alt unat_MAX_VADDR)
  have nv: "\<not> valid_pte (pmap (mem s) root v)" if "va \<le> v" "v < va + sz" for v
    using assms(8) that by blast
  have ini: "pmap (mem s) root v = (if va \<le> v \<and> v < va
      then leaf_pte (pa + (PAGE_ROUND_DOWN v - va)) perm else pmap (mem s) root v)" for v
    by auto
  obtain r t ps' where L: "map_loop root va perm (page_range va (va + sz)) (pa + (va - va)) s = Ret r t"
      "vm_step ?W root s t ps'"
      "r = 0 \<and> (\<forall>v<MAX_VADDR. pmap (mem t) root v =
        (if va \<le> v \<and> v < va + sz then leaf_pte (pa + (PAGE_ROUND_DOWN v - va)) perm else pmap (mem s) root v)) \<or>
       r = -1 \<and> ps' = [] \<and> (\<exists>c\<le>va + sz. \<forall>v<MAX_VADDR. pmap (mem t) root v =
        (if va \<le> v \<and> v < c then 0 else pmap (mem s) root v))"
    using map_loop_ok [OF assms(1,2,2) al order_refl le assms(6,7) order_refl ini nv] by blast
  have "map_pages root va pa sz perm s = Ret r t"
    using L(1) assms(2-4) by (simp add: map_pages_def page_aligned_def)
  moreover have "vm_ok t ps' root" "touches ?W (mem s) (mem t)" using L(2) by (simp_all add: vm_step_def)
  moreover have "valid_pte (pmap (mem t) root v) = valid_pte (pmap (mem s) root v) \<and>
      (valid_pte (pmap (mem s) root v) \<longrightarrow> pmap (mem t) root v = pmap (mem s) root v)"
    if "c \<le> va + sz" "pmap (mem t) root v = (if va \<le> v \<and> v < c then 0 else pmap (mem s) root v)" for c v
    using that nv [of v] less_le_trans [of v c "va + sz"] by (cases "va \<le> v \<and> v < c") auto
  ultimately show ?thesis using L(3) unfolding leaf_pte_def by blast
qed

lemma ent_zero [simp]: "ent (\<lambda>_. 0) p i = 0"
  by (simp add: ent_def load64_zero)

definition small_vm :: kmem where
  "small_vm = mem_state\<lparr>mem := set_ent 0x2000 0 0x3000 (\<lambda>_. 0), free_head := 0x2000\<rparr>"

lemma small_vm_ok:
  "vm_ok small_vm [0x2000, 0x3000] 0x1000" "pmap (mem small_vm) 0x1000 v = 0"
proof -
  have al: "page_aligned 0x1000" "page_aligned 0x2000" "page_aligned 0x3000"
    by (simp_all add: page_aligned_iff)
  then have z: "pt_tree (mem small_vm) 2 0x1000 \<and> pt_tables (mem small_vm) 2 0x1000 = {0x1000} \<and>
      pt_entry (mem small_vm) 2 0x1000 v = 0"
    by (intro pt_zero_page) (simp_all add: pages_def small_vm_def ent_set_ent)
  show "vm_ok small_vm [0x2000, 0x3000] 0x1000"
    using z al by (simp add: vm_ok_def pool_def small_vm_def ent_set_ent)
  show "pmap (mem small_vm) 0x1000 v = 0" using z by (simp add: pmap_def)
qed

theorem map_pages_maps_witness:
  "\<exists>r t. map_pages 0x1000 0x4000 0x80000000 0x1000 (PTE_R OR PTE_W) small_vm = Ret r t \<and> (r = 0 \<or> r = -1)"
proof -
  have "\<forall>v. 0x4000 \<le> v \<and> v < 0x4000 + 0x1000 \<longrightarrow> \<not> valid_pte (pmap (mem small_vm) 0x1000 v)"
    by (simp add: small_vm_ok(2))
  from map_pages_maps [OF small_vm_ok(1) _ _ _ _ _ _ this, of "PTE_R OR PTE_W" "0x80000000"]
  show ?thesis by (auto simp: page_aligned_iff pte_flag_defs)
qed

text \<open>
  C19. \<^verbatim>\<open>unmap_pages\<close> with \<^verbatim>\<open>free\<close> set removes exactly the given range from
  the address space and gives its frames back to the free list, when they are distinct
  pages that are neither free nor part of the table.
\<close>

theorem unmap_pages_frees:
  fixes s :: "'z kmem_scheme"
  assumes "vm_ok s ps root" and "page_aligned va" and "page_aligned sz"
    and "unat va + unat sz \<le> 2 ^ 38"
    and "\<forall>v \<in> set (page_range va (va + sz)). valid_pte (pmap (mem s) root v) \<and>
      PTE_FLAGS (pmap (mem s) root v) \<noteq> PTE_V \<and>
      PTE2PA (pmap (mem s) root v) \<in> pages - set ps - pt_tables (mem s) 2 root"
    and "distinct (map (\<lambda>v. PTE2PA (pmap (mem s) root v)) (page_range va (va + sz)))"
  shows "\<exists>t. unmap_pages root va sz True s = Ret () t \<and>
    vm_ok t (rev (map (\<lambda>v. PTE2PA (pmap (mem s) root v)) (page_range va (va + sz))) @ ps) root \<and>
    (\<forall>v<MAX_VADDR. pmap (mem t) root v = (if va \<le> v \<and> v < va + sz then 0 else pmap (mem s) root v))"
proof -
  let ?xs = "page_range va (va + sz)" and ?F = "\<lambda>v. PTE2PA (pmap (mem s) root v)"
  have u: "unat (va + sz) = unat va + unat sz"
    using assms(4) by (simp add: unat_word_ariths)
  have "unat va mod 4096 = 0" "unat sz mod 4096 = 0" using assms(2,3) by (simp_all add: page_aligned_iff)
  then have al: "page_aligned (va + sz)" unfolding page_aligned_iff u by (simp add: mod_add_eq [symmetric])
  have le: "va + sz \<le> MAX_VADDR"
    using u assms(4) by (simp_all add: word_le_nat_alt unat_MAX_VADDR)
  note pr = page_range_aligned [OF assms(2) al]
  have each: "page_aligned v \<and> v < MAX_VADDR \<and> valid_pte (pmap (mem s) root v) \<and>
      PTE_FLAGS (pmap (mem s) root v) \<noteq> PTE_V" if "v \<in> set ?xs" for v
    using that assms(5) pr(1) le by auto
  have fr: "(\<forall>v\<in>set ?xs. ?F v \<in> pages - set ps - pt_tables (mem s) 2 root) \<and> distinct (map ?F ?xs)" if True
    using assms(5,6) by blast
  have W: "pt_tables (mem s) 2 root \<union> set ps \<union> (if True then set (map ?F ?xs) else {}) \<subseteq>
      pt_tables (mem s) 2 root \<union> set ps \<union> set (map ?F ?xs)" by simp
  obtain t where t: "forK ?xs (unmap_page root True) s = Ret () t"
      "vm_step (pt_tables (mem s) 2 root \<union> set ps \<union> set (map ?F ?xs)) root s t (rev (map ?F ?xs) @ ps)"
      "\<forall>va'<MAX_VADDR. pmap (mem t) root va' =
       (if \<exists>v\<in>set ?xs. v \<le> va' \<and> va' < v + PAGE_SIZE then 0 else pmap (mem s) root va')"
    using unmap_loop [OF assms(1) pr(2) each fr W] unfolding if_True by blast
  have "unmap_pages root va sz True s = Ret () t"
    using t(1) assms(2,3) by (simp add: unmap_pages_def page_aligned_def)
  then show ?thesis
    using t(2,3) in_some_page [OF assms(2) al le] by (auto simp: vm_step_def)
qed


text \<open>A page table with one user page: address 0 is mapped to the frame \<open>0x4000\<close>.\<close>

definition one_page :: kmem where
  "one_page = mem_state\<lparr>mem :=
     set_ent 0x1000 0 (PA2PTE 0x2000 OR PTE_V) (
     set_ent 0x2000 0 (PA2PTE 0x3000 OR PTE_V) (
     set_ent 0x3000 0 (leaf_pte 0x4000 (PTE_R OR PTE_W OR PTE_U)) (\<lambda>_. 0)))\<rparr>"

lemma few_pages [simp]: "0x1000 \<in> pages" "0x2000 \<in> pages" "0x3000 \<in> pages" "0x4000 \<in> pages"
  by (simp_all add: pages_def page_aligned_iff)

lemma one_page_ent:
  "i < 512 \<Longrightarrow> ent (mem one_page) 0x1000 i = (if i = 0 then PA2PTE 0x2000 OR PTE_V else 0)"
  "i < 512 \<Longrightarrow> ent (mem one_page) 0x2000 i = (if i = 0 then PA2PTE 0x3000 OR PTE_V else 0)"
  "i < 512 \<Longrightarrow> ent (mem one_page) 0x3000 i = (if i = 0 then leaf_pte 0x4000 (PTE_R OR PTE_W OR PTE_U) else 0)"
  by (simp_all add: one_page_def ent_set_ent page_aligned_iff)

lemma one_page_tables:
  "pt_tables (mem one_page) 0 0x3000 = {0x3000}"
  "pt_tables (mem one_page) (Suc 0) 0x2000 = {0x2000, 0x3000}"
  "pt_tables (mem one_page) 2 0x1000 = {0x1000, 0x2000, 0x3000}"
proof -
  have v: "{i. i < 512 \<and> valid_pte (ent (mem one_page) p i)} = {0}" if "p = 0x1000 \<or> p = 0x2000" for p
    using that by (auto simp: one_page_ent split: if_splits)
  show 1: "pt_tables (mem one_page) 0 0x3000 = {0x3000}" by simp
  show 2: "pt_tables (mem one_page) (Suc 0) 0x2000 = {0x2000, 0x3000}"
    unfolding pt_tables.simps using v [of "0x2000"] by (simp add: one_page_ent PTE2PA_link)
  show "pt_tables (mem one_page) 2 0x1000 = {0x1000, 0x2000, 0x3000}"
    unfolding numeral_2_eq_2 pt_tables.simps(2) [of _ "Suc 0"] using v [of "0x1000"] 2
    by (simp add: one_page_ent PTE2PA_link)
qed

lemma one_page_ok: "vm_ok one_page [] 0x1000"
proof -
  have "pt_tree (mem one_page) (Suc 0) 0x2000"
    by (auto simp: one_page_ent PTE2PA_link split: if_splits)
  then have "pt_tree (mem one_page) 2 0x1000"
    unfolding numeral_2_eq_2 pt_tree.simps(2) [of _ "Suc 0"]
    using one_page_tables(2) by (auto simp: one_page_ent PTE2PA_link split: if_splits)
  moreover have "pool one_page []"
    by (simp add: pool_def one_page_def mem_state_def kbase.defs kmem.defs boot_state_def)
  ultimately show ?thesis by (simp add: vm_ok_def) (simp add: one_page_def)
qed

lemma pt_slot_2:
  "pt_slot m 2 r va =
    (if valid_pte (ent m r (idx va 2))
     then pt_slot m (Suc 0) (PTE2PA (ent m r (idx va 2))) va else None)"
  using pt_slot.simps(2) [of m "Suc 0" r va] unfolding numeral_2_eq_2 .

lemma one_page_pmap:
  assumes "unat va < 4096"
  shows "pmap (mem one_page) 0x1000 va = leaf_pte 0x4000 (PTE_R OR PTE_W OR PTE_U)"
proof -
  have "idx va k = 0" for k
  proof -
    have "(4096::nat) \<le> 2 ^ PXSHIFT k" by (simp add: PXSHIFT_def power_add)
    then have "unat va < 2 ^ PXSHIFT k" using assms by simp
    then show ?thesis by (simp add: idx_def unat_PX)
  qed
  then show ?thesis
    by (simp add: pmap_def pt_entry_def pt_slot_2 one_page_ent PTE2PA_link)
qed

lemma one_page_leaf:
  "PTE2PA (leaf_pte 0x4000 (PTE_R OR PTE_W OR PTE_U)) = 0x4000"
  "PTE_FLAGS (leaf_pte 0x4000 (PTE_R OR PTE_W OR PTE_U)) \<noteq> PTE_V"
  "leaf_pte 0x4000 (PTE_R OR PTE_W OR PTE_U) AND PTE_U \<noteq> 0"
  "leaf_pte 0x4000 (PTE_R OR PTE_W OR PTE_U) AND PTE_W \<noteq> 0"
  by (simp_all add: leaf_pte_def PTE2PA_def PA2PTE_def PTE_FLAGS_def pte_flag_defs)

theorem unmap_pages_frees_witness:
  "\<exists>t. unmap_pages 0x1000 0 0x1000 True one_page = Ret () t \<and> vm_ok t [0x4000] 0x1000"
proof -
  have pr: "page_range 0 (0 + 0x1000) = [0]" by (simp add: page_range_def)
  have "\<forall>v \<in> set (page_range 0 (0 + 0x1000)). valid_pte (pmap (mem one_page) 0x1000 v) \<and>
      PTE_FLAGS (pmap (mem one_page) 0x1000 v) \<noteq> PTE_V \<and>
      PTE2PA (pmap (mem one_page) 0x1000 v) \<in> pages - set [] - pt_tables (mem one_page) 2 0x1000"
    unfolding pr by (simp add: one_page_pmap one_page_leaf one_page_tables)
  from unmap_pages_frees [OF one_page_ok _ _ _ this] show ?thesis
    unfolding pr by (auto simp: page_aligned_iff one_page_pmap one_page_leaf)
qed

end
