(* ===== verification/Ucopy.thy ===== *)
theory Ucopy
  imports Ptable
begin

text \<open>
  Copies between kernel and user memory: \<^verbatim>\<open>copy_in\<close>, \<^verbatim>\<open>copy_out\<close> and
  \<^verbatim>\<open>copy_str_in\<close> of \<^verbatim>\<open>kernel/mm/mm.c\<close> against the translation of each
  user address.
\<close>

section \<open>User addresses\<close>

definition uaddr :: "memory \<Rightarrow> u64 \<Rightarrow> u64 \<Rightarrow> u64" where
  "uaddr m root va = PTE2PA (pmap m root va) + (va - PAGE_ROUND_DOWN va)"

definition user_page :: "memory \<Rightarrow> u64 \<Rightarrow> u64 \<Rightarrow> bool" where
  "user_page m root va \<longleftrightarrow> valid_pte (pmap m root va) \<and> pmap m root va AND PTE_U \<noteq> 0"

lemma entry_at:
  assumes "pt_tree m 2 root" "va < MAX_VADDR"
  shows "valid_pte (pmap m root va) \<Longrightarrow>
      pte_addr (pt_slot m 2 root va) \<noteq> 0 \<and> load64 m (pte_addr (pt_slot m 2 root va)) = pmap m root va"
    and "\<not> valid_pte (pmap m root va) \<Longrightarrow>
      pte_addr (pt_slot m 2 root va) = 0 \<or>
      load64 m (pte_addr (pt_slot m 2 root va)) AND PTE_V = 0"
proof -
  assume "valid_pte (pmap m root va)"
  then obtain p i where sl: "pt_slot m 2 root va = Some (p, i)" "pmap m root va = ent m p i"
    using pmap_slot by blast
  then show "pte_addr (pt_slot m 2 root va) \<noteq> 0 \<and> load64 m (pte_addr (pt_slot m 2 root va)) = pmap m root va"
    using pte_addr_nonzero [OF assms(1) sl(1)] pte_addr_load [OF sl(1), of m] by simp
next
  assume "\<not> valid_pte (pmap m root va)"
  then show "pte_addr (pt_slot m 2 root va) = 0 \<or> load64 m (pte_addr (pt_slot m 2 root va)) AND PTE_V = 0"
    by (cases "pt_slot m 2 root va")
       (auto simp: pte_addr_def pmap_def pt_entry_def valid_pte_def ent_def)
qed

lemma uvm_walk_addr_ok:
  assumes "pt_tree (mem s) 2 root" "va < MAX_VADDR"
  shows "uvm_walk_addr root va s =
    Ret (if user_page (mem s) root va then PTE2PA (pmap (mem s) root va) else 0) s"
proof (cases "valid_pte (pmap (mem s) root va)")
  case True
  then show ?thesis
    using entry_at(1) [OF assms True] assms(2)
    by (auto simp: uvm_walk_addr_def walk_lookup user_page_def valid_pte_def)
next
  case False
  then show ?thesis
    using entry_at(2) [OF assms False] assms(2)
    by (auto simp: uvm_walk_addr_def walk_lookup user_page_def valid_pte_def)
qed

lemma uvm_walk_addr_high: "va \<ge> MAX_VADDR \<Longrightarrow> uvm_walk_addr root va s = Panic ''invalid virtual address''"
  by (simp add: uvm_walk_addr_def)

lemma pmap_same_page:
  assumes "va < MAX_VADDR" "va' < MAX_VADDR" "unat va div 4096 = unat va' div 4096"
  shows "pmap m root va = pmap m root va'"
  using same_path_slot [of 2 va va' m root] same_path_iff [OF assms(1,2)] assms(3)
  by (simp add: pmap_def pt_entry_def)

lemma unat_round_off: "unat (a - PAGE_ROUND_DOWN a) = unat a mod 4096"
  using round_down_le [of a] by (simp add: unat_sub unat_PAGE_ROUND_DOWN minus_div_mult_eq_mod)

lemma in_page_eq: "in_page a n = min (4096 - unat a mod 4096) n"
  by (simp add: in_page_def Let_def unat_round_off min_def)

lemma chunk_page:
  assumes "unat a + n \<le> 2 ^ 38" "j < in_page a n"
  shows "unat (a + of_nat j) = unat a + j" "unat (a + of_nat j) div 4096 = unat a div 4096"
    "a + of_nat j < MAX_VADDR" "uaddr m root (a + of_nat j) = uaddr m root a + of_nat j"
proof -
  have j: "j < n" "unat a mod 4096 + j < 4096" using assms(2) by (auto simp: in_page_eq)
  show u: "unat (a + of_nat j) = unat a + j" using j assms(1) by (intro unat_add_of_nat) simp
  have "unat a + j = 4096 * (unat a div 4096) + (unat a mod 4096 + j)" by simp
  then show d: "unat (a + of_nat j) div 4096 = unat a div 4096"
    unfolding u using j(2) by (metis div_less div_mult_self4 add.right_neutral zero_neq_numeral)
  show m: "a + of_nat j < MAX_VADDR" using u j assms(1) by (simp add: word_less_nat_alt unat_MAX_VADDR)
  have "a < MAX_VADDR" using j assms(1) by (simp add: word_less_nat_alt unat_MAX_VADDR)
  then have "pmap m root (a + of_nat j) = pmap m root a" using pmap_same_page m d by blast
  moreover have "PAGE_ROUND_DOWN (a + of_nat j) = PAGE_ROUND_DOWN a"
    using d by (simp add: word_unat_eq_iff unat_PAGE_ROUND_DOWN)
  ultimately show "uaddr m root (a + of_nat j) = uaddr m root a + of_nat j"
    by (simp add: uaddr_def algebra_simps)
qed

lemma round_entry:
  assumes "a < MAX_VADDR"
  shows "PAGE_ROUND_DOWN a < MAX_VADDR" "pmap m root (PAGE_ROUND_DOWN a) = pmap m root a"
    "user_page m root (PAGE_ROUND_DOWN a) = user_page m root a"
proof -
  show r: "PAGE_ROUND_DOWN a < MAX_VADDR" using round_down_le assms by (rule le_less_trans)
  show p: "pmap m root (PAGE_ROUND_DOWN a) = pmap m root a"
    using pmap_same_page [OF r assms] by (simp add: unat_PAGE_ROUND_DOWN)
  then show "user_page m root (PAGE_ROUND_DOWN a) = user_page m root a" by (simp add: user_page_def)
qed

lemma write_bytes_at:
  assumes "i < length bs" "length bs < 2 ^ 64"
  shows "write_bytes a bs m (a + of_nat i) = bs ! i"
proof -
  have "inj_on (\<lambda>i. a + of_nat i) (set [0..<length bs])"
    using assms(2) by (auto intro!: inj_onI simp: of_nat_u64_inj)
  then show ?thesis
    using assms(1) unfolding write_bytes_def by (subst fold_upd_at) auto
qed

lemma write_bytes_out: "x \<notin> span a (length bs) \<Longrightarrow> write_bytes a bs m x = m x"
proof -
  have "fold (\<lambda>i m. m(a + of_nat i := bs ! i)) is m x = m x" if "\<forall>i\<in>set is. x \<noteq> a + of_nat i" for "is"
    using that by (induction "is" arbitrary: m) auto
  moreover assume "x \<notin> span a (length bs)"
  then have "\<forall>i\<in>set [0..<length bs]. x \<noteq> a + of_nat i" by (auto simp: span_def)
  ultimately show "write_bytes a bs m x = m x" unfolding write_bytes_def by blast
qed

text \<open>
  \<open>ubuf m root a n\<close>: the \<open>n\<close> bytes from user address \<open>a\<close> lie in mapped user pages
  whose frames are not part of the page table.
\<close>

definition ubuf :: "memory \<Rightarrow> u64 \<Rightarrow> u64 \<Rightarrow> nat \<Rightarrow> bool" where
  "ubuf m root a n \<longleftrightarrow> unat a + n \<le> 2 ^ 38 \<and> pt_tree m 2 root \<and>
     (\<forall>i<n. user_page m root (a + of_nat i) \<and>
        PTE2PA (pmap m root (a + of_nat i)) \<in> pages - pt_tables m 2 root)"

definition uwritable :: "memory \<Rightarrow> u64 \<Rightarrow> u64 \<Rightarrow> nat \<Rightarrow> bool" where
  "uwritable m root a n \<longleftrightarrow> (\<forall>i<n. pmap m root (a + of_nat i) AND PTE_W \<noteq> 0) \<and>
     inj_on (\<lambda>i. uaddr m root (a + of_nat i)) {..<n}"

definition ubytes :: "memory \<Rightarrow> u64 \<Rightarrow> u64 \<Rightarrow> nat \<Rightarrow> u8 list" where
  "ubytes m root a n = map (\<lambda>i. m (uaddr m root (a + of_nat i))) [0..<n]"

lemma in_page_le: "in_page a n \<le> n"
  by (simp add: in_page_eq)

lemma ubuf_rest:
  assumes "ubuf m root a n"
  shows "ubuf m root (a + of_nat (in_page a n)) (n - in_page a n)"
proof -
  let ?k = "in_page a n"
  have b: "unat a + n \<le> 2 ^ 38" and k: "?k \<le> n" using assms in_page_le by (auto simp: ubuf_def)
  then have "unat (a + of_nat ?k) = unat a + ?k" by (intro unat_add_of_nat) simp
  moreover have "a + of_nat ?k + of_nat i = a + of_nat (?k + i)" for i by simp
  ultimately show ?thesis
    using assms k b unfolding ubuf_def by (auto simp del: of_nat_add simp: add.assoc)
qed

lemma ubytes_split:
  assumes "unat a + n \<le> 2 ^ 38"
  shows "ubytes m root a n = read_bytes m (uaddr m root a) (in_page a n) @
    ubytes m root (a + of_nat (in_page a n)) (n - in_page a n)"
proof -
  let ?k = "in_page a n"
  have sp: "[0..<n] = [0..<?k] @ map (\<lambda>i. i + ?k) [0..<n - ?k]"
    using in_page_le [of a n] upt_add_eq_append [of 0 ?k "n - ?k"] unfolding map_add_upt by simp
  have "map (\<lambda>i. m (uaddr m root (a + of_nat i))) [0..<?k] = read_bytes m (uaddr m root a) ?k"
    using chunk_page(4) [OF assms] by (simp add: read_bytes_def)
  then show ?thesis by (simp add: ubytes_def sp comp_def ac_simps)
qed

lemma copy_nothing [simp]: "copy_in root src 0 s = Ret (0, []) s" "copy_out root dst [] s = Ret 0 s"
  by (simp_all add: copy_in.simps copy_out.simps)

lemma copy_in_ok:
  assumes "ubuf (mem s) root src n"
  shows "copy_in root src n s = Ret (0, ubytes (mem s) root src n) s"
  using assms
proof (induction n arbitrary: src rule: less_induct)
  case (less n)
  show ?case
  proof (cases "n = 0")
    case False
    let ?k = "in_page src n"
    have b: "unat src + n \<le> 2 ^ 38" "pt_tree (mem s) 2 root" "user_page (mem s) root src"
        "PTE2PA (pmap (mem s) root src) \<noteq> 0"
      using less.prems False by (auto simp: ubuf_def pages_def dest: spec [of _ 0])
    have m: "src < MAX_VADDR" using b(1) False by (simp add: word_less_nat_alt unat_MAX_VADDR)
    have "uvm_walk_addr root (PAGE_ROUND_DOWN src) s = Ret (PTE2PA (pmap (mem s) root src)) s"
      using uvm_walk_addr_ok [OF b(2) round_entry(1) [OF m]] round_entry(2,3) [OF m] b(3) by simp
    moreover have "copy_in root (src + of_nat ?k) (n - ?k) s =
        Ret (0, ubytes (mem s) root (src + of_nat ?k) (n - ?k)) s"
      using less.IH [of "n - ?k"] ubuf_rest [OF less.prems] in_page_pos [of n src] False by simp
    ultimately show ?thesis
      using False b(4) ubytes_split [OF b(1), of "mem s" root]
      by (subst copy_in.simps) (simp add: Let_def uaddr_def)
  qed (simp add: ubytes_def)
qed

text \<open>One step of \<^verbatim>\<open>copy_out\<close>: the part of the buffer that lies in one page.\<close>

lemma copy_out_step:
  assumes u: "ubuf (mem s) root dst (length bs)" and w: "uwritable (mem s) root dst (length bs)"
    and ne: "bs \<noteq> []"
  defines "k \<equiv> in_page dst (length bs)"
  defines "m1 \<equiv> write_bytes (uaddr (mem s) root dst) (take k bs) (mem s)"
  shows "copy_out root dst bs s = copy_out root (dst + of_nat k) (drop k bs) (s\<lparr>mem := m1\<rparr>)"
    and "pt_tree m1 2 root" "pt_tables m1 2 root = pt_tables (mem s) 2 root"
    and "pmap m1 root = pmap (mem s) root"
    and "\<And>i. i < k \<Longrightarrow> m1 (uaddr (mem s) root (dst + of_nat i)) = bs ! i"
    and "\<And>x. x \<notin> (\<lambda>i. uaddr (mem s) root (dst + of_nat i)) ` {..<k} \<Longrightarrow> m1 x = mem s x"
proof -
  let ?e = "pmap (mem s) root dst" and ?a = "uaddr (mem s) root dst"
  have b: "unat dst + length bs \<le> 2 ^ 38" "pt_tree (mem s) 2 root" "user_page (mem s) root dst"
      "PTE2PA ?e \<in> pages - pt_tables (mem s) 2 root"
    using u ne by (auto simp: ubuf_def dest: spec [of _ 0])
  have wr: "?e AND PTE_W \<noteq> 0" using w ne by (auto simp: uwritable_def dest: spec [of _ 0])
  have kl: "k \<le> length bs" "k \<le> 4096 - unat dst mod 4096" by (simp_all add: k_def in_page_eq)
  have len: "length (take k bs) = k" using kl by simp
  have "unat dst < 2 ^ 38" using b(1) ne by (cases bs) auto
  then have m: "dst < MAX_VADDR" by (simp add: word_less_nat_alt unat_MAX_VADDR)
  have ck: "uaddr (mem s) root (dst + of_nat i) = ?a + of_nat i" if "i < k" for i
    using chunk_page(4) [OF b(1)] that by (simp add: k_def)
  have v: "valid_pte (pmap (mem s) root (PAGE_ROUND_DOWN dst))" "?e AND PTE_V \<noteq> 0" "?e AND PTE_U \<noteq> 0"
    using b(3) round_entry(2) [OF m, of "mem s" root] by (auto simp: user_page_def valid_pte_def)
  note en = entry_at(1) [OF b(2) round_entry(1) [OF m] v(1)]
  show "copy_out root dst bs s = copy_out root (dst + of_nat k) (drop k bs) (s\<lparr>mem := m1\<rparr>)"
    using ne en v(2,3) wr round_entry(1,2) [OF m]
    by (subst copy_out.simps)
       (simp add: Let_def walk_lookup linorder_not_le [symmetric] m1_def k_def uaddr_def)
  have a: "?a = PTE2PA ?e + of_nat (unat dst mod 4096)"
    by (simp add: uaddr_def flip: unat_round_off)
  have "touches {PTE2PA ?e} (mem s) m1"
    unfolding touches_def m1_def
  proof (intro allI impI write_bytes_out)
    fix x assume x: "\<forall>p\<in>{PTE2PA ?e}. x \<notin> span p 4096"
    show "x \<notin> span ?a (length (take k bs))"
    proof
      assume "x \<in> span ?a (length (take k bs))"
      then obtain i where i: "i < k" "x = PTE2PA ?e + of_nat (unat dst mod 4096 + i)"
        unfolding len by (auto simp: span_def a)
      then have "x \<in> span (PTE2PA ?e) 4096" using kl(2) unfolding i(2) by (intro span_mem) auto
      then show False using x by simp
    qed
  qed
  note U = pt_untouched [OF this _ _ b(2)]
  show "pt_tree m1 2 root" "pt_tables m1 2 root = pt_tables (mem s) 2 root"
    "pmap m1 root = pmap (mem s) root"
    using U b(4) by (auto simp: pmap_def fun_eq_iff)
  have "length bs < 2 ^ 64" using b(1) by simp
  then show "m1 (uaddr (mem s) root (dst + of_nat i)) = bs ! i" if "i < k" for i
    unfolding ck [OF that] m1_def using that kl by (subst write_bytes_at) simp_all
  show "m1 x = mem s x" if "x \<notin> (\<lambda>i. uaddr (mem s) root (dst + of_nat i)) ` {..<k}" for x
  proof -
    have "x \<notin> span ?a (length (take k bs))"
      using that ck unfolding len by (auto simp: span_def)
    then show ?thesis unfolding m1_def by (rule write_bytes_out)
  qed
qed

lemma copy_out_ok:
  assumes "ubuf (mem s) root dst (length bs)" "uwritable (mem s) root dst (length bs)"
  shows "\<exists>m'. copy_out root dst bs s = Ret 0 (s\<lparr>mem := m'\<rparr>) \<and>
    pt_tree m' 2 root \<and> pt_tables m' 2 root = pt_tables (mem s) 2 root \<and>
    pmap m' root = pmap (mem s) root \<and>
    (\<forall>i<length bs. m' (uaddr (mem s) root (dst + of_nat i)) = bs ! i) \<and>
    (\<forall>x. x \<notin> (\<lambda>i. uaddr (mem s) root (dst + of_nat i)) ` {..<length bs} \<longrightarrow> m' x = mem s x)"
  using assms
proof (induction "length bs" arbitrary: s dst bs rule: less_induct)
  case less
  show ?case
  proof (cases "bs = []")
    case True
    then show ?thesis using less.prems by (intro exI [of _ "mem s"]) (auto simp: ubuf_def)
  next
    case False
    define k where "k = in_page dst (length bs)"
    define m1 where "m1 = write_bytes (uaddr (mem s) root dst) (take k bs) (mem s)"
    note S = copy_out_step [OF less.prems False, folded k_def, folded m1_def]
    let ?n = "length bs" and ?dst = "dst + of_nat k" and ?bs = "drop k bs"
    have ua: "uaddr m1 root = uaddr (mem s) root" using S(4) by (simp add: uaddr_def fun_eq_iff)
    have k: "0 < k" "k \<le> ?n" using in_page_pos in_page_le False by (auto simp: k_def)
    have sh: "?dst + of_nat i = dst + of_nat (k + i)" for i by simp
    have "ubuf (mem s) root ?dst (length ?bs)" using ubuf_rest [OF less.prems(1)] by (simp add: k_def)
    then have u1: "ubuf (mem (s\<lparr>mem := m1\<rparr>)) root ?dst (length ?bs)"
      using S(2-4) by (simp add: ubuf_def user_page_def)
    have inj: "inj_on (\<lambda>i. uaddr (mem s) root (dst + of_nat i)) {..<?n}"
      using less.prems(2) by (simp add: uwritable_def)
    have inj': "inj_on (\<lambda>i. uaddr (mem s) root (dst + of_nat (k + i))) {..<?n - k}"
    proof (rule inj_onI)
      fix x y
      assume "x \<in> {..<?n - k}" "y \<in> {..<?n - k}"
        "uaddr (mem s) root (dst + of_nat (k + x)) = uaddr (mem s) root (dst + of_nat (k + y))"
      then have "k + x = k + y" using inj_onD [OF inj, of "k + x" "k + y"] by auto
      then show "x = y" by simp
    qed
    have w1: "uwritable (mem (s\<lparr>mem := m1\<rparr>)) root ?dst (length ?bs)"
      using less.prems(2) S(4) ua k inj' unfolding uwritable_def sh
      by (simp del: of_nat_add)
    have "length ?bs < length bs" using k by simp
    from less.hyps [OF this u1 w1] obtain m' where m0:
      "copy_out root ?dst ?bs (s\<lparr>mem := m1\<rparr>) = Ret 0 (s\<lparr>mem := m1, mem := m'\<rparr>)"
      "pt_tree m' 2 root" "pt_tables m' 2 root = pt_tables (mem (s\<lparr>mem := m1\<rparr>)) 2 root"
      "pmap m' root = pmap (mem (s\<lparr>mem := m1\<rparr>)) root"
      "\<And>i. i < length ?bs \<Longrightarrow> m' (uaddr (mem (s\<lparr>mem := m1\<rparr>)) root (?dst + of_nat i)) = ?bs ! i"
      "\<And>x. x \<notin> (\<lambda>i. uaddr (mem (s\<lparr>mem := m1\<rparr>)) root (?dst + of_nat i)) ` {..<length ?bs} \<Longrightarrow>
        m' x = mem (s\<lparr>mem := m1\<rparr>) x"
      by blast
    have ms: "mem (s\<lparr>mem := m1\<rparr>) = m1" by simp
    have m': "copy_out root ?dst ?bs (s\<lparr>mem := m1\<rparr>) = Ret 0 (s\<lparr>mem := m'\<rparr>)"
      "pt_tree m' 2 root" "pt_tables m' 2 root = pt_tables (mem s) 2 root" "pmap m' root = pmap (mem s) root"
      "\<And>i. i < ?n - k \<Longrightarrow> m' (uaddr (mem s) root (dst + of_nat (k + i))) = bs ! (k + i)"
      "\<And>x. x \<notin> (\<lambda>i. uaddr (mem s) root (dst + of_nat (k + i))) ` {..<?n - k} \<Longrightarrow> m' x = m1 x"
      using m0 k unfolding ms ua sh S(3,4) by (simp_all del: of_nat_add)
    have "m' (uaddr (mem s) root (dst + of_nat i)) = bs ! i" if i: "i < ?n" for i
    proof (cases "i < k")
      case True
      have "uaddr (mem s) root (dst + of_nat i) \<notin> (\<lambda>i. uaddr (mem s) root (dst + of_nat (k + i))) ` {..<?n - k}"
      proof
        assume "uaddr (mem s) root (dst + of_nat i) \<in> (\<lambda>i. uaddr (mem s) root (dst + of_nat (k + i))) ` {..<?n - k}"
        then obtain j where "j < ?n - k" "uaddr (mem s) root (dst + of_nat i) = uaddr (mem s) root (dst + of_nat (k + j))"
          by blast
        then have "i = k + j" using inj_onD [OF inj, of i "k + j"] i by auto
        with True show False by simp
      qed
      then show ?thesis using m'(6) S(5) [OF True] by simp
    next
      case False
      then show ?thesis using m'(5) [of "i - k"] i by simp
    qed
    moreover have "m' x = mem s x" if "x \<notin> (\<lambda>i. uaddr (mem s) root (dst + of_nat i)) ` {..<?n}" for x
    proof -
      have "x \<notin> (\<lambda>i. uaddr (mem s) root (dst + of_nat (k + i))) ` {..<?n - k}"
          "x \<notin> (\<lambda>i. uaddr (mem s) root (dst + of_nat i)) ` {..<k}"
        using that k by (auto simp del: of_nat_add)
      then show ?thesis using m'(6) S(6) by simp
    qed
    ultimately show ?thesis unfolding S(1) using m'(1-4) by blast
  qed
qed

subsection \<open>Strings\<close>

lemma str_part_eq:
  "str_part bs = (takeWhile (\<lambda>c. c \<noteq> 0) bs @ (if 0 \<in> set bs then [0] else []), 0 \<in> set bs)"
  by (induction bs) auto

lemma takeWhile_no_zero: "0 \<notin> set bs \<Longrightarrow> takeWhile (\<lambda>c. c \<noteq> 0) bs = (bs :: u8 list)"
  by (induction bs) auto

lemma copy_str_in_step:
  assumes "pt_tree (mem s) 2 root" "src < MAX_VADDR" "0 < max_len"
    and "user_page (mem s) root src" "PTE2PA (pmap (mem s) root src) \<noteq> 0"
  defines "bs \<equiv> read_bytes (mem s) (uaddr (mem s) root src) (in_page src max_len)"
  shows "copy_str_in (Suc fuel) root src max_len s =
    (if 0 \<in> set bs then Ret (0, takeWhile (\<lambda>c. c \<noteq> 0) bs @ [0]) s
     else bindK (copy_str_in fuel root src max_len) (\<lambda>(r, cs). retK (r, bs @ cs)) s)"
proof -
  have "uvm_walk_addr root (PAGE_ROUND_DOWN src) s = Ret (PTE2PA (pmap (mem s) root src)) s"
    using uvm_walk_addr_ok [OF assms(1) round_entry(1) [OF assms(2)]] round_entry(2,3) [OF assms(2)] assms(4)
    by simp
  moreover have "read_bytes (mem s) (PTE2PA (pmap (mem s) root src) + (src - PAGE_ROUND_DOWN src))
      (in_page src max_len) = bs"
    by (simp add: bs_def uaddr_def)
  moreover have "str_part bs = (if 0 \<in> set bs then takeWhile (\<lambda>c. c \<noteq> 0) bs @ [0] else bs, 0 \<in> set bs)"
    by (simp add: str_part_eq takeWhile_no_zero)
  ultimately show ?thesis
    using assms(3,5) by (simp add: Let_def)
qed

lemma bindK_NoFuel: "m s = NoFuel \<Longrightarrow> bindK m f s = NoFuel"
  by (simp add: bindK_def)

section \<open>Properties\<close>

text \<open>
  C9. Data survives the trip through user memory. \<^verbatim>\<open>copy_out\<close> of a buffer to
  mapped, writable user pages returns 0, changes exactly the bytes the user addresses
  translate to, leaves the page table alone, and \<^verbatim>\<open>copy_in\<close> of the same range
  then returns the same bytes.
\<close>

theorem copy_out_in:
  fixes s :: "'z kmem_scheme"
  assumes "ubuf (mem s) root dst (length bs)" and "uwritable (mem s) root dst (length bs)"
  shows "\<exists>t. copy_out root dst bs s = Ret 0 t \<and> copy_in root dst (length bs) t = Ret (0, bs) t \<and>
    pmap (mem t) root = pmap (mem s) root \<and>
    (\<forall>x. x \<notin> (\<lambda>i. uaddr (mem s) root (dst + of_nat i)) ` {..<length bs} \<longrightarrow> mem t x = mem s x)"
proof -
  obtain m' where m': "copy_out root dst bs s = Ret 0 (s\<lparr>mem := m'\<rparr>)"
      "pt_tree m' 2 root" "pt_tables m' 2 root = pt_tables (mem s) 2 root"
      "pmap m' root = pmap (mem s) root"
      "\<And>i. i < length bs \<Longrightarrow> m' (uaddr (mem s) root (dst + of_nat i)) = bs ! i"
      "\<And>x. x \<notin> (\<lambda>i. uaddr (mem s) root (dst + of_nat i)) ` {..<length bs} \<Longrightarrow> m' x = mem s x"
    using copy_out_ok [OF assms] by blast
  have u: "ubuf (mem (s\<lparr>mem := m'\<rparr>)) root dst (length bs)"
    using assms(1) m'(2-4) by (simp add: ubuf_def user_page_def)
  have "uaddr m' root = uaddr (mem s) root" using m'(4) by (simp add: uaddr_def fun_eq_iff)
  then have "ubytes m' root dst (length bs) = bs"
    using m'(5) by (auto simp: ubytes_def intro: nth_equalityI)
  then show ?thesis
    using copy_in_ok [OF u] m'(1,4,6) by (intro exI [of _ "s\<lparr>mem := m'\<rparr>"]) simp
qed

lemma one_page_buf:
  assumes "n \<le> 4096"
  shows "ubuf (mem one_page) 0x1000 0 n" "uwritable (mem one_page) 0x1000 0 n"
proof -
  have i: "unat (of_nat i :: u64) = i" if "i < n" for i
    using that assms by (simp add: unat_of_nat)
  have pm: "pmap (mem one_page) 0x1000 (of_nat i) = leaf_pte 0x4000 (PTE_R OR PTE_W OR PTE_U)" if "i < n" for i
    using that assms i by (intro one_page_pmap) simp
  show "ubuf (mem one_page) 0x1000 0 n"
    using vm_okD(3) [OF one_page_ok] pm assms
    by (simp add: ubuf_def user_page_def one_page_leaf one_page_tables)
  have "uaddr (mem one_page) 0x1000 (of_nat i) = 0x4000 + of_nat i" if "i < n" for i
  proof -
    have "PAGE_ROUND_DOWN (of_nat i) = 0"
      using i [OF that] that assms by (simp add: word_unat_eq_iff unat_PAGE_ROUND_DOWN)
    then show ?thesis by (simp add: uaddr_def pm [OF that] one_page_leaf)
  qed
  then show "uwritable (mem one_page) 0x1000 0 n"
    using pm assms by (auto simp: uwritable_def one_page_leaf inj_on_def of_nat_u64_inj)
qed

theorem copy_out_in_witness:
  "\<exists>t. copy_out 0x1000 0 [1, 2, 3] one_page = Ret 0 t \<and> copy_in 0x1000 0 3 t = Ret (0, [1, 2, 3]) t"
proof -
  have l: "length [1, 2, 3 :: u8] = 3" by simp
  have "ubuf (mem one_page) 0x1000 0 3" "uwritable (mem one_page) 0x1000 0 3"
    by (rule one_page_buf, simp)+
  from copy_out_in [of one_page "0x1000" 0 "[1, 2, 3]", unfolded l, OF this] show ?thesis by blast
qed

text \<open>
  C22. \<^verbatim>\<open>copy_str_in\<close> returns the string when its terminator lies in the first part
  it looks at, the rest of the page or \<^verbatim>\<open>max_len\<close> bytes. Otherwise it never returns:
  the loop subtracts a counter that has reached 0 from \<^verbatim>\<open>max_len\<close> and does not
  advance \<^verbatim>\<open>src\<close>, so that a user string that crosses a page or is too long hangs
  the kernel.
\<close>

theorem copy_str_in_terminates_iff:
  fixes s :: "'z kmem_scheme"
  assumes "pt_tree (mem s) 2 root" and "src < MAX_VADDR" and "0 < max_len"
    and "user_page (mem s) root src" and "PTE2PA (pmap (mem s) root src) \<noteq> 0"
  shows "if 0 \<in> set (read_bytes (mem s) (uaddr (mem s) root src) (in_page src max_len))
    then \<forall>fuel>0. copy_str_in fuel root src max_len s =
      Ret (0, takeWhile (\<lambda>c. c \<noteq> 0) (read_bytes (mem s) (uaddr (mem s) root src) (in_page src max_len)) @ [0]) s
    else \<forall>fuel. copy_str_in fuel root src max_len s = NoFuel"
proof -
  note S = copy_str_in_step [OF assms]
  let ?bs = "read_bytes (mem s) (uaddr (mem s) root src) (in_page src max_len)"
  show ?thesis
  proof (cases "0 \<in> set ?bs")
    case True
    have "copy_str_in fuel root src max_len s = Ret (0, takeWhile (\<lambda>c. c \<noteq> 0) ?bs @ [0]) s"
      if "0 < fuel" for fuel
      using S [of "fuel - 1"] that True by simp
    then show ?thesis using True by simp
  next
    case False
    have "copy_str_in fuel root src max_len s = NoFuel" for fuel
    proof (induction fuel)
      case 0
      show ?case using assms(3) by simp
    next
      case (Suc fuel)
      then show ?case unfolding S using False by (simp add: bindK_NoFuel)
    qed
    then show ?thesis using False by simp
  qed
qed

theorem copy_str_in_terminates_iff_witness:
  "copy_str_in 1 0x1000 0 128 one_page = Ret (0, [0]) one_page"
proof -
  have p: "pmap (mem one_page) 0x1000 0 = leaf_pte 0x4000 (PTE_R OR PTE_W OR PTE_U)"
    by (rule one_page_pmap) simp
  have m: "(0 :: u64) < MAX_VADDR" by (simp add: MAX_VADDR_def)
  have k: "in_page 0 128 = Suc 127" by (simp add: in_page_eq)
  have "uaddr (mem one_page) 0x1000 0 = 0x4000"
    by (simp add: uaddr_def p one_page_leaf PAGE_ROUND_DOWN_def)
  moreover have "mem one_page 0x4000 = 0"
  proof -
    have "0x4000 \<in> span 0x4000 4096" using span_mem [of 0 4096 "0x4000"] by simp
    then have "0x4000 \<notin> span p 4096" if "p \<in> pages" "p \<noteq> 0x4000" for p
      using pages_disjoint [of p "0x4000"] that few_pages(4) by (auto simp: pages_def)
    then show ?thesis by (simp add: one_page_def set_ent_out)
  qed
  ultimately have rb: "read_bytes (mem one_page) (uaddr (mem one_page) 0x1000 0) (in_page 0 128) =
      0 # map (\<lambda>i. mem one_page (0x4000 + of_nat i)) [1..<128]"
    unfolding k by (simp add: read_bytes_def upt_conv_Cons)
  have u: "user_page (mem one_page) 0x1000 0" "PTE2PA (pmap (mem one_page) 0x1000 0) \<noteq> 0"
    by (simp_all add: user_page_def p one_page_leaf)
  have l: "(0 :: nat) < 128" by simp
  from copy_str_in_terminates_iff [OF vm_okD(3) [OF one_page_ok] m l u]
  show ?thesis unfolding rb by (simp del: copy_str_in.simps)
qed

end
