(* ===== verification/Virtio.thy ===== *)
theory Virtio
  imports Pmem
begin

text \<open>
  The disk driver \<^verbatim>\<open>kernel/dev/virtio_disk.c\<close> and the disk behind it.

  The driver shares with the device a table of descriptors, a ring of available requests
  and a ring of used ones; the model keeps all three, with a descriptor's address as the
  object it points to (\<open>dma_addr\<close>). The device itself is hardware: \<open>platter\<close> is the
  disk image, in units of the 1024-byte transfers the driver asks for, keyed by the first
  sector, and \<open>device_one\<close> serves one request as the virtio specification describes.
  \<open>past\<close> is a history variable: the images the disk had before each write, the latest
  first, which are the images a power failure could have left.
  The memory-mapped registers are a register file (\<open>vd_regs\<close>).

  A request is complete only when the interrupt has come. \<open>disk_sleep\<close> follows the
  process through that wait, on the schedule in which nothing else runs meanwhile: it
  reaches \<^verbatim>\<open>context_switch\<close> in \<^verbatim>\<open>sleep_on\<close>, the scheduler releases its
  lock, the device serves the ring, \<^verbatim>\<open>virtio_disk_intr\<close> wakes the process, the
  scheduler picks it again and \<^verbatim>\<open>sleep_on\<close> returns.

  \<open>bc\<close> is the block layer's part of the kernel state: the buffers of
  \<^verbatim>\<open>kernel/fs/buf.c\<close> (the index \<open>N_BUF\<close> is the list head
  \<^verbatim>\<open>bcache.head\<close>), the driver and the platter.
\<close>

section \<open>State\<close>

type_synonym blk = "nat \<Rightarrow> u8"

record buffer =
  b_valid :: bool
  b_disk :: bool
  b_dev :: u32
  b_bno :: u32
  b_refcnt :: u32
  b_data :: blk
  b_prev :: nat
  b_next :: nat

datatype dma_addr = Dma_null | Dma_req nat | Dma_data nat | Dma_status nat

record virtq_desc =
  d_addr :: dma_addr
  d_len :: u32
  d_flags :: u16
  d_next :: u16

record virtio_blk_req =
  rq_type :: u32
  rq_reserved :: u32
  rq_sector :: u64

record track_info =
  ti_b :: "nat option"
  ti_status :: u8

record virtio_disk =
  vq_desc :: "nat \<Rightarrow> virtq_desc"
  av_idx :: u16
  av_ring :: "nat \<Rightarrow> u16"
  us_idx :: u16
  us_ring :: "nat \<Rightarrow> u32"
  vd_free :: "nat \<Rightarrow> bool"
  vd_used_idx :: u16
  vd_info :: "nat \<Rightarrow> track_info"
  vd_ops :: "nat \<Rightarrow> virtio_blk_req"
  vd_regs :: "nat \<Rightarrow> u32"
  vd_mem :: u64
  dev_seen :: u16

record block_state =
  bufs :: "nat \<Rightarrow> buffer"
  vd :: virtio_disk
  platter :: "u64 \<Rightarrow> blk"
  past :: "(u64 \<Rightarrow> blk) list"

record kblk = kmem +
  bc :: block_state

definition VRING_NUM :: nat where "VRING_NUM = 8"
definition VRING_DESC_F_NEXT :: u16 where "VRING_DESC_F_NEXT = 1"
definition VRING_DESC_F_WRITE :: u16 where "VRING_DESC_F_WRITE = 2"
definition VIRTIO_BLK_T_IN :: u32 where "VIRTIO_BLK_T_IN = 0"
definition VIRTIO_BLK_T_OUT :: u32 where "VIRTIO_BLK_T_OUT = 1"
definition BLOCK_SIZE :: nat where "BLOCK_SIZE = 1024"

section \<open>Definitions\<close>

definition upd_vd :: "(virtio_disk \<Rightarrow> virtio_disk) \<Rightarrow> ('z kblk_scheme, unit) kernel" where
  "upd_vd f = modK (\<lambda>s. s\<lparr>bc := (bc s)\<lparr>vd := f (vd (bc s))\<rparr>\<rparr>)"

definition upd_buf :: "nat \<Rightarrow> (buffer \<Rightarrow> buffer) \<Rightarrow> ('z kblk_scheme, unit) kernel" where
  "upd_buf b f = modK (\<lambda>s. s\<lparr>bc := (bc s)\<lparr>bufs := (bufs (bc s))(b := f (bufs (bc s) b))\<rparr>\<rparr>)"

definition upd_desc :: "nat \<Rightarrow> virtq_desc \<Rightarrow> ('z kblk_scheme, unit) kernel" where
  "upd_desc i d = upd_vd (\<lambda>v. v\<lparr>vq_desc := (vq_desc v)(i := d)\<rparr>)"

definition read_reg :: "nat \<Rightarrow> ('z kblk_scheme, u32) kernel" where
  "read_reg r = getK (\<lambda>s. vd_regs (vd (bc s)) r)"

definition write_reg :: "nat \<Rightarrow> u32 \<Rightarrow> ('z kblk_scheme, unit) kernel" where
  "write_reg r v = upd_vd (\<lambda>d. d\<lparr>vd_regs := (vd_regs d)(r := v)\<rparr>)"

subsection \<open>Descriptors\<close>

definition alloc_desc :: "('z kblk_scheme, int) kernel" where
  "alloc_desc =
     bindK (untilK [0..<VRING_NUM] (\<lambda>i.
       bindK (getK (\<lambda>s. vd_free (vd (bc s)) i)) (\<lambda>free.
       if free then thenK (upd_vd (\<lambda>v. v\<lparr>vd_free := (vd_free v)(i := False)\<rparr>)) (retK (Some (int i)))
       else retK None)))
     (\<lambda>r. case r of None \<Rightarrow> retK (-1) | Some i \<Rightarrow> retK i)"

definition free_desc :: "int \<Rightarrow> ('z kblk_scheme, unit) kernel" where
  "free_desc i =
     (if i < 0 \<or> i \<ge> int VRING_NUM then panicK ''free an invalid descriptor'' else
      bindK (getK (\<lambda>s. vd_free (vd (bc s)) (nat i))) (\<lambda>free.
      if free then panicK ''the descriptor is already free'' else seqK [
        upd_desc (nat i) \<lparr>d_addr = Dma_null, d_len = 0, d_flags = 0, d_next = 0\<rparr>,
        upd_vd (\<lambda>v. v\<lparr>vd_free := (vd_free v)(nat i := True)\<rparr>),
        wake_up Ch_disk_free]))"

text \<open>A chain that loops would be freed twice, so it has at most \<open>VRING_NUM\<close> links.\<close>

fun free_chain :: "nat \<Rightarrow> int \<Rightarrow> ('z kblk_scheme, unit) kernel" where
  "free_chain 0 i = (\<lambda>s. NoFuel)"
| "free_chain (Suc fuel) i =
     bindK (getK (\<lambda>s. vq_desc (vd (bc s)) (nat i))) (\<lambda>d.
     thenK (free_desc i)
       (if d_flags d AND VRING_DESC_F_NEXT \<noteq> 0 then free_chain fuel (uint (d_next d)) else retK ()))"

fun alloc_descs :: "nat \<Rightarrow> int list \<Rightarrow> ('z kblk_scheme, int list option) kernel" where
  "alloc_descs 0 got = retK (Some (rev got))"
| "alloc_descs (Suc n) got =
     bindK alloc_desc (\<lambda>i.
     if i = -1 then thenK (forK (rev got) free_desc) (retK None)
     else alloc_descs n (i # got))"

definition alloc3_desc :: "('z kblk_scheme, int list option) kernel" where
  "alloc3_desc = alloc_descs 3 []"

subsection \<open>The device\<close>

definition device_one :: "block_state \<Rightarrow> block_state" where
  "device_one k =
     (let v = vd k;
          h = unat (av_ring v (unat (dev_seen v) mod VRING_NUM));
          d0 = vq_desc v h; d1 = vq_desc v (unat (d_next d0));
          k = k\<lparr>vd := v\<lparr>us_ring := (us_ring v)(unat (us_idx v) mod VRING_NUM := of_nat h),
                       us_idx := us_idx v + 1, dev_seen := dev_seen v + 1,
                       vd_info := (vd_info v)(h := (vd_info v h)\<lparr>ti_status := 0\<rparr>)\<rparr>\<rparr>
      in (case (d_addr d0, d_addr d1) of
            (Dma_req q, Dma_data b) \<Rightarrow>
              let r = vd_ops v q in
              if rq_type r = VIRTIO_BLK_T_OUT
              then k\<lparr>platter := (platter k)(rq_sector r := b_data (bufs k b)), past := platter k # past k\<rparr>
              else k\<lparr>bufs := (bufs k)(b := (bufs k b)\<lparr>b_data := platter k (rq_sector r)\<rparr>)\<rparr>
          | _ \<Rightarrow> k))"

definition device_serve :: "block_state \<Rightarrow> block_state" where
  "device_serve k = (device_one ^^ unat (av_idx (vd k) - dev_seen (vd k))) k"

subsection \<open>Requests and interrupts\<close>

definition virtio_disk_intr :: "('z kblk_scheme, unit) kernel" where
  "virtio_disk_intr = seqK [
     spin_lock_acquire L_disk,
     bindK (read_reg 0x60) (\<lambda>st. write_reg 0x64 (st AND 3)),
     bindK (getK (\<lambda>s. vd (bc s))) (\<lambda>v.
       forK [0..<unat (us_idx v - vd_used_idx v)] (\<lambda>_.
         bindK (getK (\<lambda>s. vd (bc s))) (\<lambda>v.
         let id = unat (us_ring v (unat (vd_used_idx v) mod VRING_NUM)) in
         if ti_status (vd_info v id) \<noteq> 0 then panicK ''virtio disk interrupt status'' else
         case ti_b (vd_info v id) of
           None \<Rightarrow> panicK ''kernel trap''
         | Some b \<Rightarrow> seqK [
             upd_buf b (\<lambda>x. x\<lparr>b_disk := False\<rparr>),
             wake_up (Ch_buf b),
             upd_vd (\<lambda>v. v\<lparr>vd_used_idx := vd_used_idx v + 1\<rparr>)]))),
     spin_lock_release L_disk]"

definition disk_sleep :: "nat \<Rightarrow> ('z kblk_scheme, unit) kernel" where
  "disk_sleep b s =
     (case (cur_proc s, sleep_on (Ch_buf b) L_disk s) of
        (Some p, Switch t) \<Rightarrow>
          (case seqK [scheduler_resume p, modK (\<lambda>u. u\<lparr>bc := device_serve (bc u)\<rparr>), virtio_disk_intr] t of
             Ret _ u \<Rightarrow>
               (case scheduler_visit p u of
                  Switch w \<Rightarrow> sleep_on_resume p (intr_ena (current_cpu t)) L_disk w
                | r \<Rightarrow> r)
           | r \<Rightarrow> r)
      | (_, r) \<Rightarrow> r)"

text \<open>
  \<^verbatim>\<open>while (b->disk) sleep_on(b, &disk.lock)\<close>: one wake-up follows one interrupt;
  \<open>fuel\<close> bounds the wake-ups.
\<close>

fun disk_wait :: "nat \<Rightarrow> nat \<Rightarrow> ('z kblk_scheme, unit) kernel" where
  "disk_wait 0 b = (\<lambda>s. NoFuel)"
| "disk_wait (Suc fuel) b =
     bindK (getK (\<lambda>s. b_disk (bufs (bc s) b))) (\<lambda>d.
     if d then thenK (disk_sleep b) (disk_wait fuel b) else retK ())"

definition virtio_disk_rw :: "nat \<Rightarrow> bool \<Rightarrow> ('z kblk_scheme, unit) kernel" where
  "virtio_disk_rw b is_write =
     thenK (spin_lock_acquire L_disk) (
     bindK (getK (\<lambda>s. ucast (b_bno (bufs (bc s) b) * 2))) (\<lambda>sector.
     bindK alloc3_desc (\<lambda>r.
     case r of
       None \<Rightarrow> sleep_on Ch_disk_free L_disk
     | Some idx \<Rightarrow>
         let i0 = nat (idx ! 0); i1 = nat (idx ! 1); i2 = nat (idx ! 2) in seqK [
           upd_vd (\<lambda>v. v\<lparr>vd_ops := (vd_ops v)(i0 :=
             \<lparr>rq_type = (if is_write then VIRTIO_BLK_T_OUT else VIRTIO_BLK_T_IN),
              rq_reserved = 0, rq_sector = sector\<rparr>)\<rparr>),
           upd_desc i0 \<lparr>d_addr = Dma_req i0, d_len = 16, d_flags = VRING_DESC_F_NEXT, d_next = of_nat i1\<rparr>,
           upd_desc i1 \<lparr>d_addr = Dma_data b, d_len = 1024,
             d_flags = (if is_write then 0 else VRING_DESC_F_WRITE) OR VRING_DESC_F_NEXT, d_next = of_nat i2\<rparr>,
           upd_vd (\<lambda>v. v\<lparr>vd_info := (vd_info v)(i0 := (vd_info v i0)\<lparr>ti_status := 0xff\<rparr>)\<rparr>),
           upd_desc i2 \<lparr>d_addr = Dma_status i0, d_len = 1, d_flags = VRING_DESC_F_WRITE, d_next = 0\<rparr>,
           upd_buf b (\<lambda>x. x\<lparr>b_disk := True\<rparr>),
           upd_vd (\<lambda>v. v\<lparr>vd_info := (vd_info v)(i0 := (vd_info v i0)\<lparr>ti_b := Some b\<rparr>)\<rparr>),
           upd_vd (\<lambda>v. v\<lparr>av_ring := (av_ring v)(unat (av_idx v) mod VRING_NUM := of_nat i0)\<rparr>),
           upd_vd (\<lambda>v. v\<lparr>av_idx := av_idx v + 1\<rparr>),
           write_reg 0x50 0,
           disk_wait 2 b,
           upd_vd (\<lambda>v. v\<lparr>vd_info := (vd_info v)(i0 := (vd_info v i0)\<lparr>ti_b := None\<rparr>)\<rparr>),
           free_chain VRING_NUM (int i0),
           spin_lock_release L_disk])))"

definition virtio_disk_read :: "nat \<Rightarrow> ('z kblk_scheme, unit) kernel" where
  "virtio_disk_read b = virtio_disk_rw b False"

definition virtio_disk_write :: "nat \<Rightarrow> ('z kblk_scheme, unit) kernel" where
  "virtio_disk_write b = virtio_disk_rw b True"

subsection \<open>Initialisation\<close>

definition virtio_features :: "u32 \<Rightarrow> u32" where
  "virtio_features f = fold (\<lambda>i f. f AND NOT (push_bit i 1)) [5, 7, 11, 12, 27, 29, 28] f"

definition virtio_disk_init :: "('z kblk_scheme, unit) kernel" where
  "virtio_disk_init =
     thenK (spin_lock_init L_disk ''virtio_disk'') (
     bindK (read_reg 0x0) (\<lambda>magic. bindK (read_reg 0x4) (\<lambda>version.
     bindK (read_reg 0x8) (\<lambda>device. bindK (read_reg 0xc) (\<lambda>vendor.
     if magic \<noteq> 0x74726976 \<or> version \<noteq> 1 \<or> device \<noteq> 2 \<or> vendor \<noteq> 0x554d4551
     then panicK ''could not find virtio disk'' else
     thenK (seqK [write_reg 0x70 0, write_reg 0x70 1, write_reg 0x70 (1 OR 2)]) (
     bindK (read_reg 0x10) (\<lambda>features.
     thenK (seqK [write_reg 0x20 (virtio_features features), write_reg 0x70 (1 OR 2 OR 8)]) (
     bindK (read_reg 0x70) (\<lambda>status.
     if status AND 8 = 0 then panicK ''virtio disk FEATURES_OK unset'' else
     thenK (write_reg 0x30 0) (
     bindK (read_reg 0x44) (\<lambda>ready.
     if ready \<noteq> 0 then panicK ''virtio disk should not be ready'' else
     thenK (write_reg 0x28 4096) (
     bindK (read_reg 0x34) (\<lambda>max_q_size.
     if max_q_size = 0 then panicK ''virtio disk has no queue 0''
     else if max_q_size < of_nat VRING_NUM then panicK ''virtio disk max queue too short''
     else seqK [
       upd_vd (\<lambda>v. v\<lparr>vq_desc := \<lambda>_. \<lparr>d_addr = Dma_null, d_len = 0, d_flags = 0, d_next = 0\<rparr>,
         av_idx := 0, av_ring := \<lambda>_. 0, us_idx := 0, us_ring := \<lambda>_. 0\<rparr>),
       write_reg 0x38 (of_nat VRING_NUM),
       bindK (getK (\<lambda>s. vd_mem (vd (bc s)))) (\<lambda>a. write_reg 0x40 (ucast (drop_bit 12 a))),
       write_reg 0x44 1,
       upd_vd (\<lambda>v. v\<lparr>vd_free := \<lambda>_. True\<rparr>),
       write_reg 0x70 (status OR 4)])))))))))))))"

section \<open>Frame\<close>

lemma bc_frame [simp, quiet_simps]:
  "hart_ok (bc_update f s) = hart_ok s"
  "avail (bc_update f s) L = avail s L"
  "holds (bc_update f s) L = holds s L"
  "quiet (bc_update f s) = quiet s"
  "procs_avail (bc_update f s) = procs_avail s"
  "cur_proc (bc_update f s) = cur_proc s"
  "no_sleeper (bc_update f s) = no_sleeper s"
  "calm (bc_update f s) = calm s"
  "n_off (current_cpu (bc_update f s)) = n_off (current_cpu s)"
  "intr_ena (current_cpu (bc_update f s)) = intr_ena (current_cpu s)"
  "grab L (bc_update f s) = bc_update f (grab L s)"
  "ungrab L (bc_update f s) = bc_update f (ungrab L s)"
  "setp c (bc_update f s) = bc_update f (setp c s)"
  "bc (grab L s) = bc s" "bc (ungrab L s) = bc s" "bc (setp c s) = bc s"
  "pool (bc_update f s) ps = pool s ps"
  by (simp_all add: procs_avail_def avail_def holds_def quiet_def cur_proc_def lock_free_def calm_def
      spin_lock_holding_def grab_def ungrab_def setp_def hart_defs no_sleeper_def pool_def fun_eq_iff Let_def)

lemma bc_swap [simp]:
  "procs_update gpr (bc_update f s) = bc_update f (procs_update gpr s)"
  "sleeps_update gsl (bc_update f s) = bc_update f (sleeps_update gsl s)"
  "mem_update gme (bc_update f s) = bc_update f (mem_update gme s)"
  "free_head_update gfr (bc_update f s) = bc_update f (free_head_update gfr s)"
  by (cases s; simp)+

lemma block_state_swap [simp]:
  "bufs_update f (vd_update g k) = vd_update g (bufs_update f k)"
  "bufs_update f (platter_update h k) = platter_update h (bufs_update f k)"
  "vd_update g (platter_update h k) = platter_update h (vd_update g k)"
  "bufs_update f (past_update j k) = past_update j (bufs_update f k)"
  "vd_update g (past_update j k) = past_update j (vd_update g k)"
  "platter_update h (past_update j k) = past_update j (platter_update h k)"
  by (cases k; simp)+

lemma buffer_swap [simp]:
  "b_valid_update f0 (b_disk_update f1 x) = b_disk_update f1 (b_valid_update f0 x)"
  "b_valid_update f0 (b_dev_update f2 x) = b_dev_update f2 (b_valid_update f0 x)"
  "b_valid_update f0 (b_bno_update f3 x) = b_bno_update f3 (b_valid_update f0 x)"
  "b_valid_update f0 (b_refcnt_update f4 x) = b_refcnt_update f4 (b_valid_update f0 x)"
  "b_valid_update f0 (b_data_update f5 x) = b_data_update f5 (b_valid_update f0 x)"
  "b_valid_update f0 (b_prev_update f6 x) = b_prev_update f6 (b_valid_update f0 x)"
  "b_valid_update f0 (b_next_update f7 x) = b_next_update f7 (b_valid_update f0 x)"
  "b_disk_update f1 (b_dev_update f2 x) = b_dev_update f2 (b_disk_update f1 x)"
  "b_disk_update f1 (b_bno_update f3 x) = b_bno_update f3 (b_disk_update f1 x)"
  "b_disk_update f1 (b_refcnt_update f4 x) = b_refcnt_update f4 (b_disk_update f1 x)"
  "b_disk_update f1 (b_data_update f5 x) = b_data_update f5 (b_disk_update f1 x)"
  "b_disk_update f1 (b_prev_update f6 x) = b_prev_update f6 (b_disk_update f1 x)"
  "b_disk_update f1 (b_next_update f7 x) = b_next_update f7 (b_disk_update f1 x)"
  "b_dev_update f2 (b_bno_update f3 x) = b_bno_update f3 (b_dev_update f2 x)"
  "b_dev_update f2 (b_refcnt_update f4 x) = b_refcnt_update f4 (b_dev_update f2 x)"
  "b_dev_update f2 (b_data_update f5 x) = b_data_update f5 (b_dev_update f2 x)"
  "b_dev_update f2 (b_prev_update f6 x) = b_prev_update f6 (b_dev_update f2 x)"
  "b_dev_update f2 (b_next_update f7 x) = b_next_update f7 (b_dev_update f2 x)"
  "b_bno_update f3 (b_refcnt_update f4 x) = b_refcnt_update f4 (b_bno_update f3 x)"
  "b_bno_update f3 (b_data_update f5 x) = b_data_update f5 (b_bno_update f3 x)"
  "b_bno_update f3 (b_prev_update f6 x) = b_prev_update f6 (b_bno_update f3 x)"
  "b_bno_update f3 (b_next_update f7 x) = b_next_update f7 (b_bno_update f3 x)"
  "b_refcnt_update f4 (b_data_update f5 x) = b_data_update f5 (b_refcnt_update f4 x)"
  "b_refcnt_update f4 (b_prev_update f6 x) = b_prev_update f6 (b_refcnt_update f4 x)"
  "b_refcnt_update f4 (b_next_update f7 x) = b_next_update f7 (b_refcnt_update f4 x)"
  "b_data_update f5 (b_prev_update f6 x) = b_prev_update f6 (b_data_update f5 x)"
  "b_data_update f5 (b_next_update f7 x) = b_next_update f7 (b_data_update f5 x)"
  "b_prev_update f6 (b_next_update f7 x) = b_next_update f7 (b_prev_update f6 x)"
  by (cases x; simp)+

lemma upd_vd_apply [simp]: "upd_vd f s = Ret () (s\<lparr>bc := (bc s)\<lparr>vd := f (vd (bc s))\<rparr>\<rparr>)"
  by (simp add: upd_vd_def)

lemma upd_buf_apply [simp]:
  "upd_buf b f s = Ret () (s\<lparr>bc := (bc s)\<lparr>bufs := (bufs (bc s))(b := f (bufs (bc s) b))\<rparr>\<rparr>)"
  by (simp add: upd_buf_def)

lemma upd_desc_apply [simp]:
  "upd_desc i d s = Ret () (s\<lparr>bc := (bc s)\<lparr>vd := (vd (bc s))\<lparr>vq_desc := (vq_desc (vd (bc s)))(i := d)\<rparr>\<rparr>\<rparr>)"
  by (simp add: upd_desc_def)

lemma reg_apply [simp]:
  "read_reg r s = Ret (vd_regs (vd (bc s)) r) s"
  "write_reg r v s = Ret () (s\<lparr>bc := (bc s)\<lparr>vd := (vd (bc s))\<lparr>vd_regs := (vd_regs (vd (bc s)))(r := v)\<rparr>\<rparr>\<rparr>)"
  by (simp_all add: read_reg_def write_reg_def)

section \<open>Descriptors as a resource pool\<close>

lemma alloc_desc_eq:
  "alloc_desc s = (case find (vd_free (vd (bc s))) [0..<VRING_NUM] of
     None \<Rightarrow> Ret (-1) s
   | Some i \<Rightarrow> Ret (int i) (s\<lparr>bc := (bc s)\<lparr>vd := (vd (bc s))\<lparr>vd_free := (vd_free (vd (bc s)))(i := False)\<rparr>\<rparr>\<rparr>))"
proof -
  let ?body = "\<lambda>i. bindK (getK (\<lambda>s. vd_free (vd (bc s)) i)) (\<lambda>free.
       if free then thenK (upd_vd (\<lambda>v. v\<lparr>vd_free := (vd_free v)(i := False)\<rparr>)) (retK (Some (int i)))
       else retK None)"
  have "untilK [0..<VRING_NUM] ?body s = (case find (vd_free (vd (bc s))) [0..<VRING_NUM] of
     None \<Rightarrow> Ret None s
   | Some i \<Rightarrow> Ret (Some (int i)) (s\<lparr>bc := (bc s)\<lparr>vd := (vd (bc s))\<lparr>vd_free := (vd_free (vd (bc s)))(i := False)\<rparr>\<rparr>\<rparr>))"
    by (rule untilK_find) simp_all
  then show ?thesis by (simp add: alloc_desc_def bindK_def split: option.splits)
qed

definition vd_inv :: "'z kblk_scheme \<Rightarrow> int set \<Rightarrow> bool" where
  "vd_inv s F \<longleftrightarrow> procs_avail s \<and> no_sleeper s Ch_disk_free \<and>
     F = {i. 0 \<le> i \<and> i < int VRING_NUM \<and> vd_free (vd (bc s)) (nat i)}"

lemma free_desc_eq:
  assumes "procs_avail s" "no_sleeper s Ch_disk_free" "i < VRING_NUM" "\<not> vd_free (vd (bc s)) i"
  shows "free_desc (int i) s = Ret () (s\<lparr>bc := (bc s)\<lparr>vd := (vd (bc s))\<lparr>
    vq_desc := (vq_desc (vd (bc s)))(i := \<lparr>d_addr = Dma_null, d_len = 0, d_flags = 0, d_next = 0\<rparr>),
    vd_free := (vd_free (vd (bc s)))(i := True)\<rparr>\<rparr>\<rparr>)"
  using assms by (simp add: free_desc_def woken_id)

interpretation descs: resource_pool vd_inv "{i. 0 \<le> i \<and> i < int VRING_NUM}" "-1" alloc_desc free_desc
proof (unfold_locales, goal_cases)
  case (1 s F)
  then show ?case by (auto simp: vd_inv_def intro: finite_subset [of _ "{0..<int VRING_NUM}"])
next
  case 2
  show ?case by simp
next
  case (3 s)
  have "\<not> vd_free (vd (bc s)) i" if "i < VRING_NUM" for i
  proof -
    have "int i \<notin> {i. 0 \<le> i \<and> i < int VRING_NUM \<and> vd_free (vd (bc s)) (nat i)}"
      using 3 unfolding vd_inv_def by blast
    with that show ?thesis by simp
  qed
  then have "find (vd_free (vd (bc s))) [0..<VRING_NUM] = None" by (simp add: find_None_iff)
  then show ?case by (simp add: alloc_desc_eq)
next
  case (4 s F)
  then obtain i where "i < VRING_NUM" "vd_free (vd (bc s)) i"
    by (auto simp: vd_inv_def) (metis nat_less_iff)
  then obtain j where j: "find (vd_free (vd (bc s))) [0..<VRING_NUM] = Some j"
    using find_upt_NoneD by (cases "find (vd_free (vd (bc s))) [0..<VRING_NUM]") blast+
  note fj = find_upt_SomeD [OF j]
  have "int j \<in> F" using 4(1) fj by (simp add: vd_inv_def)
  moreover have "vd_inv (s\<lparr>bc := (bc s)\<lparr>vd := (vd (bc s))\<lparr>vd_free := (vd_free (vd (bc s)))(j := False)\<rparr>\<rparr>\<rparr>) (F - {int j})"
    using 4(1) by (auto simp: vd_inv_def)
  ultimately show ?case using j by (simp add: alloc_desc_eq)
next
  case (5 s F r)
  then have r: "r = int (nat r)" "nat r < VRING_NUM" "\<not> vd_free (vd (bc s)) (nat r)"
    by (auto simp: vd_inv_def)
  have "vd_inv (s\<lparr>bc := (bc s)\<lparr>vd := (vd (bc s))\<lparr>
    vq_desc := (vq_desc (vd (bc s)))(nat r := \<lparr>d_addr = Dma_null, d_len = 0, d_flags = 0, d_next = 0\<rparr>),
    vd_free := (vd_free (vd (bc s)))(nat r := True)\<rparr>\<rparr>\<rparr>) (insert r F)"
    using 5 by (auto simp: vd_inv_def)
  then show ?case using free_desc_eq [OF _ _ r(2,3)] 5(1) r(1) by (auto simp: vd_inv_def)
qed

section \<open>A request from submission to completion\<close>

definition vd_idle :: "virtio_disk \<Rightarrow> bool" where
  "vd_idle v \<longleftrightarrow> (\<forall>i<VRING_NUM. vd_free v i) \<and> dev_seen v = av_idx v \<and> vd_used_idx v = us_idx v"

lemma intr_one:
  assumes "quiet s"
    and "us_idx (vd (bc s)) = vd_used_idx (vd (bc s)) + 1"
    and "h = unat (us_ring (vd (bc s)) (unat (vd_used_idx (vd (bc s))) mod VRING_NUM))"
    and "ti_status (vd_info (vd (bc s)) h) = 0" "ti_b (vd_info (vd (bc s)) h) = Some b"
  shows "\<exists>rg. virtio_disk_intr s = Ret () (s\<lparr>
    bc := (bc s)\<lparr>bufs := (bufs (bc s))(b := (bufs (bc s) b)\<lparr>b_disk := False\<rparr>),
                  vd := (vd (bc s))\<lparr>vd_regs := rg, vd_used_idx := us_idx (vd (bc s))\<rparr>\<rparr>,
    procs := woken (cur_proc s) (Ch_buf b) (procs s)\<rparr>)"
proof -
  have one: "unat (us_idx (vd (bc s)) - vd_used_idx (vd (bc s))) = Suc 0" using assms(2) by simp
  have av: "avail s L_disk" "procs_avail s" using assms(1) by auto
  show ?thesis
    using assms av
    by (intro exI [of _ "(vd_regs (vd (bc s)))(0x64 := vd_regs (vd (bc s)) 0x60 AND 3)"])
       (simp add: virtio_disk_intr_def one Let_def)
qed

lemma disk_sleep_eq:
  assumes c: "calm s p" and k: "k = device_serve (bc s)"
    and u: "us_idx (vd k) = vd_used_idx (vd k) + 1"
    and h: "h = unat (us_ring (vd k) (unat (vd_used_idx (vd k)) mod VRING_NUM))"
    and i: "ti_status (vd_info (vd k) h) = 0" "ti_b (vd_info (vd k) h) = Some b"
  shows "\<exists>rg. disk_sleep b (grab L_disk s) = Ret () (grab L_disk (s\<lparr>
    bc := k\<lparr>bufs := (bufs k)(b := (bufs k b)\<lparr>b_disk := False\<rparr>),
            vd := (vd k)\<lparr>vd_regs := rg, vd_used_idx := us_idx (vd k)\<rparr>\<rparr>\<rparr>))"
proof -
  note d = calmD [OF c]
  let ?ps = "(procs s)(p := (procs s p)\<lparr>p_chan := Some (Ch_buf b), p_state := PROC_SLEEPING\<rparr>)"
  let ?t = "(grab (L_proc p) s)\<lparr>procs := ?ps\<rparr>"
  let ?u = "setp None (s\<lparr>procs := ?ps, bc := k\<rparr>)"
  have sl: "sleep_on (Ch_buf b) L_disk (grab L_disk s) = Switch ?t"
    using sleep_on_calm [OF c] by simp
  have av: "avail s (L_proc p)" using d(1) by auto
  have re: "scheduler_resume p ?t = Ret () (setp None (s\<lparr>procs := ?ps\<rparr>))"
    using av by (simp add: scheduler_resume_def setp_grab flip: setp_def)
  have q: "quiet ?u" using d(1) by simp
  obtain rg where it: "virtio_disk_intr ?u = Ret () (?u\<lparr>
      bc := k\<lparr>bufs := (bufs k)(b := (bufs k b)\<lparr>b_disk := False\<rparr>),
              vd := (vd k)\<lparr>vd_regs := rg, vd_used_idx := us_idx (vd k)\<rparr>\<rparr>,
      procs := woken None (Ch_buf b) ?ps\<rparr>)"
    using intr_one [OF q, of h b] u h i by auto
  let ?k = "k\<lparr>bufs := (bufs k)(b := (bufs k b)\<lparr>b_disk := False\<rparr>),
              vd := (vd k)\<lparr>vd_regs := rg, vd_used_idx := us_idx (vd k)\<rparr>\<rparr>"
  have wk: "woken None (Ch_buf b) ?ps =
      (procs s)(p := (procs s p)\<lparr>p_chan := Some (Ch_buf b), p_state := PROC_RUNNABLE\<rparr>)"
    using d(5) d(8) [of "Ch_buf b"] by (auto simp: woken_def no_sleeper_def fun_eq_iff)
  let ?ps' = "(procs s)(p := (procs s p)\<lparr>p_chan := Some (Ch_buf b), p_state := PROC_RUNNABLE\<rparr>)"
  let ?w = "(setp None s)\<lparr>procs := ?ps', bc := ?k\<rparr>"
  let ?x = "(grab (L_proc p) s)\<lparr>procs := (procs s)(p := (procs s p)\<lparr>p_chan := Some (Ch_buf b)\<rparr>), bc := ?k\<rparr>"
  have run: "seqK [scheduler_resume p, modK (\<lambda>u. u\<lparr>bc := device_serve (bc u)\<rparr>), virtio_disk_intr] ?t = Ret () ?w"
    using re it wk k by simp
  have vi: "scheduler_visit p ?w = Switch ?x"
    using av d(4,6) by (subst scheduler_visit_runnable) (simp_all add: setp_grab proc_upd_triv)
  have dk: "avail s L_disk" using d(1) by auto
  have ie: "intr_ena (current_cpu ?x) = intr_ena (current_cpu ?t)" by simp
  have "disk_sleep b (grab L_disk s) = sleep_on_resume p (intr_ena (current_cpu ?t)) L_disk ?x"
    using d(4) by (simp only: disk_sleep_def sl run vi cur_proc_grab prod.case option.case res.case)
  also have "\<dots> = Ret () (grab L_disk (s\<lparr>bc := ?k\<rparr>))"
    unfolding sleep_on_resume_id [OF ie]
    using av dk d(7) by (simp add: proc_chan_triv procs_triv)
  finally show ?thesis by blast
qed

text \<open>What a request transfers, as the buffer layer sees it.\<close>

definition xfer :: "nat \<Rightarrow> bool \<Rightarrow> block_state \<Rightarrow> block_state" where
  "xfer b is_write k =
     (let sector = ucast (b_bno (bufs k b) * 2) in
      if is_write then k\<lparr>platter := (platter k)(sector := b_data (bufs k b)), past := platter k # past k\<rparr>
      else k\<lparr>bufs := (bufs k)(b := (bufs k b)\<lparr>b_data := platter k sector\<rparr>)\<rparr>)"

lemma alloc3_idle:
  assumes "vd_idle (vd (bc s))"
  shows "alloc3_desc s = Ret (Some [0, 1, 2])
    (s\<lparr>bc := (bc s)\<lparr>vd := (vd (bc s))\<lparr>vd_free := (vd_free (vd (bc s)))(0 := False, 1 := False, 2 := False)\<rparr>\<rparr>\<rparr>)"
proof -
  let ?f = "vd_free (vd (bc s))"
  have f: "\<And>i. i < VRING_NUM \<Longrightarrow> ?f i" using assms by (simp add: vd_idle_def)
  have 0: "find ?f [0..<VRING_NUM] = Some 0"
    by (rule find_upt_SomeI) (use f in \<open>auto simp: VRING_NUM_def\<close>)
  have 1: "find (?f(0 := False)) [0..<VRING_NUM] = Some 1"
    by (rule find_upt_SomeI) (use f in \<open>auto simp: VRING_NUM_def\<close>)
  have 2: "find (?f(0 := False, Suc 0 := False)) [0..<VRING_NUM] = Some 2"
    by (rule find_upt_SomeI) (use f in \<open>auto simp: VRING_NUM_def\<close>)
  show ?thesis
    by (simp add: alloc3_desc_def numeral_3_eq_3 alloc_desc_eq 0 1 2)
qed

lemma free_chain_numeral:
  "free_chain (numeral n) i =
     bindK (getK (\<lambda>s. vq_desc (vd (bc s)) (nat i))) (\<lambda>d.
     thenK (free_desc i)
       (if d_flags d AND VRING_DESC_F_NEXT \<noteq> 0 then free_chain (pred_numeral n) (uint (d_next d)) else retK ()))"
  by (simp add: numeral_eq_Suc)

text \<open>The block layer's state while the request \<open>(b, w)\<close> waits for the device.\<close>

definition submitted :: "nat \<Rightarrow> bool \<Rightarrow> block_state \<Rightarrow> (nat \<Rightarrow> u32) \<Rightarrow> block_state" where
  "submitted b w k rg =
     (let v = vd k in
      k\<lparr>vd := v\<lparr>
          vd_free := (vd_free v)(0 := False, 1 := False, 2 := False),
          vd_ops := (vd_ops v)(0 := \<lparr>rq_type = (if w then VIRTIO_BLK_T_OUT else VIRTIO_BLK_T_IN),
             rq_reserved = 0, rq_sector = ucast (b_bno (bufs k b) * 2)\<rparr>),
          vq_desc := (vq_desc v)(
             0 := \<lparr>d_addr = Dma_req 0, d_len = 16, d_flags = VRING_DESC_F_NEXT, d_next = 1\<rparr>,
             1 := \<lparr>d_addr = Dma_data b, d_len = 1024,
               d_flags = (if w then 0 else VRING_DESC_F_WRITE) OR VRING_DESC_F_NEXT, d_next = 2\<rparr>,
             2 := \<lparr>d_addr = Dma_status 0, d_len = 1, d_flags = VRING_DESC_F_WRITE, d_next = 0\<rparr>),
          vd_info := (vd_info v)(0 := \<lparr>ti_b = Some b, ti_status = 0xff\<rparr>),
          av_ring := (av_ring v)(unat (av_idx v) mod VRING_NUM := 0),
          av_idx := av_idx v + 1,
          vd_regs := rg\<rparr>,
        bufs := (bufs k)(b := (bufs k b)\<lparr>b_disk := True\<rparr>)\<rparr>)"

lemma device_serve_one: "av_idx (vd k) = dev_seen (vd k) + 1 \<Longrightarrow> device_serve k = device_one k"
  by (simp add: device_serve_def)

lemma track_info_upd: "x\<lparr>ti_status := a, ti_b := b\<rparr> = \<lparr>ti_b = b, ti_status = a\<rparr>"
  by simp

lemma virtio_disk_rw_submit:
  assumes "vd_idle (vd (bc s))" "quiet s"
  shows "virtio_disk_rw b w s = seqK [
       disk_wait 2 b,
       upd_vd (\<lambda>v. v\<lparr>vd_info := (vd_info v)(0 := (vd_info v 0)\<lparr>ti_b := None\<rparr>)\<rparr>),
       free_chain VRING_NUM 0,
       spin_lock_release L_disk] (grab L_disk (s\<lparr>bc := submitted b w (bc s) ((vd_regs (vd (bc s)))(0x50 := 0))\<rparr>))"
proof -
  have av: "avail s L_disk" using assms(2) by auto
  have i: "vd_idle (vd (bc (grab L_disk s)))" using assms(1) by simp
  show ?thesis
    using av alloc3_idle [OF i]
    by (simp add: virtio_disk_rw_def submitted_def Let_def track_info_upd)
qed


lemma calm_grab_disk:
  assumes "calm s p"
  shows "procs_avail (grab L_disk s)" "no_sleeper (grab L_disk s) Ch_disk_free" "avail s L_disk"
  using calmD(1) [OF assms] calmD(8) [OF assms, of Ch_disk_free] by (auto simp: no_sleeper_def)

lemmas free_desc_lits =
  free_desc_eq [of _ 0, unfolded VRING_NUM_def, simplified]
  free_desc_eq [of _ 1, unfolded VRING_NUM_def, simplified]
  free_desc_eq [of _ 2, unfolded VRING_NUM_def, simplified]

lemma free_three:
  assumes c: "calm s p"
    and q: "vq_desc (vd (bc s)) 0 = \<lparr>d_addr = Dma_req 0, d_len = 16, d_flags = VRING_DESC_F_NEXT, d_next = 1\<rparr>"
      "d_flags (vq_desc (vd (bc s)) 1) AND VRING_DESC_F_NEXT \<noteq> 0" "d_next (vq_desc (vd (bc s)) 1) = 2"
      "d_flags (vq_desc (vd (bc s)) 2) AND VRING_DESC_F_NEXT = 0"
    and f: "\<not> vd_free (vd (bc s)) 0" "\<not> vd_free (vd (bc s)) 1" "\<not> vd_free (vd (bc s)) 2"
  shows "\<exists>qd. free_chain VRING_NUM 0 (grab L_disk s) = Ret () (grab L_disk (s\<lparr>bc := (bc s)\<lparr>vd := (vd (bc s))\<lparr>
    vq_desc := qd, vd_free := (vd_free (vd (bc s)))(0 := True, 1 := True, 2 := True)\<rparr>\<rparr>\<rparr>))"
proof -
  note g = calm_grab_disk [OF c]
  have g': "no_sleeper s Ch_disk_free" using g(2) by (simp add: no_sleeper_def)
  have n: "free_chain VRING_NUM = free_chain 8" by (simp add: VRING_NUM_def)
  show ?thesis
    unfolding n using q f g(1,2) g'
    by (simp add: free_chain_numeral free_desc_lits VRING_DESC_F_NEXT_def) blast
qed

lemma device_one_submitted:
  assumes "vd_idle (vd k)" "v = vd (submitted b w k rg)" "x = xfer b w k"
  shows "device_one (submitted b w k rg) = x\<lparr>
    bufs := (bufs x)(b := (bufs x b)\<lparr>b_disk := True\<rparr>),
    vd := v\<lparr>us_ring := (us_ring v)(unat (us_idx v) mod VRING_NUM := 0),
            us_idx := us_idx v + 1, dev_seen := dev_seen v + 1,
            vd_info := (vd_info v)(0 := \<lparr>ti_b = Some b, ti_status = 0\<rparr>)\<rparr>\<rparr>"
proof -
  have "dev_seen (vd k) = av_idx (vd k)" using assms(1) by (simp add: vd_idle_def)
  then show ?thesis
    using assms(2,3)
    by (simp add: device_one_def submitted_def Let_def xfer_def VIRTIO_BLK_T_IN_def VIRTIO_BLK_T_OUT_def)
qed

lemma disk_wait_ok:
  assumes c: "calm s p" and i: "vd_idle (vd (bc s))" and d: "\<not> b_disk (bufs (bc s) b)"
    and k: "k = submitted b w (bc s) rg"
  shows "\<exists>v. disk_wait 2 b (grab L_disk (s\<lparr>bc := k\<rparr>)) = Ret () (grab L_disk (s\<lparr>bc := (xfer b w (bc s))\<lparr>vd := v\<rparr>\<rparr>)) \<and>
     dev_seen v = av_idx v \<and> vd_used_idx v = us_idx v \<and>
     vq_desc v = vq_desc (vd k) \<and> vd_free v = vd_free (vd k)"
proof -
  let ?s = "s\<lparr>bc := k\<rparr>" and ?d = "device_one k"
  have cs: "calm ?s p" using c by simp
  have ds: "device_serve (bc ?s) = ?d"
    using i k by (simp add: device_serve_one submitted_def Let_def vd_idle_def)
  note one = device_one_submitted [OF i k [THEN arg_cong [where f = vd]] refl, folded k]
  have s1: "us_idx (vd ?d) = vd_used_idx (vd ?d) + 1"
    and s2: "us_ring (vd ?d) (unat (vd_used_idx (vd ?d)) mod VRING_NUM) = 0"
    and s3: "vd_info (vd ?d) 0 = \<lparr>ti_b = Some b, ti_status = 0\<rparr>"
    unfolding one using i k by (simp_all add: submitted_def Let_def vd_idle_def)
  have dt: "b_disk (bufs k b)" using k by (simp add: submitted_def Let_def)
  have df: "\<not> b_disk (bufs (xfer b w (bc s)) b)" using d by (simp add: xfer_def Let_def)
  have bx: "(bufs (xfer b w (bc s)))(b := (bufs (xfer b w (bc s)) b)\<lparr>b_disk := False\<rparr>) = bufs (xfer b w (bc s))"
    using d by (auto simp: xfer_def Let_def fun_eq_iff)
  obtain rg' where "disk_sleep b (grab L_disk ?s) = Ret () (grab L_disk (?s\<lparr>
    bc := ?d\<lparr>bufs := (bufs ?d)(b := (bufs ?d b)\<lparr>b_disk := False\<rparr>),
            vd := (vd ?d)\<lparr>vd_regs := rg', vd_used_idx := us_idx (vd ?d)\<rparr>\<rparr>\<rparr>))"
    using disk_sleep_eq [OF cs ds [symmetric] s1, of 0 b] s2 s3 by auto
  then have "disk_wait 2 b (grab L_disk ?s) = Ret () (grab L_disk (s\<lparr>bc := (xfer b w (bc s))\<lparr>vd :=
      (vd ?d)\<lparr>vd_regs := rg', vd_used_idx := us_idx (vd ?d)\<rparr>\<rparr>\<rparr>))"
    using dt df by (simp add: numeral_2_eq_2 one bx)
  moreover have "dev_seen (vd ?d) = av_idx (vd ?d)" "vq_desc (vd ?d) = vq_desc (vd k)"
    "vd_free (vd ?d) = vd_free (vd k)"
    unfolding one using i k by (simp_all add: submitted_def Let_def vd_idle_def)
  ultimately show ?thesis
    by (intro exI [of _ "(vd ?d)\<lparr>vd_regs := rg', vd_used_idx := us_idx (vd ?d)\<rparr>"]) simp
qed

theorem virtio_disk_rw_ok:
  assumes c: "calm s p" and i: "vd_idle (vd (bc s))" and d: "\<not> b_disk (bufs (bc s) b)"
  shows "\<exists>v. vd_idle v \<and> virtio_disk_rw b w s = Ret () (s\<lparr>bc := (xfer b w (bc s))\<lparr>vd := v\<rparr>\<rparr>)"
proof -
  let ?k = "submitted b w (bc s) ((vd_regs (vd (bc s)))(0x50 := 0))"
  obtain v where w: "disk_wait 2 b (grab L_disk (s\<lparr>bc := ?k\<rparr>)) = Ret () (grab L_disk (s\<lparr>bc := (xfer b w (bc s))\<lparr>vd := v\<rparr>\<rparr>))"
    and v: "dev_seen v = av_idx v" "vd_used_idx v = us_idx v" "vq_desc v = vq_desc (vd ?k)" "vd_free v = vd_free (vd ?k)"
    using disk_wait_ok [OF c i d refl] by blast
  let ?v = "v\<lparr>vd_info := (vd_info v)(0 := (vd_info v 0)\<lparr>ti_b := None\<rparr>)\<rparr>"
  have q: "vq_desc ?v 0 = \<lparr>d_addr = Dma_req 0, d_len = 16, d_flags = VRING_DESC_F_NEXT, d_next = 1\<rparr>"
      "d_flags (vq_desc ?v 1) AND VRING_DESC_F_NEXT \<noteq> 0" "d_next (vq_desc ?v 1) = 2"
      "d_flags (vq_desc ?v 2) AND VRING_DESC_F_NEXT = 0"
      "\<not> vd_free ?v 0" "\<not> vd_free ?v 1" "\<not> vd_free ?v 2"
    using v by (simp_all add: submitted_def Let_def VRING_DESC_F_NEXT_def VRING_DESC_F_WRITE_def)
  have cs: "calm (s\<lparr>bc := (xfer b w (bc s))\<lparr>vd := ?v\<rparr>\<rparr>) p" using c by simp
  obtain qd where f: "free_chain VRING_NUM 0 (grab L_disk (s\<lparr>bc := (xfer b w (bc s))\<lparr>vd := ?v\<rparr>\<rparr>)) =
    Ret () (grab L_disk (s\<lparr>bc := (xfer b w (bc s))\<lparr>vd := ?v\<lparr>
    vq_desc := qd, vd_free := (vd_free ?v)(0 := True, 1 := True, 2 := True)\<rparr>\<rparr>\<rparr>))"
    using free_three [OF cs] q by auto
  let ?v' = "?v\<lparr>vq_desc := qd, vd_free := (vd_free ?v)(0 := True, 1 := True, 2 := True)\<rparr>"
  have qs: "quiet s" and av: "avail s L_disk" using calmD(1) [OF c] by auto
  have "virtio_disk_rw b w s = Ret () (s\<lparr>bc := (xfer b w (bc s))\<lparr>vd := ?v'\<rparr>\<rparr>)"
    unfolding virtio_disk_rw_submit [OF i qs] using w f av by simp
  moreover have "vd_idle ?v'"
    using i v by (simp add: vd_idle_def submitted_def Let_def)
  ultimately show ?thesis by blast
qed

section \<open>Properties\<close>


definition idle_disk :: virtio_disk where
  "idle_disk = \<lparr>vq_desc = \<lambda>_. \<lparr>d_addr = Dma_null, d_len = 0, d_flags = 0, d_next = 0\<rparr>,
     av_idx = 0, av_ring = \<lambda>_. 0, us_idx = 0, us_ring = \<lambda>_. 0, vd_free = \<lambda>_. True, vd_used_idx = 0,
     vd_info = \<lambda>_. \<lparr>ti_b = None, ti_status = 0\<rparr>,
     vd_ops = \<lambda>_. \<lparr>rq_type = 0, rq_reserved = 0, rq_sector = 0\<rparr>,
     vd_regs = \<lambda>_. 0, vd_mem = 0x80300000, dev_seen = 0\<rparr>"

definition cold_cache :: block_state where
  "cold_cache = \<lparr>bufs = \<lambda>i. \<lparr>b_valid = False, b_disk = False, b_dev = 0, b_bno = 7, b_refcnt = 0,
     b_data = \<lambda>j. of_nat (i + j), b_prev = 0, b_next = 0\<rparr>, vd = idle_disk, platter = \<lambda>_ _. 0, past = []\<rparr>"

definition blk_state :: kblk where
  "blk_state = kmem.extend (kbase.extend one_proc
     (kmem.fields (\<lambda>_. 0) 0 0 0x87ffd000 0x80200000 0x80210000 0x8020f000 (\<lambda>_. 0))) (kblk.fields cold_cache)"

lemma blk_state_ok [simp]: "calm blk_state 0" "bc blk_state = cold_cache" "vd_idle idle_disk"
  by (simp_all add: blk_state_def one_proc_def boot_state_def quiet_def lock_free_def hart_defs calm_def
      no_sleeper_def cur_proc_def N_PROC_def Let_def vd_idle_def idle_disk_def kbase.defs kmem.defs kblk.defs)



end
