(* ===== verification/Buf.thy ===== *)
theory Buf
  imports Virtio
begin

text \<open>
  The buffer cache \<^verbatim>\<open>kernel/fs/buf.c\<close>: a fixed set of buffers on a doubly linked
  list that runs from the most to the least recently released one, with the list head as
  one more list node (index \<open>N_BUF\<close>).

  The second half gives the cache its contract. \<open>bcache s L D W R H\<close> says that the
  cache of state \<open>s\<close> presents the block contents \<open>L\<close> over the disk contents
  \<open>D\<close>, which were those of \<open>W\<close> before each write so far, the latest first; that block \<open>n\<close> has \<open>R n\<close> references, and that \<open>H\<close> gives the
  buffers the running process has locked. Every operation is an update of these five.
\<close>

definition MAX_OP_BLKS :: nat where "MAX_OP_BLKS = 10"
definition N_BUF :: nat where "N_BUF = MAX_OP_BLKS * 3"
definition ROOT_DEV :: u32 where "ROOT_DEV = 1"

lemma N_BUF_30 [simp]: "N_BUF = 30"
  by (simp add: N_BUF_def MAX_OP_BLKS_def)

declare N_BUF_30 [simp del]

section \<open>Definitions\<close>

definition binit_buf :: "nat \<Rightarrow> ('z kblk_scheme, unit) kernel" where
  "binit_buf b =
     thenK (sleep_lock_init (SL_buf b) ''buf'') (
     bindK (getK (\<lambda>s. b_next (bufs (bc s) N_BUF))) (\<lambda>first. seqK [
       upd_buf b (\<lambda>x. x\<lparr>b_refcnt := 0, b_valid := False, b_next := first, b_prev := N_BUF\<rparr>),
       upd_buf first (\<lambda>x. x\<lparr>b_prev := b\<rparr>),
       upd_buf N_BUF (\<lambda>x. x\<lparr>b_next := b\<rparr>)]))"

definition binit :: "('z kblk_scheme, unit) kernel" where
  "binit = seqK [
     spin_lock_init L_bcache ''bcache'',
     upd_buf N_BUF (\<lambda>x. x\<lparr>b_prev := N_BUF, b_next := N_BUF\<rparr>),
     forK [0..<N_BUF] binit_buf]"

text \<open>
  The two search loops of \<^verbatim>\<open>bread\<close>. A list that never came back to the head would
  run for ever; \<open>N_BUF + 1\<close> tests are enough for one that does.
\<close>

fun bscan :: "nat \<Rightarrow> (buffer \<Rightarrow> nat) \<Rightarrow> (buffer \<Rightarrow> bool) \<Rightarrow> nat \<Rightarrow> ('z kblk_scheme, nat option) kernel" where
  "bscan 0 nxt P b = (\<lambda>s. NoFuel)"
| "bscan (Suc n) nxt P b =
     (if b = N_BUF then retK None else
      bindK (getK (\<lambda>s. bufs (bc s) b)) (\<lambda>x.
      if P x then retK (Some b) else bscan n nxt P (nxt x)))"

definition bread :: "u32 \<Rightarrow> u32 \<Rightarrow> ('z kblk_scheme, nat) kernel" where
  "bread dev bno =
     thenK (spin_lock_acquire L_bcache) (
     bindK (getK (\<lambda>s. b_next (bufs (bc s) N_BUF))) (\<lambda>b0.
     bindK (bscan (Suc N_BUF) b_next (\<lambda>x. b_dev x = dev \<and> b_bno x = bno) b0) (\<lambda>r.
     case r of
       Some b \<Rightarrow> thenK (seqK [
           upd_buf b (\<lambda>x. x\<lparr>b_refcnt := b_refcnt x + 1\<rparr>),
           spin_lock_release L_bcache,
           sleep_lock_acquire (SL_buf b)]) (retK b)
     | None \<Rightarrow>
         bindK (getK (\<lambda>s. b_prev (bufs (bc s) N_BUF))) (\<lambda>b1.
         bindK (bscan (Suc N_BUF) b_prev (\<lambda>x. b_refcnt x = 0) b1) (\<lambda>r.
         case r of
           None \<Rightarrow> panicK ''no buffers''
         | Some b \<Rightarrow> thenK (seqK [
             upd_buf b (\<lambda>x. x\<lparr>b_dev := dev, b_bno := bno, b_valid := False, b_refcnt := 1\<rparr>),
             spin_lock_release L_bcache,
             sleep_lock_acquire (SL_buf b),
             virtio_disk_read b,
             upd_buf b (\<lambda>x. x\<lparr>b_valid := True\<rparr>)]) (retK b))))))"

definition bwrite :: "nat \<Rightarrow> ('z kblk_scheme, unit) kernel" where
  "bwrite b =
     bindK (sleep_lock_holding (SL_buf b)) (\<lambda>h.
     if \<not> h then panicK ''write an unlocked buffer'' else virtio_disk_write b)"

text \<open>The six pointer assignments that move a buffer to the front of the list.\<close>

definition bmove_front :: "nat \<Rightarrow> ('z kblk_scheme, unit) kernel" where
  "bmove_front b =
     bindK (getK (\<lambda>s. bufs (bc s) b)) (\<lambda>x.
     thenK (upd_buf (b_next x) (\<lambda>y. y\<lparr>b_prev := b_prev x\<rparr>)) (
     thenK (upd_buf (b_prev x) (\<lambda>y. y\<lparr>b_next := b_next x\<rparr>)) (
     bindK (getK (\<lambda>s. b_next (bufs (bc s) N_BUF))) (\<lambda>first. seqK [
       upd_buf b (\<lambda>y. y\<lparr>b_next := first, b_prev := N_BUF\<rparr>),
       upd_buf first (\<lambda>y. y\<lparr>b_prev := b\<rparr>),
       upd_buf N_BUF (\<lambda>y. y\<lparr>b_next := b\<rparr>)]))))"

definition brelse :: "nat \<Rightarrow> ('z kblk_scheme, unit) kernel" where
  "brelse b =
     thenK (sleep_lock_release (SL_buf b)) (
     thenK (spin_lock_acquire L_bcache) (
     thenK (upd_buf b (\<lambda>x. x\<lparr>b_refcnt := b_refcnt x - 1\<rparr>)) (
     bindK (getK (\<lambda>s. b_refcnt (bufs (bc s) b))) (\<lambda>n. seqK [
       whenK (n = 0) (bmove_front b),
       spin_lock_release L_bcache]))))"

definition bpin :: "nat \<Rightarrow> ('z kblk_scheme, unit) kernel" where
  "bpin b =
     thenK (spin_lock_acquire L_bcache) (
     bindK (getK (\<lambda>s. b_refcnt (bufs (bc s) b))) (\<lambda>n.
     if n < 1 then panicK ''pin an invalid buffer'' else seqK [
       upd_buf b (\<lambda>x. x\<lparr>b_refcnt := b_refcnt x + 1\<rparr>),
       spin_lock_release L_bcache]))"

definition bunpin :: "nat \<Rightarrow> ('z kblk_scheme, unit) kernel" where
  "bunpin b =
     thenK (spin_lock_acquire L_bcache) (
     bindK (getK (\<lambda>s. b_refcnt (bufs (bc s) b))) (\<lambda>n.
     if n < 1 then panicK ''unpin an invalid buffer'' else seqK [
       upd_buf b (\<lambda>x. x\<lparr>b_refcnt := b_refcnt x - 1\<rparr>),
       spin_lock_release L_bcache]))"

section \<open>Circular doubly linked lists\<close>

text \<open>
  \<open>seg nx pv a xs b\<close>: the links lead from \<open>a\<close> through \<open>xs\<close> to \<open>b\<close> and
  back. A ring through the head \<open>h\<close> is \<open>seg nx pv h xs h\<close>.
\<close>

fun seg :: "(nat \<Rightarrow> nat) \<Rightarrow> (nat \<Rightarrow> nat) \<Rightarrow> nat \<Rightarrow> nat list \<Rightarrow> nat \<Rightarrow> bool" where
  "seg nx pv a [] b \<longleftrightarrow> nx a = b \<and> pv b = a"
| "seg nx pv a (x # xs) b \<longleftrightarrow> nx a = x \<and> pv x = a \<and> seg nx pv x xs b"

lemma seg_append: "seg nx pv a (xs @ x # ys) b \<longleftrightarrow> seg nx pv a xs x \<and> seg nx pv x ys b"
  by (induction xs arbitrary: a) auto

lemma seg_cong:
  assumes "\<And>y. y \<in> set (a # xs) \<Longrightarrow> nx y = nx' y" "\<And>y. y \<in> set (xs @ [b]) \<Longrightarrow> pv y = pv' y"
  shows "seg nx pv a xs b \<longleftrightarrow> seg nx' pv' a xs b"
  using assms by (induction xs arbitrary: a) auto

lemma seg_first: "seg nx pv a xs b \<Longrightarrow> nx a = hd (xs @ [b])"
  by (cases xs) auto

lemma seg_last: "seg nx pv a xs b \<Longrightarrow> pv b = last (a # xs)"
  by (induction xs arbitrary: a) auto

lemma seg_rev: "seg nx pv a xs b \<longleftrightarrow> seg pv nx b (rev xs) a"
proof (induction xs arbitrary: a)
  case (Cons x xs)
  then show ?case by (auto simp: seg_append)
qed auto

lemma seg_unlink:
  assumes "seg nx pv a (xs @ x # ys) b" "distinct (a # xs @ x # ys)" "b \<notin> set (xs @ x # ys)"
  shows "seg (nx(pv x := nx x)) (pv(nx x := pv x)) a (xs @ ys) b"
  using assms
proof (induction xs arbitrary: a)
  case Nil
  then have *: "nx a = x" "pv x = a" "seg nx pv x ys b" by auto
  show ?case
  proof (cases ys)
    case (Cons y zs)
    have "seg (nx(a := y)) (pv(y := a)) y zs b \<longleftrightarrow> seg nx pv y zs b"
      by (rule seg_cong) (use Nil Cons in auto)
    moreover have "nx x = y" "seg nx pv y zs b" using * Cons by auto
    ultimately show ?thesis unfolding Cons by (simp add: *(2) del: fun_upd_apply) (simp add: *)
  qed (use * in auto)
next
  case (Cons z xs)
  have sx: "seg nx pv z xs x" "seg nx pv x ys b" using Cons.prems(1) by (auto simp: seg_append)
  have f: "nx x = hd (ys @ [b])" "pv x = last (z # xs)"
    by (rule seg_first [OF sx(2)], rule seg_last [OF sx(1)])
  have "nx x \<noteq> z" unfolding f(1) using Cons.prems(2,3) by (cases ys) auto
  moreover have "pv x \<noteq> a" unfolding f(2) using Cons.prems(2) last_in_set [of "z # xs"] by force
  ultimately show ?case using Cons by simp
qed

lemma seg_push:
  assumes "seg nx pv h xs h" "x \<noteq> h" "x \<notin> set xs" "distinct (h # xs)"
  shows "seg (nx(x := nx h, h := x)) (pv(x := h, nx h := x)) h (x # xs) h"
proof (cases xs)
  case (Cons y ys)
  have "seg (nx(x := y, h := x)) (pv(x := h, y := x)) y ys h \<longleftrightarrow> seg nx pv y ys h"
    by (rule seg_cong) (use assms Cons in auto)
  then show ?thesis using assms Cons by auto
qed (use assms in auto)

section \<open>The list of buffers\<close>

definition lru :: "block_state \<Rightarrow> nat list \<Rightarrow> bool" where
  "lru k xs \<longleftrightarrow> seg (\<lambda>i. b_next (bufs k i)) (\<lambda>i. b_prev (bufs k i)) N_BUF xs N_BUF \<and>
     distinct xs \<and> set xs = {..<N_BUF}"

lemma lruD:
  assumes "lru k xs"
  shows "distinct (N_BUF # xs)" "length xs = N_BUF" "N_BUF \<notin> set xs" "set xs = {..<N_BUF}" "distinct xs"
  using assms distinct_card [of xs] by (auto simp: lru_def)

lemma lru_cong:
  assumes "\<And>i. b_next (bufs k' i) = b_next (bufs k i)" "\<And>i. b_prev (bufs k' i) = b_prev (bufs k i)"
  shows "lru k' xs = lru k xs"
  using assms by (simp add: lru_def)

lemma bscan_find:
  assumes "seg (\<lambda>i. nxt (bufs (bc s) i)) pv a xs N_BUF" "N_BUF \<notin> set xs" "length xs < n"
  shows "bscan n nxt P (nxt (bufs (bc s) a)) s = Ret (find (\<lambda>i. P (bufs (bc s) i)) xs) s"
  using assms
proof (induction xs arbitrary: a n)
  case (Cons x xs)
  obtain m where n: "n = Suc m" using Cons.prems(3) by (cases n) auto
  have x: "nxt (bufs (bc s) a) = x" "x \<noteq> N_BUF" using Cons.prems by auto
  have "bscan m nxt P (nxt (bufs (bc s) x)) s = Ret (find (\<lambda>i. P (bufs (bc s) i)) xs) s"
    by (rule Cons.IH) (use Cons.prems n in auto)
  then show ?case using n x by auto
qed (auto simp: neq_Nil_conv elim: less_natE)

declare bscan.simps [simp del]

lemma bscan_lru:
  assumes "lru (bc s) xs"
  shows "bscan (Suc N_BUF) b_next P (b_next (bufs (bc s) N_BUF)) s = Ret (find (\<lambda>i. P (bufs (bc s) i)) xs) s"
    "bscan (Suc N_BUF) b_prev P (b_prev (bufs (bc s) N_BUF)) s = Ret (find (\<lambda>i. P (bufs (bc s) i)) (rev xs)) s"
proof -
  note l = lruD [OF assms]
  have sg: "seg (\<lambda>i. b_next (bufs (bc s) i)) (\<lambda>i. b_prev (bufs (bc s) i)) N_BUF xs N_BUF"
    using assms by (simp add: lru_def)
  show "bscan (Suc N_BUF) b_next P (b_next (bufs (bc s) N_BUF)) s = Ret (find (\<lambda>i. P (bufs (bc s) i)) xs) s"
    by (rule bscan_find [OF sg]) (use l in simp_all)
  show "bscan (Suc N_BUF) b_prev P (b_prev (bufs (bc s) N_BUF)) s = Ret (find (\<lambda>i. P (bufs (bc s) i)) (rev xs)) s"
    by (rule bscan_find [OF seg_rev [THEN iffD1, OF sg]]) (use l in simp_all)
qed

text \<open>The buffers of \<open>k\<close> with other links.\<close>

definition links :: "(nat \<Rightarrow> nat) \<Rightarrow> (nat \<Rightarrow> nat) \<Rightarrow> block_state \<Rightarrow> block_state" where
  "links nx pv k = k\<lparr>bufs := \<lambda>i. (bufs k i)\<lparr>b_prev := pv i, b_next := nx i\<rparr>\<rparr>"

lemma links_id: "links (\<lambda>i. b_next (bufs k i)) (\<lambda>i. b_prev (bufs k i)) k = k"
  by (cases k) (simp add: links_def)

lemma links_simps [simp]:
  "b_next (bufs (links nx pv k) i) = nx i" "b_prev (bufs (links nx pv k) i) = pv i"
  "vd (links nx pv k) = vd k" "platter (links nx pv k) = platter k" "past (links nx pv k) = past k"
  "b_valid (bufs (links nx pv k) i) = b_valid (bufs k i)" "b_disk (bufs (links nx pv k) i) = b_disk (bufs k i)"
  "b_dev (bufs (links nx pv k) i) = b_dev (bufs k i)" "b_bno (bufs (links nx pv k) i) = b_bno (bufs k i)"
  "b_refcnt (bufs (links nx pv k) i) = b_refcnt (bufs k i)" "b_data (bufs (links nx pv k) i) = b_data (bufs k i)"
  by (simp_all add: links_def)

lemma links_upd:
  "upd_buf x (\<lambda>y. y\<lparr>b_prev := v\<rparr>) (s\<lparr>bc := links nx pv k\<rparr>) = Ret () (s\<lparr>bc := links nx (pv(x := v)) k\<rparr>)"
  "upd_buf x (\<lambda>y. y\<lparr>b_next := v\<rparr>) (s\<lparr>bc := links nx pv k\<rparr>) = Ret () (s\<lparr>bc := links (nx(x := v)) pv k\<rparr>)"
  "upd_buf x (\<lambda>y. y\<lparr>b_next := v, b_prev := w\<rparr>) (s\<lparr>bc := links nx pv k\<rparr>)
     = Ret () (s\<lparr>bc := links (nx(x := v)) (pv(x := w)) k\<rparr>)"
  "upd_buf x (\<lambda>y. y\<lparr>b_prev := w, b_next := v\<rparr>) (s\<lparr>bc := links nx pv k\<rparr>)
     = Ret () (s\<lparr>bc := links (nx(x := v)) (pv(x := w)) k\<rparr>)"
  by (auto simp: links_def fun_eq_iff)

lemma links_bufs:
  "(links nx pv k)\<lparr>bufs := (bufs (links nx pv k))(x := (bufs (links nx pv k) x)\<lparr>b_prev := v\<rparr>)\<rparr> = links nx (pv(x := v)) k"
  "(links nx pv k)\<lparr>bufs := (bufs (links nx pv k))(x := (bufs (links nx pv k) x)\<lparr>b_next := v\<rparr>)\<rparr> = links (nx(x := v)) pv k"
  by (auto simp: links_def fun_eq_iff)

text \<open>\<^verbatim>\<open>brelse\<close> makes the buffer the most recently used one.\<close>

lemma bmove_front_ok:
  assumes "lru (bc s) (xs @ b # ys)"
  shows "\<exists>nx pv. bmove_front b s = Ret () (s\<lparr>bc := links nx pv (bc s)\<rparr>) \<and>
    lru (links nx pv (bc s)) (b # xs @ ys)"
proof -
  let ?nx = "\<lambda>i. b_next (bufs (bc s) i)" and ?pv = "\<lambda>i. b_prev (bufs (bc s) i)"
  note l = lruD [OF assms]
  have sg: "seg ?nx ?pv N_BUF (xs @ b # ys) N_BUF" using assms by (simp add: lru_def)
  define nx1 where "nx1 = ?nx(?pv b := ?nx b)"
  define pv1 where "pv1 = ?pv(?nx b := ?pv b)"
  define nx2 where "nx2 = nx1(b := nx1 N_BUF, N_BUF := b)"
  define pv2 where "pv2 = pv1(b := N_BUF, nx1 N_BUF := b)"
  have u: "seg nx1 pv1 N_BUF (xs @ ys) N_BUF"
    unfolding nx1_def pv1_def by (rule seg_unlink [OF sg]) (use l in auto)
  have p: "seg nx2 pv2 N_BUF (b # xs @ ys) N_BUF"
    unfolding nx2_def pv2_def by (rule seg_push [OF u]) (use l in auto)
  have "lru (links nx2 pv2 (bc s)) (b # xs @ ys)"
    unfolding lru_def using p l by (auto simp del: seg.simps)
  moreover have "bmove_front b (s\<lparr>bc := links ?nx ?pv (bc s)\<rparr>) = Ret () (s\<lparr>bc := links nx2 pv2 (bc s)\<rparr>)"
    by (simp add: bmove_front_def links_upd nx2_def pv2_def nx1_def pv1_def del: upd_buf_apply)
  ultimately show ?thesis by (auto simp: links_id)
qed

section \<open>The contract of the cache\<close>

definition sector_of :: "u32 \<Rightarrow> u64" where
  "sector_of bno = ucast (bno * 2)"

text \<open>Block numbers whose sector number does not wrap around in 32 bits.\<close>

definition bno_ok :: "u32 \<Rightarrow> bool" where
  "bno_ok bno \<longleftrightarrow> unat bno < 2 ^ 31"

definition cached :: "'z kblk_scheme \<Rightarrow> u32 \<Rightarrow> nat \<Rightarrow> bool" where
  "cached s bno b \<longleftrightarrow> b < N_BUF \<and> b_dev (bufs (bc s) b) = ROOT_DEV \<and> b_bno (bufs (bc s) b) = bno"

text \<open>A buffer that holds no block yet has device 0, which is not \<open>ROOT_DEV\<close>.\<close>

definition buf_ok :: "(u32 \<Rightarrow> blk) \<Rightarrow> (u32 \<Rightarrow> nat) \<Rightarrow> buffer \<Rightarrow> bool" where
  "buf_ok L R x \<longleftrightarrow> \<not> b_disk x \<and>
     (b_dev x = 0 \<and> b_refcnt x = 0 \<or>
      b_dev x = ROOT_DEV \<and> b_valid x \<and> bno_ok (b_bno x) \<and>
      b_data x = L (b_bno x) \<and> unat (b_refcnt x) = R (b_bno x))"

definition mine :: "'z kbase_scheme \<Rightarrow> sleep_id \<Rightarrow> bool" where
  "mine s l \<longleftrightarrow> slp_locked (sleeps s l) \<and>
     (\<exists>p. cur_proc s = Some p \<and> slp_pid (sleeps s l) = p_pid (procs s p))"

definition locks_ok :: "'z kblk_scheme \<Rightarrow> (u32 \<Rightarrow> nat) \<Rightarrow> (u32 \<rightharpoonup> nat) \<Rightarrow> bool" where
  "locks_ok s R H \<longleftrightarrow>
     (\<forall>bno b. H bno = Some b \<longrightarrow> cached s bno b \<and> 0 < R bno \<and> mine s (SL_buf b)) \<and>
     (\<forall>b<N_BUF. (\<forall>bno. H bno \<noteq> Some b) \<longrightarrow> \<not> slp_locked (sleeps s (SL_buf b)))"

text \<open>Images of the disk, read by block number.\<close>

definition image_of :: "(u64 \<Rightarrow> blk) \<Rightarrow> (u32 \<Rightarrow> blk) \<Rightarrow> bool" where
  "image_of pl D \<longleftrightarrow> (\<forall>bno. bno_ok bno \<longrightarrow> pl (sector_of bno) = D bno)"

definition bcache :: "'z kblk_scheme \<Rightarrow> (u32 \<Rightarrow> blk) \<Rightarrow> (u32 \<Rightarrow> blk) \<Rightarrow> (u32 \<Rightarrow> blk) list \<Rightarrow> (u32 \<Rightarrow> nat) \<Rightarrow> (u32 \<rightharpoonup> nat) \<Rightarrow> bool" where
  "bcache s L D W R H \<longleftrightarrow>
     (\<exists>xs. lru (bc s) xs) \<and> vd_idle (vd (bc s)) \<and>
     (\<forall>i<N_BUF. buf_ok L R (bufs (bc s) i)) \<and>
     (\<forall>bno i j. cached s bno i \<longrightarrow> cached s bno j \<longrightarrow> i = j) \<and>
     (\<forall>bno. 0 < R bno \<longrightarrow> (\<exists>b. cached s bno b)) \<and>
     (\<forall>bno. bno_ok bno \<longrightarrow> platter (bc s) (sector_of bno) = D bno \<and> (R bno = 0 \<longrightarrow> L bno = D bno)) \<and>
     locks_ok s R H \<and> list_all2 image_of (past (bc s)) W"

text \<open>What an operation of the block layer may change besides the cache: its sleep locks.\<close>

definition blk_step :: "'z kblk_scheme \<Rightarrow> 'z kblk_scheme \<Rightarrow> bool" where
  "blk_step s t \<longleftrightarrow> (\<exists>sl k. t = s\<lparr>sleeps := sl, bc := k\<rparr> \<and> (\<forall>i. sl (SL_inode i) = sleeps s (SL_inode i)))"

lemma sector_of_inj: "bno_ok m \<Longrightarrow> bno_ok n \<Longrightarrow> sector_of m = sector_of n \<Longrightarrow> m = n"
proof -
  assume a: "bno_ok m" "bno_ok n" "sector_of m = sector_of n"
  have uu: "ucast (ucast x :: u64) = x" for x :: u32
    by (rule bit_word_eqI) (simp add: bit_simps)
  have e: "m * 2 = n * 2" using a(3) uu unfolding sector_of_def by metis
  have "unat (m * 2) = unat m * 2" "unat (n * 2) = unat n * 2"
    using a(1,2) by (simp_all add: bno_ok_def unat_word_ariths)
  with e show ?thesis by (simp add: word_unat_eq_iff)
qed

lemma blk_step_refl [simp, intro]: "blk_step s s"
proof -
  have "s = s\<lparr>sleeps := sleeps s, bc := bc s\<rparr>" by (cases s) simp
  then show ?thesis unfolding blk_step_def by blast
qed

lemma blk_step_trans [trans]:
  assumes "blk_step s t" "blk_step t u"
  shows "blk_step s u"
proof -
  obtain sl k where t: "t = s\<lparr>sleeps := sl, bc := k\<rparr>" "\<forall>i. sl (SL_inode i) = sleeps s (SL_inode i)"
    using assms(1) unfolding blk_step_def by blast
  obtain sl' k' where u: "u = t\<lparr>sleeps := sl', bc := k'\<rparr>" "\<forall>i. sl' (SL_inode i) = sleeps t (SL_inode i)"
    using assms(2) unfolding blk_step_def by blast
  have "u = s\<lparr>sleeps := sl', bc := k'\<rparr>" "\<forall>i. sl' (SL_inode i) = sleeps s (SL_inode i)"
    using t u by simp_all
  then show ?thesis unfolding blk_step_def by blast
qed

lemma calm_sleeps [simp]: "calm (sleeps_update f s) = calm s"
  by (simp add: calm_def no_sleeper_def fun_eq_iff)

lemma blk_stepD:
  assumes "blk_step s t"
  shows "calm t p = calm s p" "procs t = procs s" "cur_proc t = cur_proc s" "mem t = mem s"
    "free_head t = free_head s" "pool t ps = pool s ps" "quiet t = quiet s"
    "sleeps t (SL_inode i) = sleeps s (SL_inode i)" "tp t = tp s" "kblk.more t = kblk.more s"
  using assms by (auto simp: blk_step_def pool_def)

lemma blk_step_bc [simp, intro]: "blk_step s (s\<lparr>bc := k\<rparr>)"
proof -
  have "s\<lparr>bc := k\<rparr> = s\<lparr>sleeps := sleeps s, bc := k\<rparr>" by (cases s) simp
  then show ?thesis unfolding blk_step_def by blast
qed

lemma blk_step_both: "(\<And>i. f (SL_inode i) = sleeps s (SL_inode i)) \<Longrightarrow> blk_step s (s\<lparr>sleeps := f, bc := k\<rparr>)"
  by (auto simp: blk_step_def)

lemma bread_hit:
  assumes "calm s p" "lru (bc s) xs" "cached s bno b" "\<And>c. cached s bno c \<Longrightarrow> c = b"
    and "\<not> slp_locked (sleeps s (SL_buf b))"
  shows "bread ROOT_DEV bno s = Ret b (s\<lparr>
    sleeps := (sleeps s)(SL_buf b := (sleeps s (SL_buf b))\<lparr>slp_locked := True, slp_pid := p_pid (procs s p)\<rparr>),
    bc := (bc s)\<lparr>bufs := (bufs (bc s))(b := (bufs (bc s) b)\<lparr>b_refcnt := b_refcnt (bufs (bc s) b) + 1\<rparr>)\<rparr>\<rparr>)"
proof -
  let ?P = "\<lambda>i. b_dev (bufs (bc s) i) = ROOT_DEV \<and> b_bno (bufs (bc s) i) = bno"
  note l = lruD [OF assms(2)] and c = calmD [OF assms(1)]
  have f: "find ?P xs = Some b"
  proof (rule find_unique)
    show "b \<in> set xs" "?P b" using assms(3) l(4) by (simp_all add: cached_def)
    show "y = b" if "y \<in> set xs" "?P y" for y
      by (rule assms(4)) (use that l(4) in \<open>simp add: cached_def\<close>)
  qed
  have "lru (bc (grab L_bcache s)) xs" using assms(2) by simp
  note sc = bscan_lru [OF this, simplified]
  show ?thesis
    unfolding bread_def using c(1,4) assms(5) by (simp add: sc(1) f)
qed


lemma bread_miss:
  assumes "calm s p" "lru (bc s) xs" "vd_idle (vd (bc s))" "\<And>c. \<not> cached s bno c"
    and "find (\<lambda>i. b_refcnt (bufs (bc s) i) = 0) (rev xs) = Some b"
    and "\<not> slp_locked (sleeps s (SL_buf b))" "\<not> b_disk (bufs (bc s) b)"
  shows "\<exists>v. vd_idle v \<and> bread ROOT_DEV bno s = Ret b (s\<lparr>
    sleeps := (sleeps s)(SL_buf b := (sleeps s (SL_buf b))\<lparr>slp_locked := True, slp_pid := p_pid (procs s p)\<rparr>),
    bc := (bc s)\<lparr>bufs := (bufs (bc s))(b := (bufs (bc s) b)\<lparr>
        b_valid := True, b_dev := ROOT_DEV, b_bno := bno, b_refcnt := 1, b_data := platter (bc s) (sector_of bno)\<rparr>),
      vd := v\<rparr>\<rparr>)"
proof -
  let ?P = "\<lambda>i. b_dev (bufs (bc s) i) = ROOT_DEV \<and> b_bno (bufs (bc s) i) = bno"
  note l = lruD [OF assms(2)] and c = calmD [OF assms(1)]
  have f: "find ?P xs = None"
    using assms(4) l(4) by (auto simp: find_None_iff cached_def)
  have "lru (bc (grab L_bcache s)) xs" using assms(2) by simp
  note sc = bscan_lru [OF this, simplified]
  let ?k = "(bc s)\<lparr>bufs := (bufs (bc s))(b := (bufs (bc s) b)\<lparr>
        b_valid := False, b_dev := ROOT_DEV, b_bno := bno, b_refcnt := 1\<rparr>)\<rparr>"
  let ?t = "s\<lparr>sleeps := (sleeps s)(SL_buf b := (sleeps s (SL_buf b))\<lparr>slp_locked := True, slp_pid := p_pid (procs s p)\<rparr>),
    bc := ?k\<rparr>"
  have "calm ?t p" "vd_idle (vd (bc ?t))" "\<not> b_disk (bufs (bc ?t) b)" using assms by auto
  from virtio_disk_rw_ok [OF this, of False] obtain v where
    v: "vd_idle v" "virtio_disk_read b ?t = Ret () (?t\<lparr>bc := (xfer b False (bc ?t))\<lparr>vd := v\<rparr>\<rparr>)"
    unfolding virtio_disk_read_def by blast
  have x: "xfer b False (bc ?t) = (bc s)\<lparr>bufs := (bufs (bc s))(b := (bufs (bc s) b)\<lparr>
        b_valid := False, b_dev := ROOT_DEV, b_bno := bno, b_refcnt := 1, b_data := platter (bc s) (sector_of bno)\<rparr>)\<rparr>"
    by (simp add: xfer_def sector_of_def)
  show ?thesis
    unfolding bread_def using v(1) c(1,4) assms(6)
    by (intro exI [of _ v]) (simp add: sc f assms(5) v(2) [unfolded x])
qed

lemma bcacheD:
  assumes "bcache s L D W R H"
  shows "\<exists>xs. lru (bc s) xs" "vd_idle (vd (bc s))" "i < N_BUF \<Longrightarrow> buf_ok L R (bufs (bc s) i)"
    "cached s bno i \<Longrightarrow> cached s bno j \<Longrightarrow> i = j" "0 < R bno \<Longrightarrow> \<exists>b. cached s bno b"
    "bno_ok bno \<Longrightarrow> platter (bc s) (sector_of bno) = D bno"
    "bno_ok bno \<Longrightarrow> R bno = 0 \<Longrightarrow> L bno = D bno" "locks_ok s R H"
    "list_all2 image_of (past (bc s)) W"
  using assms unfolding bcache_def by blast+

lemma bcache_heldD:
  assumes "bcache s L D W R H" "H bno = Some b"
  shows "b < N_BUF" "b_dev (bufs (bc s) b) = ROOT_DEV" "b_bno (bufs (bc s) b) = bno" "bno_ok bno"
    "b_data (bufs (bc s) b) = L bno" "unat (b_refcnt (bufs (bc s) b)) = R bno" "0 < R bno"
    "\<not> b_disk (bufs (bc s) b)" "mine s (SL_buf b)"
proof -
  have c: "cached s bno b" "0 < R bno" "mine s (SL_buf b)"
    using bcacheD(8) [OF assms(1)] assms(2) by (auto simp: locks_ok_def)
  moreover from c have "buf_ok L R (bufs (bc s) b)" using bcacheD(3) [OF assms(1)] by (simp add: cached_def)
  ultimately show "b < N_BUF" "b_dev (bufs (bc s) b) = ROOT_DEV" "b_bno (bufs (bc s) b) = bno" "bno_ok bno"
    "b_data (bufs (bc s) b) = L bno" "unat (b_refcnt (bufs (bc s) b)) = R bno" "0 < R bno"
    "\<not> b_disk (bufs (bc s) b)" "mine s (SL_buf b)"
    by (auto simp: cached_def buf_ok_def ROOT_DEV_def)
qed


lemma bcacheI:
  assumes "lru (bc s) xs" "vd_idle (vd (bc s))" "\<And>i. i < N_BUF \<Longrightarrow> buf_ok L R (bufs (bc s) i)"
    "\<And>bno i j. cached s bno i \<Longrightarrow> cached s bno j \<Longrightarrow> i = j"
    "\<And>bno. 0 < R bno \<Longrightarrow> \<exists>b. cached s bno b"
    "\<And>bno. bno_ok bno \<Longrightarrow> platter (bc s) (sector_of bno) = D bno"
    "\<And>bno. bno_ok bno \<Longrightarrow> R bno = 0 \<Longrightarrow> L bno = D bno" "locks_ok s R H"
    "list_all2 image_of (past (bc s)) W"
  shows "bcache s L D W R H"
  unfolding bcache_def using assms by blast

lemma bcache_unlocked:
  assumes "bcache s L D W R H" "cached s bno b" "H bno = None"
  shows "\<not> slp_locked (sleeps s (SL_buf b))"
proof -
  have "H n \<noteq> Some b" for n
    using bcacheD(8) [OF assms(1)] assms(2,3) by (auto simp: locks_ok_def cached_def)
  then show ?thesis
    using bcacheD(8) [OF assms(1)] assms(2) by (auto simp: locks_ok_def cached_def)
qed

lemma unat_incr: "unat (x :: u32) < 2 ^ 31 \<Longrightarrow> unat (x + 1) = unat x + 1"
  by (simp add: unat_word_ariths)

lemma locksD:
  assumes "locks_ok s R H" "H n = Some c"
  shows "cached s n c" "0 < R n" "mine s (SL_buf c)"
  using assms by (auto simp: locks_ok_def)

lemma locks_take:
  assumes "locks_ok s R H" "H bno = None" "cur_proc s = Some p" "cur_proc t = Some p" "procs t = procs s"
    and "sleeps t = (sleeps s)(SL_buf b := (sleeps s (SL_buf b))\<lparr>slp_locked := True, slp_pid := p_pid (procs s p)\<rparr>)"
    and "cached t bno b" "0 < R' bno" "\<And>n c. H n = Some c \<Longrightarrow> cached t n c \<and> 0 < R' n"
  shows "locks_ok t R' (H(bno \<mapsto> b))"
  unfolding locks_ok_def
proof (intro conjI allI impI)
  fix n c assume a: "(H(bno \<mapsto> b)) n = Some c"
  show "cached t n c" "0 < R' n" "mine t (SL_buf c)"
    using a assms(7,8) assms(9) [of n c] locksD(3) [OF assms(1), of n c] assms(3-6)
    by (auto simp: mine_def split: if_splits)
next
  fix c assume a: "c < N_BUF" "\<forall>n. (H(bno \<mapsto> b)) n \<noteq> Some c"
  have "c \<noteq> b" using a(2) [rule_format, of bno] by auto
  moreover have "H n \<noteq> Some c" for n
    using a(2) [rule_format, of n] assms(2) by (cases "n = bno") simp_all
  ultimately show "\<not> slp_locked (sleeps t (SL_buf c))" using assms(1,6) a(1) by (simp add: locks_ok_def)
qed

lemma locks_drop:
  assumes "locks_ok s R H" "H bno = Some b" "cur_proc t = cur_proc s" "procs t = procs s"
    and "sleeps t = (sleeps s)(SL_buf b := (sleeps s (SL_buf b))\<lparr>slp_locked := False, slp_pid := -1\<rparr>)"
    and "\<And>n c. n \<noteq> bno \<Longrightarrow> H n = Some c \<Longrightarrow> cached t n c \<and> 0 < R' n"
  shows "locks_ok t R' (H(bno := None))"
  unfolding locks_ok_def
proof (intro conjI allI impI)
  fix n c assume a: "(H(bno := None)) n = Some c"
  then have n: "n \<noteq> bno" "H n = Some c" by (auto split: if_splits)
  have "c \<noteq> b" using locksD(1) [OF assms(1,2)] locksD(1) [OF assms(1) n(2)] n(1) by (auto simp: cached_def)
  then show "cached t n c" "0 < R' n" "mine t (SL_buf c)"
    using assms(6) [OF n] locksD(3) [OF assms(1) n(2)] assms(3-5) by (auto simp: mine_def)
next
  fix c assume a: "c < N_BUF" "\<forall>n. (H(bno := None)) n \<noteq> Some c"
  show "\<not> slp_locked (sleeps t (SL_buf c))"
  proof (cases "c = b")
    case False
    then have "\<And>n. H n \<noteq> Some c" using a(2) assms(2) by (metis fun_upd_apply option.inject)
    then show ?thesis using assms(1,5) a(1) False by (simp add: locks_ok_def)
  qed (use assms(5) in simp)
qed

lemma bread_hit_cache:
  assumes c: "calm s p" and b: "bcache s L D W R H" and h: "H bno = None" and r: "R bno < 2 ^ 31"
    and m: "cached s bno b"
  shows "\<exists>t. bread ROOT_DEV bno s = Ret b t \<and> blk_step s t \<and>
    bcache t L D W (R(bno := R bno + 1)) (H(bno \<mapsto> b))"
proof -
  note d = bcacheD [OF b]
  obtain xs where x: "lru (bc s) xs" using d(1) by blast
  have u: "\<not> slp_locked (sleeps s (SL_buf b))" by (rule bcache_unlocked [OF b m h])
  let ?f = "(bufs (bc s))(b := (bufs (bc s) b)\<lparr>b_refcnt := b_refcnt (bufs (bc s) b) + 1\<rparr>)"
  let ?sl = "(sleeps s)(SL_buf b := (sleeps s (SL_buf b))\<lparr>slp_locked := True, slp_pid := p_pid (procs s p)\<rparr>)"
  let ?t = "s\<lparr>sleeps := ?sl, bc := (bc s)\<lparr>bufs := ?f\<rparr>\<rparr>"
  have ca: "cached ?t n i = cached s n i" for n i by (simp add: cached_def)
  have bb: "buf_ok L (R(bno := R bno + 1)) (bufs (bc ?t) i)" if "i < N_BUF" for i
  proof (cases "i = b")
    case True
    then show ?thesis
      using d(3) [OF that] m r by (simp add: buf_ok_def cached_def unat_incr ROOT_DEV_def)
  next
    case False
    then have "\<not> cached s bno i" using d(4) m by blast
    then show ?thesis using d(3) [OF that] False that by (auto simp: buf_ok_def cached_def)
  qed
  have lk: "locks_ok ?t (R(bno := R bno + 1)) (H(bno \<mapsto> b))"
    by (rule locks_take [OF d(8) h calmD(4) [OF c]])
       (use m locksD(1,2) [OF d(8)] calmD(4) [OF c] in \<open>auto simp: ca split: if_splits\<close>)
  have "bcache ?t L D W (R(bno := R bno + 1)) (H(bno \<mapsto> b))"
  proof (rule bcacheI [of _ xs])
    show "lru (bc ?t) xs" by (subst lru_cong [where k = "bc s"]) (use x in simp_all)
    show "\<exists>b. cached ?t n b" if "0 < (R(bno := R bno + 1)) n" for n
      unfolding ca using that m d(5) by (auto split: if_splits)
    show "i = j" if "cached ?t n i" "cached ?t n j" for n i j
      by (rule d(4)) (use that ca in blast)+
  qed (use d(2,6,7,9) bb lk in \<open>auto split: if_splits\<close>)
  moreover have "blk_step s ?t" by (rule blk_step_both) simp
  ultimately show ?thesis using bread_hit [OF c x m d(4) [OF _ m] u] by blast
qed


text \<open>As long as fewer blocks than buffers are referenced, a buffer is free to be recycled.\<close>

lemma free_buffer:
  assumes b: "bcache s L D W R H" and r: "card (used R) < N_BUF" and x: "lru (bc s) xs"
  shows "\<exists>c. find (\<lambda>i. b_refcnt (bufs (bc s) i) = 0) (rev xs) = Some c"
proof (rule ccontr)
  assume "\<not> ?thesis"
  then have nz: "b_refcnt (bufs (bc s) i) \<noteq> 0" if "i < N_BUF" for i
    using that lruD(4) [OF x] by (auto simp: find_None_iff)
  let ?g = "\<lambda>i. b_bno (bufs (bc s) i)"
  have ok: "cached s (?g i) i \<and> 0 < R (?g i)" if "i < N_BUF" for i
    using bcacheD(3) [OF b that] nz [OF that] that
    by (auto simp: buf_ok_def cached_def) (metis gr0I unat_eq_zero)
  have "inj_on ?g {..<N_BUF}"
  proof (rule inj_onI)
    fix i j assume "i \<in> {..<N_BUF}" "j \<in> {..<N_BUF}" "?g i = ?g j"
    then have "cached s (?g i) i" "cached s (?g i) j" using ok [of i] ok [of j] by auto
    then show "i = j" by (rule bcacheD(4) [OF b])
  qed
  then have "N_BUF = card (?g ` {..<N_BUF})" by (simp add: card_image)
  also have "\<dots> \<le> card (used R)"
  proof (rule card_mono)
    have "used R \<subseteq> ?g ` {..<N_BUF}"
    proof
      fix n assume "n \<in> used R"
      then obtain c where "cached s n c" using bcacheD(5) [OF b] by (auto simp: used_def)
      then show "n \<in> ?g ` {..<N_BUF}" by (auto simp: cached_def)
    qed
    then show "finite (used R)" by (rule finite_subset) simp
    show "?g ` {..<N_BUF} \<subseteq> used R" using ok by (auto simp: used_def)
  qed
  finally show False using r by simp
qed

lemma bread_miss_cache:
  assumes c: "calm s p" and b: "bcache s L D W R H" and n: "bno_ok bno"
    and r: "card (used R) < N_BUF" and m: "\<And>i. \<not> cached s bno i"
  shows "\<exists>b t. bread ROOT_DEV bno s = Ret b t \<and> blk_step s t \<and>
    bcache t L D W (R(bno := R bno + 1)) (H(bno \<mapsto> b))"
proof -
  note d = bcacheD [OF b]
  obtain xs where x: "lru (bc s) xs" using d(1) by blast
  obtain b where f: "find (\<lambda>i. b_refcnt (bufs (bc s) i) = 0) (rev xs) = Some b"
    using free_buffer [OF b r x] by blast
  then have "b \<in> set (rev xs)" and b0: "b_refcnt (bufs (bc s) b) = 0"
    by (auto simp: find_Some_iff simp del: set_rev)
  then have bN: "b < N_BUF" using lruD(4) [OF x] by simp
  have r0: "R bno = 0" using d(5) m by blast
  have Rb: "b_dev (bufs (bc s) b) = ROOT_DEV \<Longrightarrow> R (b_bno (bufs (bc s) b)) = 0"
    using d(3) [OF bN] b0 by (auto simp: buf_ok_def ROOT_DEV_def)
  have Hb: "H k \<noteq> Some b" for k
    using locksD [OF d(8), of k b] Rb by (auto simp: cached_def)
  have u: "\<not> slp_locked (sleeps s (SL_buf b))" using d(8) Hb bN by (simp add: locks_ok_def)
  have nd: "\<not> b_disk (bufs (bc s) b)" using d(3) [OF bN] by (simp add: buf_ok_def)
  have Hn: "H bno = None" using locksD(1) [OF d(8)] m by (cases "H bno") blast+
  obtain v where v: "vd_idle v" "bread ROOT_DEV bno s = Ret b (s\<lparr>
    sleeps := (sleeps s)(SL_buf b := (sleeps s (SL_buf b))\<lparr>slp_locked := True, slp_pid := p_pid (procs s p)\<rparr>),
    bc := (bc s)\<lparr>bufs := (bufs (bc s))(b := (bufs (bc s) b)\<lparr>
        b_valid := True, b_dev := ROOT_DEV, b_bno := bno, b_refcnt := 1, b_data := platter (bc s) (sector_of bno)\<rparr>),
      vd := v\<rparr>\<rparr>)" (is "_ = Ret b ?t")
    using bread_miss [OF c x d(2) m f u nd] by blast
  have ca: "cached ?t k i \<longleftrightarrow> (if i = b then k = bno else cached s k i)" for k i
    using bN by (auto simp: cached_def)
  have Lb: "L bno = D bno" by (rule d(7) [OF n r0])
  have bb: "buf_ok L (R(bno := R bno + 1)) (bufs (bc ?t) i)" if "i < N_BUF" for i
  proof (cases "i = b")
    case True
    then show ?thesis using n Lb d(6) [OF n] nd r0 by (simp add: buf_ok_def)
  next
    case False
    then show ?thesis using d(3) [OF that] m [of i] that by (auto simp: buf_ok_def cached_def)
  qed
  have "bcache ?t L D W (R(bno := R bno + 1)) (H(bno \<mapsto> b))"
  proof (rule bcacheI [of _ xs])
    show "lru (bc ?t) xs" by (subst lru_cong [where k = "bc s"]) (use x in simp_all)
    show "i = j" if "cached ?t k i" "cached ?t k j" for k i j
      using that m d(4) [of k i j] unfolding ca by (auto split: if_splits)
    show "\<exists>c. cached ?t k c" if kR: "0 < (R(bno := R bno + 1)) k" for k
    proof (cases "k = bno")
      case False
      then obtain c where c: "cached s k c" using kR d(5) [of k] by auto
      then have "c \<noteq> b" using False kR Rb by (auto simp: cached_def)
      with c show ?thesis unfolding ca by auto
    qed (auto simp: ca)
    show "locks_ok ?t (R(bno := R bno + 1)) (H(bno \<mapsto> b))"
    proof (rule locks_take [OF d(8) Hn calmD(4) [OF c]])
      fix k c assume "H k = Some c"
      then show "cached ?t k c \<and> 0 < (R(bno := R bno + 1)) k"
        using locksD [OF d(8)] Hb unfolding ca by auto
    qed (use calmD(4) [OF c] in \<open>auto simp: ca\<close>)
  qed (use v(1) d(6,7,9) bb in \<open>auto split: if_splits\<close>)
  moreover have "blk_step s ?t" by (rule blk_step_both) simp
  ultimately show ?thesis using v(2) by blast
qed

theorem bread_ok:
  assumes "calm s p" "bcache s L D W R H" "bno_ok bno" "H bno = None" "R bno < 2 ^ 31" "0 < R bno \<or> card (used R) < N_BUF"
  shows "\<exists>b t. bread ROOT_DEV bno s = Ret b t \<and> blk_step s t \<and>
    bcache t L D W (R(bno := R bno + 1)) (H(bno \<mapsto> b))"
  using bread_hit_cache [OF assms(1,2,4,5)] bread_miss_cache [OF assms(1-3)] assms(6) bcacheD(5) [OF assms(2)]
  by blast


text \<open>Operations on a buffer the process has locked.\<close>

lemma upd_data_ok:
  assumes b: "bcache s L D W R H" and h: "H bno = Some b"
  shows "\<exists>t. upd_buf b (\<lambda>x. x\<lparr>b_data := f (b_data x)\<rparr>) s = Ret () t \<and> blk_step s t \<and>
    bcache t (L(bno := f (L bno))) D W R H"
proof -
  note d = bcacheD [OF b] and hd = bcache_heldD [OF b h]
  obtain xs where x: "lru (bc s) xs" using d(1) by blast
  let ?t = "s\<lparr>bc := (bc s)\<lparr>bufs := (bufs (bc s))(b := (bufs (bc s) b)\<lparr>b_data := f (b_data (bufs (bc s) b))\<rparr>)\<rparr>\<rparr>"
  have ca: "cached ?t n i = cached s n i" for n i by (simp add: cached_def)
  have me: "mine ?t l = mine s l" for l by (simp add: mine_def)
  have bb: "buf_ok (L(bno := f (L bno))) R (bufs (bc ?t) i)" if "i < N_BUF" for i
  proof (cases "i = b")
    case True
    then show ?thesis using d(3) [OF hd(1)] hd by (auto simp: buf_ok_def ROOT_DEV_def)
  next
    case False
    then have "\<not> cached s bno i" using d(4) [of bno i b] hd(1-3) by (auto simp: cached_def)
    then show ?thesis using d(3) [OF that] False that by (auto simp: buf_ok_def cached_def)
  qed
  have "bcache ?t (L(bno := f (L bno))) D W R H"
  proof (rule bcacheI [of _ xs])
    show "lru (bc ?t) xs" by (subst lru_cong [where k = "bc s"]) (use x in simp_all)
    show "i = j" if "cached ?t k i" "cached ?t k j" for k i j
      by (rule d(4)) (use that ca in blast)+
    show "\<exists>c. cached ?t k c" if "0 < R k" for k unfolding ca by (rule d(5) [OF that])
    show "locks_ok ?t R H" using d(8) unfolding locks_ok_def ca me by simp
  qed (use d(2,6,7,9) hd(7) bb in auto)
  then show ?thesis by auto
qed

lemma bwrite_ok:
  assumes c: "calm s p" and b: "bcache s L D W R H" and h: "H bno = Some b"
  shows "\<exists>t. bwrite b s = Ret () t \<and> blk_step s t \<and> bcache t L (D(bno := L bno)) (D # W) R H"
proof -
  note d = bcacheD [OF b] and hd = bcache_heldD [OF b h]
  obtain xs where x: "lru (bc s) xs" using d(1) by blast
  obtain v where v: "vd_idle v" "virtio_disk_write b s = Ret () (s\<lparr>bc := (xfer b True (bc s))\<lparr>vd := v\<rparr>\<rparr>)"
    using virtio_disk_rw_ok [OF c d(2) hd(8), of True] unfolding virtio_disk_write_def by blast
  let ?t = "s\<lparr>bc := (bc s)\<lparr>vd := v, platter := (platter (bc s))(sector_of bno := L bno), past := platter (bc s) # past (bc s)\<rparr>\<rparr>"
  have w: "virtio_disk_write b s = Ret () ?t"
    using v(2) hd(3,5) by (simp add: xfer_def sector_of_def)
  have ca: "cached ?t n i = cached s n i" for n i by (simp add: cached_def)
  have me: "mine ?t l = mine s l" for l by (simp add: mine_def)
  have "bcache ?t L (D(bno := L bno)) (D # W) R H"
  proof (rule bcacheI [of _ xs])
    show "lru (bc ?t) xs" by (subst lru_cong [where k = "bc s"]) (use x in simp_all)
    show "i = j" if "cached ?t k i" "cached ?t k j" for k i j
      by (rule d(4)) (use that ca in blast)+
    show "\<exists>c. cached ?t k c" if "0 < R k" for k unfolding ca by (rule d(5) [OF that])
    show "locks_ok ?t R H" using d(8) unfolding locks_ok_def ca me by simp
    show "platter (bc ?t) (sector_of k) = (D(bno := L bno)) k" if "bno_ok k" for k
      using d(6) [OF that] sector_of_inj [OF that hd(4)] by auto
    show "list_all2 image_of (past (bc ?t)) (D # W)" using d(6,9) by (simp add: image_of_def)
  qed (use d(3,7) v(1) hd(7) in auto)
  moreover have "bwrite b s = Ret () ?t"
    using w hd(9) calmD(1,4) [OF c] by (simp add: bwrite_def mine_def)
  ultimately show ?thesis by auto
qed

lemma refcnt_upd_ok:
  assumes b: "bcache s L D W R H" and h: "H bno = Some b"
    and x: "lru (bc t) xs" and k: "vd (bc t) = vd (bc s)" "platter (bc t) = platter (bc s)" "past (bc t) = past (bc s)"
    and f: "\<And>i. \<exists>nx pv. bufs (bc t) i = (if i = b then (bufs (bc s) b)\<lparr>b_refcnt := r\<rparr> else bufs (bc s) i)\<lparr>b_prev := pv, b_next := nx\<rparr>"
    and r: "r = 0 \<longrightarrow> L bno = D bno"
    and l: "locks_ok t (R(bno := unat r)) H'"
  shows "bcache t L D W (R(bno := unat r)) H'"
proof -
  note d = bcacheD [OF b] and hd = bcache_heldD [OF b h]
  have ff: "b_dev (bufs (bc t) i) = b_dev (bufs (bc s) i) \<and> b_bno (bufs (bc t) i) = b_bno (bufs (bc s) i) \<and>
    b_valid (bufs (bc t) i) = b_valid (bufs (bc s) i) \<and> b_data (bufs (bc t) i) = b_data (bufs (bc s) i) \<and>
    b_disk (bufs (bc t) i) = b_disk (bufs (bc s) i) \<and>
    b_refcnt (bufs (bc t) i) = (if i = b then r else b_refcnt (bufs (bc s) i))" for i
    using f [of i] by auto
  have ca: "cached t n i = cached s n i" for n i by (simp add: cached_def ff)
  have bb: "buf_ok L (R(bno := unat r)) (bufs (bc t) i)" if "i < N_BUF" for i
  proof (cases "i = b")
    case True
    then show ?thesis using d(3) [OF hd(1)] hd by (auto simp: buf_ok_def ff ROOT_DEV_def)
  next
    case False
    then have "\<not> cached s bno i" using d(4) [of bno i b] hd(1-3) by (auto simp: cached_def)
    then show ?thesis using d(3) [OF that] False that by (auto simp: buf_ok_def cached_def ff)
  qed
  show ?thesis
  proof (rule bcacheI [OF x])
    show "i = j" if "cached t k i" "cached t k j" for k i j
      by (rule d(4)) (use that ca in blast)+
    show "\<exists>c. cached t k c" if "0 < (R(bno := unat r)) k" for k
      unfolding ca using that d(5) [of k] d(5) [of bno] hd(7) by (auto split: if_splits)
  qed (use d(2,6,7,9) k l r bb in \<open>auto split: if_splits simp: unat_eq_zero\<close>)
qed


lemma release_buf:
  assumes "calm s p" "mine s (SL_buf b)"
  shows "sleep_lock_release (SL_buf b) s = Ret () (s\<lparr>sleeps :=
    (sleeps s)(SL_buf b := (sleeps s (SL_buf b))\<lparr>slp_locked := False, slp_pid := -1\<rparr>)\<rparr>)"
proof -
  note c = calmD [OF assms(1)]
  have w: "woken (Some p) (Ch_sleep (SL_buf b)) (procs s) = procs s"
    by (rule woken_id) (use c(8) in simp)
  have "s\<lparr>sleeps := f, procs := procs s\<rparr> = s\<lparr>sleeps := f\<rparr>" for f by (cases s) simp
  then show ?thesis using c(1,4) assms(2) w by (simp add: mine_def)
qed

lemma unat_decr: "0 < unat (x :: u32) \<Longrightarrow> unat (x - 1) = unat x - 1"
  by (rule unat_minus_one) auto

lemma brelse_ok:
  assumes c: "calm s p" and b: "bcache s L D W R H" and h: "H bno = Some b"
    and cl: "R bno = 1 \<longrightarrow> L bno = D bno"
  shows "\<exists>t. brelse b s = Ret () t \<and> blk_step s t \<and> bcache t L D W (R(bno := R bno - 1)) (H(bno := None))"
proof -
  note d = bcacheD [OF b] and hd = bcache_heldD [OF b h] and cd = calmD [OF c]
  obtain xs where x: "lru (bc s) xs" using d(1) by blast
  define r where "r = b_refcnt (bufs (bc s) b) - 1"
  have ur: "unat r = R bno - 1" unfolding r_def using hd(6,7) by (simp add: unat_decr)
  define sl where "sl = (sleeps s)(SL_buf b := (sleeps s (SL_buf b))\<lparr>slp_locked := False, slp_pid := -1\<rparr>)"
  define k where "k = (bc s)\<lparr>bufs := (bufs (bc s))(b := (bufs (bc s) b)\<lparr>b_refcnt := r\<rparr>)\<rparr>"
  let ?s = "s\<lparr>sleeps := sl, bc := k\<rparr>"
  have xk: "lru k xs" unfolding k_def by (subst lru_cong [where k = "bc s"]) (use x in simp_all)
  have av: "avail s L_bcache" using cd(1) by auto
  have rl: "sleep_lock_release (SL_buf b) s = Ret () (s\<lparr>sleeps := sl\<rparr>)"
    unfolding sl_def by (rule release_buf [OF c hd(9)])
  have e: "brelse b s = seqK [whenK (r = 0) (bmove_front b), spin_lock_release L_bcache] (grab L_bcache ?s)"
    unfolding brelse_def by (simp add: rl av) (simp add: k_def r_def)
  have "\<exists>nx pv ys. brelse b s = Ret () (s\<lparr>sleeps := sl, bc := links nx pv k\<rparr>) \<and> lru (links nx pv k) ys"
  proof (cases "r = 0")
    case True
    obtain ys zs where "xs = ys @ b # zs"
      using split_list [of b xs] lruD(4) [OF x] hd(1) by auto
    then have "lru (bc (grab L_bcache ?s)) (ys @ b # zs)" using xk by simp
    from bmove_front_ok [OF this] obtain nx pv where
      m: "bmove_front b (grab L_bcache ?s) = Ret () ((grab L_bcache ?s)\<lparr>bc := links nx pv k\<rparr>)"
         "lru (links nx pv k) (b # ys @ zs)" by auto
    then show ?thesis unfolding e using True av
      by (intro exI [of _ nx] exI [of _ pv] exI [of _ "b # ys @ zs"]) simp
  next
    case False
    then show ?thesis unfolding e using av xk
      by (intro exI [of _ "\<lambda>i. b_next (bufs k i)"] exI [of _ "\<lambda>i. b_prev (bufs k i)"] exI [of _ xs])
         (simp add: links_id)
  qed
  then obtain nx pv ys where t: "brelse b s = Ret () (s\<lparr>sleeps := sl, bc := links nx pv k\<rparr>)"
    "lru (links nx pv k) ys" by blast
  let ?t = "s\<lparr>sleeps := sl, bc := links nx pv k\<rparr>"
  have ca: "cached ?t n i = cached s n i" for n i by (simp add: cached_def k_def)
  have "bcache ?t L D W (R(bno := unat r)) (H(bno := None))"
  proof (rule refcnt_upd_ok [OF b h, of _ ys])
    show "\<exists>nx pv. bufs (bc ?t) i = (if i = b then (bufs (bc s) b)\<lparr>b_refcnt := r\<rparr> else bufs (bc s) i)\<lparr>b_prev := pv, b_next := nx\<rparr>" for i
      by (auto simp: links_def k_def)
    show "r = 0 \<longrightarrow> L bno = D bno" using cl ur hd(7) by auto
    show "locks_ok ?t (R(bno := unat r)) (H(bno := None))"
    proof (rule locks_drop [OF d(8) h])
      show "sleeps ?t = (sleeps s)(SL_buf b := (sleeps s (SL_buf b))\<lparr>slp_locked := False, slp_pid := -1\<rparr>)"
        by (simp add: sl_def)
    qed (use locksD(1,2) [OF d(8)] in \<open>auto simp: ca\<close>)
  qed (use t(2) in \<open>simp_all add: k_def\<close>)
  moreover have "blk_step s ?t" by (rule blk_step_both) (simp add: sl_def)
  ultimately show ?thesis using t(1) ur by auto
qed

lemma pin_upd_ok:
  assumes b: "bcache s L D W R H" and h: "H bno = Some b" and r: "0 < unat r"
    and t: "t = s\<lparr>bc := (bc s)\<lparr>bufs := (bufs (bc s))(b := (bufs (bc s) b)\<lparr>b_refcnt := r\<rparr>)\<rparr>\<rparr>"
  shows "bcache t L D W (R(bno := unat r)) H"
proof -
  note d = bcacheD [OF b] and hd = bcache_heldD [OF b h]
  obtain xs where x: "lru (bc s) xs" using d(1) by blast
  have ca: "cached t n i = cached s n i" for n i by (simp add: t cached_def)
  have me: "mine t l = mine s l" for l by (simp add: t mine_def)
  show ?thesis
  proof (rule refcnt_upd_ok [OF b h, of _ xs])
    show "lru (bc t) xs" unfolding t by (subst lru_cong [where k = "bc s"]) (use x in simp_all)
    show "\<exists>nx pv. bufs (bc t) i = (if i = b then (bufs (bc s) b)\<lparr>b_refcnt := r\<rparr> else bufs (bc s) i)\<lparr>b_prev := pv, b_next := nx\<rparr>" for i
      by (intro exI [of _ "b_next (bufs (bc s) i)"] exI [of _ "b_prev (bufs (bc s) i)"], rule buffer.equality)
         (simp_all add: t)
    show "locks_ok t (R(bno := unat r)) H"
      using d(8) r unfolding locks_ok_def ca me by (auto simp: t)
  qed (use r in \<open>auto simp: t\<close>)
qed

definition pinned :: "nat \<Rightarrow> u32 \<Rightarrow> block_state \<Rightarrow> block_state" where
  "pinned b r k = k\<lparr>bufs := (bufs k)(b := (bufs k b)\<lparr>b_refcnt := r\<rparr>)\<rparr>"

lemma bpin_eq:
  assumes "avail s L_bcache" "\<not> b_refcnt (bufs (bc s) b) < 1"
  shows "bpin b s = Ret () (s\<lparr>bc := pinned b (b_refcnt (bufs (bc s) b) + 1) (bc s)\<rparr>)"
  using assms by (simp add: bpin_def pinned_def)

lemma bpin_ok:
  assumes c: "calm s p" and b: "bcache s L D W R H" and h: "H bno = Some b" and r: "R bno < 2 ^ 31"
  shows "\<exists>t. bpin b s = Ret () t \<and> blk_step s t \<and> bcache t L D W (R(bno := R bno + 1)) H"
proof -
  note hd = bcache_heldD [OF b h] and cd = calmD [OF c]
  have av: "avail s L_bcache" using cd(1) by auto
  let ?r = "b_refcnt (bufs (bc s) b)"
  have ur: "unat (?r + 1) = R bno + 1" using hd(6) r by (simp add: unat_incr)
  let ?t = "s\<lparr>bc := (bc s)\<lparr>bufs := (bufs (bc s))(b := (bufs (bc s) b)\<lparr>b_refcnt := ?r + 1\<rparr>)\<rparr>\<rparr>"
  have "\<not> ?r < 1" using hd(6,7) by (simp add: word_less_nat_alt)
  then have "bpin b s = Ret () ?t" using av by (simp add: bpin_def)
  moreover have "bcache ?t L D W (R(bno := R bno + 1)) H"
    using pin_upd_ok [OF b h _ refl, of "?r + 1"] ur by simp
  ultimately show ?thesis by auto
qed

lemma bunpin_ok:
  assumes c: "calm s p" and b: "bcache s L D W R H" and h: "H bno = Some b" and r: "1 < R bno"
  shows "\<exists>t. bunpin b s = Ret () t \<and> blk_step s t \<and> bcache t L D W (R(bno := R bno - 1)) H"
proof -
  note hd = bcache_heldD [OF b h] and cd = calmD [OF c]
  have av: "avail s L_bcache" using cd(1) by auto
  let ?r = "b_refcnt (bufs (bc s) b)"
  have ur: "unat (?r - 1) = R bno - 1" using hd(6) r by (simp add: unat_decr)
  let ?t = "s\<lparr>bc := (bc s)\<lparr>bufs := (bufs (bc s))(b := (bufs (bc s) b)\<lparr>b_refcnt := ?r - 1\<rparr>)\<rparr>\<rparr>"
  have "\<not> ?r < 1" using hd(6,7) by (simp add: word_less_nat_alt)
  then have "bunpin b s = Ret () ?t" using av by (simp add: bunpin_def)
  moreover have "bcache ?t L D W (R(bno := R bno - 1)) H"
    using pin_upd_ok [OF b h _ refl, of "?r - 1"] ur r by simp
  ultimately show ?thesis by auto
qed


section \<open>Initialisation\<close>

definition lock_init_step :: "'z kblk_scheme \<Rightarrow> 'z kblk_scheme \<Rightarrow> bool" where
  "lock_init_step s t \<longleftrightarrow> (\<exists>sp sl k. t = s\<lparr>spins := sp, sleeps := sl, bc := k\<rparr> \<and>
     (\<forall>L. lock_free s L \<longrightarrow> \<not> sl_locked (sp L) \<and> sl_cpuid (sp L) = -1))"

lemma lock_init_calm:
  assumes "lock_init_step s t" "calm s p"
  shows "calm t p"
  using assms
  by (auto simp: lock_init_step_def calm_def quiet_def lock_free_def cur_proc_def hart_defs no_sleeper_def)

definition binit_inv :: "'z kblk_scheme \<Rightarrow> nat \<Rightarrow> 'z kblk_scheme \<Rightarrow> bool" where
  "binit_inv s n t \<longleftrightarrow> lock_init_step s t \<and> vd (bc t) = vd (bc s) \<and> platter (bc t) = platter (bc s) \<and> past (bc t) = past (bc s) \<and>
     seg (\<lambda>i. b_next (bufs (bc t) i)) (\<lambda>i. b_prev (bufs (bc t) i)) N_BUF (rev [0..<n]) N_BUF \<and>
     (\<forall>i. b_dev (bufs (bc t) i) = b_dev (bufs (bc s) i) \<and> b_disk (bufs (bc t) i) = b_disk (bufs (bc s) i)) \<and>
     (\<forall>i<n. b_refcnt (bufs (bc t) i) = 0 \<and> \<not> b_valid (bufs (bc t) i) \<and> \<not> slp_locked (sleeps t (SL_buf i)))"

lemma binit_buf_ok:
  assumes i: "binit_inv s n t" and n: "n < N_BUF"
  shows "\<exists>u. binit_buf n t = Ret () u \<and> binit_inv s (Suc n) u"
proof -
  let ?nx = "\<lambda>i. b_next (bufs (bc t) i)" and ?pv = "\<lambda>i. b_prev (bufs (bc t) i)"
  define k where "k = (bc t)\<lparr>bufs := (bufs (bc t))(n := (bufs (bc t) n)\<lparr>b_valid := False, b_refcnt := 0\<rparr>)\<rparr>"
  define nx where "nx = ?nx(n := ?nx N_BUF, N_BUF := n)"
  define pv where "pv = ?pv(n := N_BUF, ?nx N_BUF := n)"
  define sp where "sp = (spins t)(L_sleep (SL_buf n) := \<lparr>sl_locked = False, sl_cpuid = -1, sl_name = ''sleep_lock''\<rparr>)"
  define sl where "sl = (sleeps t)(SL_buf n := \<lparr>slp_locked = False, slp_pid = -1, slp_name = ''buf''\<rparr>)"
  let ?u = "t\<lparr>spins := sp, sleeps := sl, bc := links nx pv k\<rparr>"
  have sg: "seg nx pv N_BUF (n # rev [0..<n]) N_BUF"
    unfolding nx_def pv_def by (rule seg_push) (use i n in \<open>auto simp: binit_inv_def\<close>)
  have k0: "(bc t)\<lparr>bufs := (bufs (bc t))(n := (bufs (bc t) n)\<lparr>b_valid := False, b_refcnt := 0, b_prev := N_BUF, b_next := ?nx N_BUF\<rparr>)\<rparr>
      = links (?nx(n := ?nx N_BUF)) (?pv(n := N_BUF)) k"
    by (auto simp: links_def k_def fun_eq_iff)
  have "binit_buf n t = Ret () ?u"
    by (simp add: binit_buf_def sleep_lock_init_def spin_lock_init_def k0 links_bufs) (simp add: sp_def sl_def nx_def pv_def)
  moreover have "binit_inv s (Suc n) ?u"
  proof -
    obtain sp' sl' k' where t: "t = s\<lparr>spins := sp', sleeps := sl', bc := k'\<rparr>"
      "\<forall>L. lock_free s L \<longrightarrow> \<not> sl_locked (sp' L) \<and> sl_cpuid (sp' L) = -1"
      using i unfolding binit_inv_def lock_init_step_def by blast
    have "?u = s\<lparr>spins := sp, sleeps := sl, bc := links nx pv k\<rparr>" using t(1) by simp
    moreover have "\<forall>L. lock_free s L \<longrightarrow> \<not> sl_locked (sp L) \<and> sl_cpuid (sp L) = -1"
      using t by (simp add: sp_def)
    ultimately have "lock_init_step s ?u" unfolding lock_init_step_def by blast
    then show ?thesis
      using i sg by (auto simp: binit_inv_def less_Suc_eq k_def sl_def simp del: seg.simps)
  qed
  ultimately show ?thesis by blast
qed

lemma binit_ok:
  assumes "\<And>i. i < N_BUF \<Longrightarrow> b_dev (bufs (bc s) i) = 0 \<and> \<not> b_disk (bufs (bc s) i)"
    and "vd_idle (vd (bc s))"
  shows "\<exists>t. binit s = Ret () t \<and> lock_init_step s t \<and> lru (bc t) (rev [0..<N_BUF]) \<and>
    (\<forall>n i. \<not> cached t n i) \<and>
    bcache t (\<lambda>n. platter (bc s) (sector_of n)) (\<lambda>n. platter (bc s) (sector_of n))
      (map (\<lambda>pl n. pl (sector_of n)) (past (bc s))) (\<lambda>_. 0) Map.empty"
proof -
  define s1 where "s1 = s\<lparr>spins := (spins s)(L_bcache := \<lparr>sl_locked = False, sl_cpuid = -1, sl_name = ''bcache''\<rparr>),
    bc := (bc s)\<lparr>bufs := (bufs (bc s))(N_BUF := (bufs (bc s) N_BUF)\<lparr>b_prev := N_BUF, b_next := N_BUF\<rparr>)\<rparr>\<rparr>"
  have "s1 = s\<lparr>spins := spins s1, sleeps := sleeps s1, bc := bc s1\<rparr>" by (cases s) (simp add: s1_def)
  then have "lock_init_step s s1"
    unfolding lock_init_step_def
    by (intro exI [of _ "spins s1"] exI [of _ "sleeps s1"] exI [of _ "bc s1"]) (simp add: s1_def lock_free_def)
  then have z: "binit_inv s 0 s1" by (simp add: binit_inv_def s1_def)
  have "\<exists>t. forK [0..<n] binit_buf s1 = Ret () t \<and> binit_inv s n t" if "n \<le> N_BUF" for n
    using that
  proof (induction n)
    case (Suc n)
    then obtain t where "forK [0..<n] binit_buf s1 = Ret () t" "binit_inv s n t" by auto
    with binit_buf_ok [of s n t] Suc.prems show ?case by (auto simp: forK_append)
  qed (use z in auto)
  then obtain t where t: "forK [0..<N_BUF] binit_buf s1 = Ret () t" "binit_inv s N_BUF t" by blast
  have "binit s = Ret () t" using t(1) by (simp add: binit_def spin_lock_init_def s1_def)
  moreover have x: "lru (bc t) (rev [0..<N_BUF])" using t(2) by (auto simp: binit_inv_def lru_def)
  moreover have "bcache t (\<lambda>n. platter (bc s) (sector_of n)) (\<lambda>n. platter (bc s) (sector_of n))
      (map (\<lambda>pl n. pl (sector_of n)) (past (bc s))) (\<lambda>_. 0) Map.empty"
    by (rule bcacheI [OF x])
       (use t(2) assms in \<open>auto simp: binit_inv_def buf_ok_def cached_def locks_ok_def ROOT_DEV_def image_of_def list_all2_conv_all_nth\<close>)
  moreover have "\<not> cached t n i" for n i
    using t(2) assms(1) by (auto simp: binit_inv_def cached_def ROOT_DEV_def)
  ultimately show ?thesis using t(2) by (auto simp: binit_inv_def)
qed


section \<open>The contract, discharged\<close>

interpretation bio: block_pins bcache "\<lambda>s. \<exists>p. calm s p" blk_step "\<lambda>s b. b_data (bufs (bc s) b)"
  "bread ROOT_DEV" "\<lambda>b f. upd_buf b (\<lambda>x. x\<lparr>b_data := f (b_data x)\<rparr>)" bwrite brelse bno_ok N_BUF bpin bunpin
proof (unfold_locales, goal_cases)
  case (1 s) show ?case by simp
next
  case (2 s t u) then show ?case by (rule blk_step_trans)
next
  case (3 s t) then show ?case by (simp add: blk_stepD)
next
  case (4 s L D W R H n) then show ?case by (rule bcacheD(7))
next
  case (5 s L D W R H n b) then show ?case by (simp add: bcache_heldD)
next
  case (6 s L D W R H n) then show ?case using bread_ok by blast
next
  case (7 s L D W R H n b f) then show ?case by (rule upd_data_ok)
next
  case (8 s L D W R H n b) then show ?case using bwrite_ok by blast
next
  case (9 s L D W R H n b) then show ?case using brelse_ok by blast
next
  case (10 s L D W R H n b) then show ?case using bpin_ok by blast
next
  case (11 s L D W R H n b) then show ?case using bunpin_ok by blast
qed

definition zero_state :: kblk where
  "zero_state = blk_state\<lparr>bc := cold_cache\<lparr>bufs := \<lambda>i. (bufs cold_cache i)\<lparr>b_bno := 0\<rparr>,
     platter := \<lambda>sec j. of_nat (unat sec + j)\<rparr>\<rparr>"

lemma zero_state_ok:
  "calm zero_state 0" "vd_idle (vd (bc zero_state))"
  "i < N_BUF \<Longrightarrow> b_dev (bufs (bc zero_state) i) = 0 \<and> \<not> b_disk (bufs (bc zero_state) i)"
  "platter (bc zero_state) = (\<lambda>sec j. of_nat (unat sec + j))"
  by (simp_all add: zero_state_def) (simp_all add: cold_cache_def)

section \<open>Properties\<close>

text \<open>
  C2. The cache refines an array of blocks. \<^verbatim>\<open>bread\<close> returns a locked buffer with the
  latest contents of the block, whether it was cached or not, and takes a reference;
  \<^verbatim>\<open>bwrite\<close> makes the disk agree with the cache on that block and on no other, in one write;
  \<^verbatim>\<open>brelse\<close> drops the lock and the reference and changes no contents, provided the last
  reference to a block is dropped clean; \<^verbatim>\<open>bpin\<close> and \<^verbatim>\<open>bunpin\<close> only count.
\<close>

theorem buffer_cache_refines:
  assumes "calm s p" "bcache s L D W R H"
  shows "(\<forall>n. bno_ok n \<and> H n = None \<and> R n < 2 ^ 31 \<and> (0 < R n \<or> card (used R) < N_BUF) \<longrightarrow>
      (\<exists>b t. bread ROOT_DEV n s = Ret b t \<and> b_data (bufs (bc t) b) = L n \<and> mine t (SL_buf b) \<and>
         bcache t L D W (R(n := R n + 1)) (H(n \<mapsto> b)))) \<and>
    (\<forall>n b. H n = Some b \<longrightarrow>
      (\<exists>t. bwrite b s = Ret () t \<and> bcache t L (D(n := L n)) (D # W) R H) \<and>
      ((R n = 1 \<longrightarrow> L n = D n) \<longrightarrow>
        (\<exists>t. brelse b s = Ret () t \<and> bcache t L D W (R(n := R n - 1)) (H(n := None)))) \<and>
      (R n < 2 ^ 31 \<longrightarrow> (\<exists>t. bpin b s = Ret () t \<and> bcache t L D W (R(n := R n + 1)) H)) \<and>
      (1 < R n \<longrightarrow> (\<exists>t. bunpin b s = Ret () t \<and> bcache t L D W (R(n := R n - 1)) H)))"
proof (intro conjI allI impI)
  fix n assume "bno_ok n \<and> H n = None \<and> R n < 2 ^ 31 \<and> (0 < R n \<or> card (used R) < N_BUF)"
  then obtain b t where t: "bread ROOT_DEV n s = Ret b t" "bcache t L D W (R(n := R n + 1)) (H(n \<mapsto> b))"
    using bread_ok [OF assms] by blast
  moreover have "b_data (bufs (bc t) b) = L n" "mine t (SL_buf b)"
    using bcache_heldD [OF t(2), of n b] by simp_all
  ultimately show "\<exists>b t. bread ROOT_DEV n s = Ret b t \<and> b_data (bufs (bc t) b) = L n \<and> mine t (SL_buf b) \<and>
         bcache t L D W (R(n := R n + 1)) (H(n \<mapsto> b))" by blast
qed (use bwrite_ok [OF assms] brelse_ok [OF assms] bpin_ok [OF assms] bunpin_ok [OF assms] in blast)+

theorem buffer_cache_refines_witness:
  "\<exists>s b t. binit zero_state = Ret () s \<and> bread ROOT_DEV 3 s = Ret b t \<and> b_data (bufs (bc t) b) 1 = 7"
proof -
  obtain s where s: "binit zero_state = Ret () s" "lock_init_step zero_state s"
    "bcache s (\<lambda>n. platter (bc zero_state) (sector_of n)) (\<lambda>n. platter (bc zero_state) (sector_of n))
      (map (\<lambda>pl n. pl (sector_of n)) (past (bc zero_state))) (\<lambda>_. 0) Map.empty"
    using binit_ok [OF zero_state_ok(3,2)] by blast
  have c: "calm s 0" by (rule lock_init_calm [OF s(2) zero_state_ok(1)])
  have "unat (3 * 2 :: u32) = 6" by simp
  then have d: "platter (bc zero_state) (sector_of 3) 1 = 7"
    by (simp add: zero_state_ok(4) sector_of_def unsigned_ucast_eq)
  have "bno_ok 3 \<and> (Map.empty :: u32 \<rightharpoonup> nat) 3 = None \<and> (0::nat) < 2 ^ 31 \<and> ((0::nat) < 0 \<or> card (used (\<lambda>_::u32. 0)) < N_BUF)"
    by (simp add: bno_ok_def used_def N_BUF_30)
  then obtain b t where "bread ROOT_DEV 3 s = Ret b t"
    "b_data (bufs (bc t) b) = platter (bc zero_state) (sector_of 3)"
    using buffer_cache_refines [OF c s(3), THEN conjunct1, rule_format, of 3] by blast
  then show ?thesis using d s(1) by auto
qed

text \<open>
  C32. \<^verbatim>\<open>binit\<close> links every buffer once, unlocked and unreferenced, and so establishes
  the cache over the disk as it is.
\<close>

theorem binit_cache:
  assumes "\<And>i. i < N_BUF \<Longrightarrow> b_dev (bufs (bc s) i) = 0 \<and> \<not> b_disk (bufs (bc s) i)"
    and "vd_idle (vd (bc s))"
  shows "\<exists>t. binit s = Ret () t \<and> lru (bc t) (rev [0..<N_BUF]) \<and> (\<forall>p. calm s p \<longrightarrow> calm t p) \<and>
    bcache t (\<lambda>n. platter (bc s) (sector_of n)) (\<lambda>n. platter (bc s) (sector_of n))
      (map (\<lambda>pl n. pl (sector_of n)) (past (bc s))) (\<lambda>_. 0) Map.empty"
  using binit_ok [OF assms] lock_init_calm by blast

theorem binit_cache_witness: "\<exists>t. binit zero_state = Ret () t \<and> lru (bc t) (rev [0..<N_BUF])"
  using binit_cache [OF zero_state_ok(3,2)] by blast

lemma find_rev_last:
  "find P (rev xs) = Some b \<Longrightarrow> \<exists>ys zs. xs = ys @ b # zs \<and> P b \<and> (\<forall>z\<in>set zs. \<not> P z)"
proof (induction xs rule: rev_induct)
  case (snoc x xs)
  show ?case
  proof (cases "P x")
    case True
    then show ?thesis using snoc.prems by (intro exI [of _ xs] exI [of _ "[]"]) auto
  next
    case False
    then obtain ys zs where "xs = ys @ b # zs" "P b" "\<forall>z\<in>set zs. \<not> P z" using snoc by auto
    then show ?thesis using False by (intro exI [of _ ys] exI [of _ "zs @ [x]"]) auto
  qed
qed simp




end
