(* ===== verification/Layout.thy ===== *)
theory Layout
  imports Virtio
begin

text \<open>
  The on-disk structures of \<^verbatim>\<open>include/fs/fs.h\<close> and of the log header
  (\<^verbatim>\<open>kernel/fs/log.c\<close>) as bytes of a block: little-endian loads and stores at the
  offsets the structures have, and the records they are read into.
\<close>

section \<open>Definitions\<close>

subsection \<open>Little-endian loads and stores\<close>

definition byte_of :: "u32 \<Rightarrow> nat \<Rightarrow> u8" where
  "byte_of v k = ucast (drop_bit (8 * k) v)"

definition ld16 :: "blk \<Rightarrow> nat \<Rightarrow> u16" where
  "ld16 d p = ucast (d p) OR push_bit 8 (ucast (d (p + 1)))"

definition ld32 :: "blk \<Rightarrow> nat \<Rightarrow> u32" where
  "ld32 d p = ucast (d p) OR push_bit 8 (ucast (d (p + 1))) OR
     push_bit 16 (ucast (d (p + 2))) OR push_bit 24 (ucast (d (p + 3)))"

definition st16 :: "blk \<Rightarrow> nat \<Rightarrow> u16 \<Rightarrow> blk" where
  "st16 d p v = (\<lambda>j. if p \<le> j \<and> j < p + 2 then byte_of (ucast v) (j - p) else d j)"

text \<open>\<open>n\<close> consecutive words, as an array assignment or \<^verbatim>\<open>memmove\<close> stores them.\<close>

definition st32s :: "blk \<Rightarrow> nat \<Rightarrow> nat \<Rightarrow> (nat \<Rightarrow> u32) \<Rightarrow> blk" where
  "st32s d p n a = (\<lambda>j. if p \<le> j \<and> j < p + 4 * n then byte_of (a ((j - p) div 4)) ((j - p) mod 4) else d j)"

definition st32 :: "blk \<Rightarrow> nat \<Rightarrow> u32 \<Rightarrow> blk" where
  "st32 d p v = st32s d p 1 (\<lambda>_. v)"

subsection \<open>Structures\<close>

definition N_DIRECT :: nat where "N_DIRECT = 10"
definition N_INDIRECT :: nat where "N_INDIRECT = 3"
definition N_ADDRS :: nat where "N_ADDRS = N_DIRECT + N_INDIRECT"
definition DIR_SIZE :: nat where "DIR_SIZE = 30"
definition IPB :: nat where "IPB = BLOCK_SIZE div 64"
definition APB :: nat where "APB = BLOCK_SIZE div 4"
definition LOG_SIZE :: nat where "LOG_SIZE = 30"

record super_block =
  sb_block_size :: u32
  sb_n_log_blks :: u32
  sb_n_inode_blks :: u32
  sb_n_data_blks :: u32
  sb_log_start :: u32
  sb_inode_bitmap_start :: u32
  sb_inode_start :: u32
  sb_data_bitmap_start :: u32
  sb_data_start :: u32

definition get_super_block :: "blk \<Rightarrow> super_block" where
  "get_super_block d = \<lparr>sb_block_size = ld32 d 0, sb_n_log_blks = ld32 d 4, sb_n_inode_blks = ld32 d 8,
     sb_n_data_blks = ld32 d 12, sb_log_start = ld32 d 16, sb_inode_bitmap_start = ld32 d 20,
     sb_inode_start = ld32 d 24, sb_data_bitmap_start = ld32 d 28, sb_data_start = ld32 d 32\<rparr>"

record d_inode =
  di_type :: u16
  di_major :: u16
  di_minor :: u16
  di_nlink :: u16
  di_size :: u32
  di_addrs :: "nat \<Rightarrow> u32"

definition get_d_inode :: "blk \<Rightarrow> nat \<Rightarrow> d_inode" where
  "get_d_inode d p = \<lparr>di_type = ld16 d p, di_major = ld16 d (p + 2), di_minor = ld16 d (p + 4),
     di_nlink = ld16 d (p + 6), di_size = ld32 d (p + 8), di_addrs = \<lambda>i. ld32 d (p + 12 + 4 * i)\<rparr>"

definition put_d_inode :: "blk \<Rightarrow> nat \<Rightarrow> d_inode \<Rightarrow> blk" where
  "put_d_inode d p di =
     (let d = st16 d p (di_type di);
          d = st16 d (p + 2) (di_major di);
          d = st16 d (p + 4) (di_minor di);
          d = st16 d (p + 6) (di_nlink di);
          d = st32 d (p + 8) (di_size di)
      in st32s d (p + 12) N_ADDRS (di_addrs di))"

record dir_entry =
  de_ino :: u16
  de_name :: "nat \<Rightarrow> u8"

definition get_dir_entry :: "blk \<Rightarrow> nat \<Rightarrow> dir_entry" where
  "get_dir_entry d p = \<lparr>de_ino = ld16 d p, de_name = \<lambda>i. d (p + 2 + i)\<rparr>"

definition put_dir_entry :: "blk \<Rightarrow> nat \<Rightarrow> dir_entry \<Rightarrow> blk" where
  "put_dir_entry d p de =
     (\<lambda>j. if p + 2 \<le> j \<and> j < p + 2 + DIR_SIZE then de_name de (j - (p + 2)) else st16 d p (de_ino de) j)"

definition hdr_n :: "blk \<Rightarrow> u32" where
  "hdr_n d = ld32 d 0"

definition hdr_block :: "blk \<Rightarrow> nat \<Rightarrow> u32" where
  "hdr_block d i = ld32 d (4 + 4 * i)"

section \<open>Loads after stores\<close>

lemma byte_of_join:
  "ucast (byte_of v 0) OR push_bit 8 (ucast (byte_of v (Suc 0))) OR
     push_bit 16 (ucast (byte_of v 2)) OR push_bit 24 (ucast (byte_of v 3)) = (v :: u32)"
proof (rule bit_word_eqI)
  fix n assume n: "n < LENGTH(32)"
  consider "n < 8" | "8 \<le> n" "n < 16" | "16 \<le> n" "n < 24" | "24 \<le> n" "n < 32" using n by force
  then show "bit (ucast (byte_of v 0) OR push_bit 8 (ucast (byte_of v (Suc 0))) OR
     push_bit 16 (ucast (byte_of v 2)) OR push_bit 24 (ucast (byte_of v 3)) :: u32) n = bit v n"
    by cases (auto simp: byte_of_def bit_simps)
qed

lemma byte_of_join16:
  "ucast (byte_of (ucast v) 0) OR push_bit 8 (ucast (byte_of (ucast v) (Suc 0))) = (v :: u16)"
proof (rule bit_word_eqI)
  fix n assume n: "n < LENGTH(16)"
  consider "n < 8" | "8 \<le> n" "n < 16" using n by force
  then show "bit (ucast (byte_of (ucast v) 0) OR push_bit 8 (ucast (byte_of (ucast v) (Suc 0))) :: u16) n = bit v n"
    by cases (auto simp: byte_of_def bit_simps)
qed

lemma ld32_I:
  assumes "\<And>k. k < 4 \<Longrightarrow> d (p + k) = byte_of v k"
  shows "ld32 d p = v"
  using assms [of 0] assms [of 1] assms [of 2] assms [of 3] byte_of_join [of v]
  by (simp add: ld32_def)

lemma ld16_I:
  assumes "\<And>k. k < 2 \<Longrightarrow> d (p + k) = byte_of (ucast v) k"
  shows "ld16 d p = v"
  using assms [of 0] assms [of 1] byte_of_join16 [of v] by (simp add: ld16_def)

lemma ld32_cong:
  assumes "\<And>k. k < 4 \<Longrightarrow> d (p + k) = d' (p + k)"
  shows "ld32 d p = ld32 d' p"
  using assms [of 0] assms [of 1] assms [of 2] assms [of 3] by (simp add: ld32_def)

lemma ld16_cong:
  assumes "\<And>k. k < 2 \<Longrightarrow> d (p + k) = d' (p + k)"
  shows "ld16 d p = ld16 d' p"
  using assms [of 0] assms [of 1] by (simp add: ld16_def)

lemmas ld_cong = ld32_cong ld16_cong

lemma ld32_st32s:
  assumes "i < n"
  shows "ld32 (st32s d p n a) (p + 4 * i) = a i"
proof (rule ld32_I)
  fix k :: nat assume "k < 4"
  then have "(4 * i + k) div 4 = i" "(4 * i + k) mod 4 = k" "4 * i + k < 4 * n" using assms by auto
  then show "st32s d p n a (p + 4 * i + k) = byte_of (a i) k" by (simp add: st32s_def add.assoc)
qed

lemma ld32_st32 [simp]: "ld32 (st32 d p v) p = v"
  using ld32_st32s [of 0 1 d p "\<lambda>_. v"] by (simp add: st32_def)

lemma ld16_st16 [simp]: "ld16 (st16 d p v) p = v"
  by (rule ld16_I) (simp add: st16_def)

lemma ld_st_other:
  "q + 4 \<le> p \<or> p + 4 * n \<le> q \<Longrightarrow> ld32 (st32s d p n a) q = ld32 d q"
  "q + 2 \<le> p \<or> p + 4 * n \<le> q \<Longrightarrow> ld16 (st32s d p n a) q = ld16 d q"
  "q + 4 \<le> p \<or> p + 2 \<le> q \<Longrightarrow> ld32 (st16 d p v) q = ld32 d q"
  "q + 2 \<le> p \<or> p + 2 \<le> q \<Longrightarrow> ld16 (st16 d p v) q = ld16 d q"
  by (rule ld_cong; auto simp: st32s_def st16_def)+

lemma ld_st32_other:
  "q + 4 \<le> p \<or> p + 4 \<le> q \<Longrightarrow> ld32 (st32 d p v) q = ld32 d q"
  "q + 2 \<le> p \<or> p + 4 \<le> q \<Longrightarrow> ld16 (st32 d p v) q = ld16 d q"
  by (simp_all add: st32_def ld_st_other)

text \<open>An inode stored in a block is read back, and its neighbours are untouched.\<close>

definition same_inode :: "d_inode \<Rightarrow> d_inode \<Rightarrow> bool" where
  "same_inode x y \<longleftrightarrow> di_type x = di_type y \<and> di_major x = di_major y \<and> di_minor x = di_minor y \<and>
     di_nlink x = di_nlink y \<and> di_size x = di_size y \<and> (\<forall>i<N_ADDRS. di_addrs x i = di_addrs y i)"

lemma get_put_d_inode: "same_inode (get_d_inode (put_d_inode d p di) p) di"
  unfolding same_inode_def get_d_inode_def put_d_inode_def Let_def
  by (simp add: ld32_st32s ld_st_other ld_st32_other)

lemma put_d_inode_other:
  assumes "j < p \<or> p + 64 \<le> j"
  shows "put_d_inode d p di j = d j"
  using assms by (auto simp: put_d_inode_def Let_def st32s_def st32_def st16_def N_ADDRS_def N_DIRECT_def N_INDIRECT_def)

lemma get_put_dir_entry:
  "de_ino (get_dir_entry (put_dir_entry d p de) p) = de_ino de"
  "i < DIR_SIZE \<Longrightarrow> de_name (get_dir_entry (put_dir_entry d p de) p) i = de_name de i"
proof -
  have "ld16 (put_dir_entry d p de) p = ld16 (st16 d p (de_ino de)) p"
    by (rule ld_cong) (simp add: put_dir_entry_def)
  then show "de_ino (get_dir_entry (put_dir_entry d p de) p) = de_ino de" by (simp add: get_dir_entry_def)
qed (simp add: get_dir_entry_def put_dir_entry_def)

end
