(* ===== verification/Log.thy ===== *)
theory Log
  imports Buf Layout
begin

text \<open>
  The write-ahead log \<^verbatim>\<open>kernel/fs/log.c\<close> and \<^verbatim>\<open>kernel/fs/fs.c\<close>.

  A file-system operation runs between \<^verbatim>\<open>begin_op\<close> and \<^verbatim>\<open>end_op\<close>;
  \<^verbatim>\<open>log_write\<close> pins each block it changes in the cache; when the last operation ends,
  \<^verbatim>\<open>commit\<close> copies the blocks to the log area, writes the header (the commit point),
  installs them at home and clears the header. \<^verbatim>\<open>recover_from_log\<close> redoes the
  installation at start-up.

  \<^verbatim>\<open>begin_op\<close> tests its guard once: a process that has to wait is out of the routine
  at \<^verbatim>\<open>sleep_on\<close> (outcome \<open>Switch\<close>). A header on disk with more than
  \<open>LOG_SIZE\<close> entries would make \<^verbatim>\<open>read_log_header\<close> write past its array; the
  theorems assume a header that fits the log.
\<close>

record log_state =
  lg_start :: u32
  lg_size :: u32
  lg_outstanding :: int
  lg_committing :: bool
  lg_dev :: u32
  lh_n :: u32
  lh_blocks :: "nat \<Rightarrow> u32"

record klog = kblk +
  lg :: log_state
  sb :: super_block

section \<open>Definitions\<close>

definition upd_lg :: "(log_state \<Rightarrow> log_state) \<Rightarrow> ('z klog_scheme, unit) kernel" where
  "upd_lg f = modK (\<lambda>s. s\<lparr>lg := f (lg s)\<rparr>)"

definition buf_data :: "nat \<Rightarrow> ('z kblk_scheme, blk) kernel" where
  "buf_data b = getK (\<lambda>s. b_data (bufs (bc s) b))"

definition set_data :: "nat \<Rightarrow> (blk \<Rightarrow> blk) \<Rightarrow> ('z kblk_scheme, unit) kernel" where
  "set_data b f = upd_buf b (\<lambda>x. x\<lparr>b_data := f (b_data x)\<rparr>)"

definition install_block :: "bool \<Rightarrow> nat \<Rightarrow> ('z klog_scheme, unit) kernel" where
  "install_block recovering i =
     bindK (getK lg) (\<lambda>g.
     bindK (bread (lg_dev g) (lg_start g + 1 + of_nat i)) (\<lambda>from.
     bindK (bread (lg_dev g) (lh_blocks g i)) (\<lambda>to.
     bindK (buf_data from) (\<lambda>d.
     thenK (set_data to (\<lambda>_. d)) (
     thenK (bwrite to) (
     thenK (whenK (\<not> recovering) (bunpin to)) (
     thenK (brelse from) (brelse to))))))))"

definition install_trans :: "bool \<Rightarrow> ('z klog_scheme, unit) kernel" where
  "install_trans recovering =
     bindK (getK (\<lambda>s. lh_n (lg s))) (\<lambda>n. forK [0..<unat n] (install_block recovering))"

definition read_log_header :: "('z klog_scheme, unit) kernel" where
  "read_log_header =
     bindK (getK lg) (\<lambda>g.
     bindK (bread (lg_dev g) (lg_start g)) (\<lambda>b.
     bindK (buf_data b) (\<lambda>d.
     thenK (upd_lg (\<lambda>g. g\<lparr>lh_n := hdr_n d,
              lh_blocks := \<lambda>i. if i < unat (hdr_n d) then hdr_block d i else lh_blocks g i\<rparr>))
       (brelse b))))"

definition write_log_header :: "('z klog_scheme, unit) kernel" where
  "write_log_header =
     bindK (getK lg) (\<lambda>g.
     bindK (bread (lg_dev g) (lg_start g)) (\<lambda>b.
     thenK (set_data b (\<lambda>d. st32s (st32 d 0 (lh_n g)) 4 (unat (lh_n g)) (lh_blocks g))) (
     thenK (bwrite b) (brelse b))))"

definition recover_from_log :: "('z klog_scheme, unit) kernel" where
  "recover_from_log = seqK [
     read_log_header,
     install_trans True,
     upd_lg (\<lambda>g. g\<lparr>lh_n := 0\<rparr>),
     write_log_header]"

definition log_init :: "u32 \<Rightarrow> ('z klog_scheme, unit) kernel" where
  "log_init dev =
     (if 4 + 4 * LOG_SIZE > BLOCK_SIZE then panicK ''too big log header'' else seqK [
       spin_lock_init L_log ''log'',
       modK (\<lambda>s. s\<lparr>lg := (lg s)\<lparr>lg_start := sb_log_start (sb s), lg_size := sb_n_log_blks (sb s), lg_dev := dev\<rparr>\<rparr>),
       recover_from_log])"

definition fs_init :: "u32 \<Rightarrow> ('z klog_scheme, unit) kernel" where
  "fs_init dev =
     bindK (bread dev 1) (\<lambda>b.
     bindK (buf_data b) (\<lambda>d. seqK [
       modK (\<lambda>s. s\<lparr>sb := get_super_block d\<rparr>),
       brelse b,
       log_init dev]))"

definition begin_op :: "('z klog_scheme, unit) kernel" where
  "begin_op =
     thenK (spin_lock_acquire L_log) (
     bindK (getK lg) (\<lambda>g.
     if lg_committing g then sleep_on Ch_log L_log
     else if lh_n g + of_int ((lg_outstanding g + 1) * int MAX_OP_BLKS) > of_nat LOG_SIZE
     then sleep_on Ch_log L_log
     else seqK [
       upd_lg (\<lambda>g. g\<lparr>lg_outstanding := lg_outstanding g + 1\<rparr>),
       spin_lock_release L_log]))"

definition write_block_to_log :: "nat \<Rightarrow> ('z klog_scheme, unit) kernel" where
  "write_block_to_log i =
     bindK (getK lg) (\<lambda>g.
     bindK (bread (lg_dev g) (lh_blocks g i)) (\<lambda>from.
     bindK (bread (lg_dev g) (lg_start g + 1 + of_nat i)) (\<lambda>to.
     bindK (buf_data from) (\<lambda>d.
     thenK (set_data to (\<lambda>_. d)) (
     thenK (bwrite to) (
     thenK (brelse from) (brelse to)))))))"

definition write_to_log :: "('z klog_scheme, unit) kernel" where
  "write_to_log =
     bindK (getK (\<lambda>s. lh_n (lg s))) (\<lambda>n. forK [0..<unat n] write_block_to_log)"

definition commit :: "('z klog_scheme, unit) kernel" where
  "commit =
     bindK (getK (\<lambda>s. lh_n (lg s))) (\<lambda>n.
     whenK (n > 0) (seqK [
       write_to_log,
       write_log_header,
       install_trans False,
       upd_lg (\<lambda>g. g\<lparr>lh_n := 0\<rparr>),
       write_log_header]))"

definition end_op :: "('z klog_scheme, unit) kernel" where
  "end_op =
     thenK (spin_lock_acquire L_log) (
     thenK (upd_lg (\<lambda>g. g\<lparr>lg_outstanding := lg_outstanding g - 1\<rparr>)) (
     bindK (getK lg) (\<lambda>g.
     if lg_committing g then panicK ''end the operation when the log is committing'' else
     let do_committing = (lg_outstanding g = 0) in seqK [
       if do_committing then upd_lg (\<lambda>g. g\<lparr>lg_committing := True\<rparr>) else wake_up Ch_log,
       spin_lock_release L_log,
       whenK do_committing (seqK [
         commit,
         spin_lock_acquire L_log,
         upd_lg (\<lambda>g. g\<lparr>lg_committing := False\<rparr>),
         wake_up Ch_log,
         spin_lock_release L_log])])))"

definition log_write :: "nat \<Rightarrow> ('z klog_scheme, unit) kernel" where
  "log_write b =
     thenK (spin_lock_acquire L_log) (
     bindK (getK lg) (\<lambda>g.
     if lh_n g \<ge> lg_size g - 1 then panicK ''too big a transaction''
     else if lg_outstanding g < 1 then panicK ''outside of transaction'' else
     bindK (getK (\<lambda>s. b_bno (bufs (bc s) b))) (\<lambda>bno.
     let i = (case find (\<lambda>i. lh_blocks g i = bno) [0..<unat (lh_n g)] of Some i \<Rightarrow> i | None \<Rightarrow> unat (lh_n g)) in seqK [
       upd_lg (\<lambda>g. g\<lparr>lh_blocks := (lh_blocks g)(i := bno)\<rparr>),
       whenK (i = unat (lh_n g)) (thenK (bpin b) (upd_lg (\<lambda>g. g\<lparr>lh_n := lh_n g + 1\<rparr>))),
       spin_lock_release L_log])))"

section \<open>Frame\<close>

lemma lg_frame [simp, quiet_simps]:
  "hart_ok (lg_update f s) = hart_ok s"
  "avail (lg_update f s) L = avail s L"
  "holds (lg_update f s) L = holds s L"
  "quiet (lg_update f s) = quiet s"
  "procs_avail (lg_update f s) = procs_avail s"
  "cur_proc (lg_update f s) = cur_proc s"
  "no_sleeper (lg_update f s) = no_sleeper s"
  "calm (lg_update f s) = calm s"
  "n_off (current_cpu (lg_update f s)) = n_off (current_cpu s)"
  "intr_ena (current_cpu (lg_update f s)) = intr_ena (current_cpu s)"
  "grab L (lg_update f s) = lg_update f (grab L s)"
  "ungrab L (lg_update f s) = lg_update f (ungrab L s)"
  "setp c (lg_update f s) = lg_update f (setp c s)"
  "lg (grab L s) = lg s" "lg (ungrab L s) = lg s" "lg (setp c s) = lg s"
  "pool (lg_update f s) ps = pool s ps"
  by (simp_all add: procs_avail_def avail_def holds_def quiet_def cur_proc_def lock_free_def calm_def
      spin_lock_holding_def grab_def ungrab_def setp_def hart_defs no_sleeper_def pool_def fun_eq_iff Let_def)

lemma lg_swap [simp]:
  "procs_update gpr (lg_update f s) = lg_update f (procs_update gpr s)"
  "sleeps_update gsl (lg_update f s) = lg_update f (sleeps_update gsl s)"
  "mem_update gme (lg_update f s) = lg_update f (mem_update gme s)"
  "free_head_update gfr (lg_update f s) = lg_update f (free_head_update gfr s)"
  "bc_update gbc (lg_update f s) = lg_update f (bc_update gbc s)"
  by (cases s; simp)+

lemma sb_frame [simp, quiet_simps]:
  "hart_ok (sb_update f s) = hart_ok s"
  "avail (sb_update f s) L = avail s L"
  "holds (sb_update f s) L = holds s L"
  "quiet (sb_update f s) = quiet s"
  "procs_avail (sb_update f s) = procs_avail s"
  "cur_proc (sb_update f s) = cur_proc s"
  "no_sleeper (sb_update f s) = no_sleeper s"
  "calm (sb_update f s) = calm s"
  "n_off (current_cpu (sb_update f s)) = n_off (current_cpu s)"
  "intr_ena (current_cpu (sb_update f s)) = intr_ena (current_cpu s)"
  "grab L (sb_update f s) = sb_update f (grab L s)"
  "ungrab L (sb_update f s) = sb_update f (ungrab L s)"
  "setp c (sb_update f s) = sb_update f (setp c s)"
  "sb (grab L s) = sb s" "sb (ungrab L s) = sb s" "sb (setp c s) = sb s"
  "pool (sb_update f s) ps = pool s ps"
  by (simp_all add: procs_avail_def avail_def holds_def quiet_def cur_proc_def lock_free_def calm_def
      spin_lock_holding_def grab_def ungrab_def setp_def hart_defs no_sleeper_def pool_def fun_eq_iff Let_def)

lemma sb_swap [simp]:
  "procs_update gpr (sb_update f s) = sb_update f (procs_update gpr s)"
  "sleeps_update gsl (sb_update f s) = sb_update f (sleeps_update gsl s)"
  "mem_update gme (sb_update f s) = sb_update f (mem_update gme s)"
  "free_head_update gfr (sb_update f s) = sb_update f (free_head_update gfr s)"
  "bc_update gbc (sb_update f s) = sb_update f (bc_update gbc s)"
  "lg_update glg (sb_update f s) = sb_update f (lg_update glg s)"
  by (cases s; simp)+

lemma upd_lg_apply [simp]: "upd_lg f s = Ret () (s\<lparr>lg := f (lg s)\<rparr>)"
  by (simp add: upd_lg_def)

lemma bcache_frame [simp]:
  "bcache (lg_update f s) = bcache s" "bcache (sb_update f' s) = bcache s"
  by (simp_all add: bcache_def cached_def locks_ok_def mine_def fun_eq_iff)

lemma blk_step_log:
  assumes "blk_step s t"
  shows "lg t = lg s" "sb t = sb s"
  using assms by (auto simp: blk_step_def)

section \<open>Geometry\<close>

definition log_geo :: "log_state \<Rightarrow> bool" where
  "log_geo g \<longleftrightarrow> lg_dev g = ROOT_DEV \<and> 1 < unat (lg_size g) \<and> unat (lg_size g) \<le> LOG_SIZE \<and>
     unat (lg_start g) + LOG_SIZE < 2 ^ 31"

definition slot :: "log_state \<Rightarrow> nat \<Rightarrow> u32" where
  "slot g i = lg_start g + 1 + of_nat i"

definition in_log :: "log_state \<Rightarrow> u32 \<Rightarrow> bool" where
  "in_log g n \<longleftrightarrow> unat (lg_start g) \<le> unat n \<and> unat n < unat (lg_start g) + unat (lg_size g)"

definition home :: "log_state \<Rightarrow> u32 \<Rightarrow> bool" where
  "home g n \<longleftrightarrow> bno_ok n \<and> \<not> in_log g n"

lemma unat_slot:
  assumes "log_geo g" "i < LOG_SIZE"
  shows "unat (slot g i) = unat (lg_start g) + 1 + i"
proof -
  have i: "unat (of_nat i :: u32) = i" using assms(2) by (simp add: unat_of_nat LOG_SIZE_def take_bit_nat_eq_self)
  have "unat (lg_start g) + 1 + i < 2 ^ 32" using assms by (simp add: log_geo_def)
  then show ?thesis unfolding slot_def by (simp add: unat_word_ariths i)
qed

lemma slot_facts:
  assumes "log_geo g" "i + 1 < unat (lg_size g)"
  shows "bno_ok (slot g i)" "in_log g (slot g i)" "slot g i \<noteq> lg_start g"
    "j + 1 < unat (lg_size g) \<Longrightarrow> slot g i = slot g j \<longleftrightarrow> i = j"
proof -
  have l: "i < LOG_SIZE" using assms by (simp add: log_geo_def)
  note u = unat_slot [OF assms(1) l]
  show "bno_ok (slot g i)" "in_log g (slot g i)"
    using assms u by (simp_all add: bno_ok_def in_log_def log_geo_def)
  have "unat (slot g i) \<noteq> unat (lg_start g)" using u by simp
  then show "slot g i \<noteq> lg_start g" by metis
  assume "j + 1 < unat (lg_size g)"
  then have "unat (slot g j) = unat (lg_start g) + 1 + j"
    using assms(1) by (intro unat_slot) (auto simp: log_geo_def)
  with u have "unat (slot g i) = unat (slot g j) \<longleftrightarrow> i = j" by simp
  then show "slot g i = slot g j \<longleftrightarrow> i = j" by (simp only: word_unat_eq_iff)
qed

lemma start_facts:
  assumes "log_geo g"
  shows "bno_ok (lg_start g)" "in_log g (lg_start g)"
  using assms by (auto simp: bno_ok_def in_log_def log_geo_def)

text \<open>A header in memory: distinct blocks outside the log, no more than fit.\<close>

definition hdr_ok :: "log_state \<Rightarrow> bool" where
  "hdr_ok g \<longleftrightarrow> unat (lh_n g) < unat (lg_size g) \<and> inj_on (lh_blocks g) {..<unat (lh_n g)} \<and>
     (\<forall>i<unat (lh_n g). home g (lh_blocks g i))"

definition pins :: "log_state \<Rightarrow> u32 \<Rightarrow> nat" where
  "pins g n = (if \<exists>i<unat (lh_n g). n = lh_blocks g i then 1 else 0)"

lemma pins_none: "lh_n g = 0 \<Longrightarrow> pins g = (\<lambda>n. 0)"
  by (simp add: pins_def fun_eq_iff)

lemma used_pins: "used (pins g) = lh_blocks g ` {..<unat (lh_n g)}"
  by (auto simp: used_def pins_def)

lemma card_pins: "finite (used (pins g))" "card (used (pins g)) \<le> unat (lh_n g)"
  using card_image_le [of "{..<unat (lh_n g)}" "lh_blocks g"] by (simp_all add: used_pins)

lemma log_n_bound: "log_geo g \<Longrightarrow> hdr_ok g \<Longrightarrow> unat (lh_n g) < N_BUF"
  by (simp add: log_geo_def hdr_ok_def LOG_SIZE_def N_BUF_30)

lemma pins_in_log: "hdr_ok g \<Longrightarrow> in_log g n \<Longrightarrow> pins g n = 0"
  by (auto simp: pins_def hdr_ok_def home_def)

section \<open>The phases of a commit\<close>

lemma write_to_log_ok:
  assumes c: "calm s p" and b: "bcache s L D W (pins g) Map.empty" and g: "g = lg s" "log_geo g" "hdr_ok g"
  shows "\<exists>t. write_to_log s = Ret () t \<and> blk_step s t \<and>
    bcache t (puts L (slot g) (\<lambda>j. L (lh_blocks g j)) (unat (lh_n g)))
      (puts D (slot g) (\<lambda>j. L (lh_blocks g j)) (unat (lh_n g)))
      (map (puts D (slot g) (\<lambda>j. L (lh_blocks g j))) (rev [0..<unat (lh_n g)]) @ W) (pins g) Map.empty"
proof -
  let ?n = "unat (lh_n g)"
  have sl: "i + 1 < unat (lg_size g)" if "i < ?n" for i using that g(3) by (simp add: hdr_ok_def)
  have hm: "home g (lh_blocks g i)" if "i < ?n" for i using that g(3) by (simp add: hdr_ok_def)
  have "\<exists>t. forK [0..<?n] write_block_to_log s = Ret () t \<and> blk_step s t \<and>
    bcache t (puts L (slot g) (\<lambda>j. L (lh_blocks g j)) ?n) (puts D (slot g) (\<lambda>j. L (lh_blocks g j)) ?n)
      (map (puts D (slot g) (\<lambda>j. L (lh_blocks g j))) (rev [0..<?n]) @ W)
      (if False then puts (pins g) (slot g) (\<lambda>j. pins g (slot g j) - 1) ?n else pins g) Map.empty"
  proof (rule bio.copy_loop [where n = ?n])
    show "\<exists>p. calm s p" using c by blast
    show "bcache s L D W (pins g) Map.empty" by (rule b)
    show "lh_blocks g i \<noteq> slot g j" if "i < ?n" "j < ?n" for i j
      using hm [OF that(1)] slot_facts(2) [OF g(2) sl [OF that(2)]] by (auto simp: home_def)
    show "finite (used (pins g))" by (rule card_pins)
    show "write_block_to_log i t = bindK (bread ROOT_DEV (lh_blocks g i)) (\<lambda>a. bindK (bread ROOT_DEV (slot g i)) (\<lambda>b.
      bindK (getK (\<lambda>s. b_data (bufs (bc s) a))) (\<lambda>d. thenK (upd_buf b (\<lambda>x. x\<lparr>b_data := d\<rparr>)) (thenK (bwrite b)
      (thenK (whenK False (bunpin b)) (thenK (brelse a) (brelse b))))))) t" if "blk_step s t" for i t
      using blk_step_log(1) [OF that] g by (simp add: write_block_to_log_def buf_data_def set_data_def slot_def log_geo_def)
    fix i assume i: "i < ?n"
    have pb: "pins g (lh_blocks g i) = 1" using i unfolding pins_def by auto
    have "used ((pins g)(lh_blocks g i := pins g (lh_blocks g i) + 1)) = used (pins g)"
      unfolding used_def using pb by auto
    then show "bno_ok (lh_blocks g i) \<and> bno_ok (slot g i) \<and> Map.empty (lh_blocks g i) = None \<and> Map.empty (slot g i) = None \<and>
      pins g (lh_blocks g i) < 2 ^ 31 \<and> pins g (slot g i) < 2 ^ 31 \<and>
      (0 < pins g (lh_blocks g i) \<or> card (used (pins g)) < N_BUF) \<and>
      (0 < pins g (slot g i) \<or> \<not> False \<and> card (used ((pins g)(lh_blocks g i := pins g (lh_blocks g i) + 1))) < N_BUF)"
      using pb hm [OF i] slot_facts [OF g(2) sl [OF i]] pins_in_log [OF g(3)] card_pins(2) [of g] log_n_bound [OF g(2,3)]
      by (simp add: home_def)
  qed simp_all
  then show ?thesis using g(1) by (simp add: write_to_log_def del: upt_Suc)
qed

lemma geo_frame [simp]:
  "log_geo (lh_n_update f g) = log_geo g" "log_geo (lh_blocks_update f' g) = log_geo g"
  "log_geo (lg_outstanding_update fo g) = log_geo g" "log_geo (lg_committing_update fc g) = log_geo g"
  "slot (lh_n_update f g) = slot g" "slot (lh_blocks_update f' g) = slot g"
  "home (lh_n_update f g) = home g" "home (lh_blocks_update f' g) = home g"
  "home (lg_outstanding_update fo g) = home g" "home (lg_committing_update fc g) = home g"
  by (simp_all add: log_geo_def slot_def home_def in_log_def fun_eq_iff)

definition put_hdr :: "u32 \<Rightarrow> (nat \<Rightarrow> u32) \<Rightarrow> blk \<Rightarrow> blk" where
  "put_hdr n bl d = st32s (st32 d 0 n) 4 (unat n) bl"

lemma get_put_hdr [simp]: "hdr_n (put_hdr n bl d) = n" "i < unat n \<Longrightarrow> hdr_block (put_hdr n bl d) i = bl i"
  by (simp_all add: put_hdr_def hdr_n_def hdr_block_def ld_st_other ld32_st32s)

lemma write_log_header_ok:
  assumes c: "calm s p" and b: "bcache s L D W R Map.empty" and g: "g = lg s" "log_geo g"
    and r: "R (lg_start g) < 2 ^ 31" "card (used R) < N_BUF"
  shows "\<exists>t. write_log_header s = Ret () t \<and> blk_step s t \<and>
    bcache t (L(lg_start g := put_hdr (lh_n g) (lh_blocks g) (L (lg_start g))))
      (D(lg_start g := put_hdr (lh_n g) (lh_blocks g) (L (lg_start g)))) (D # W) R Map.empty"
proof -
  have "\<exists>t. bindK (bread ROOT_DEV (lg_start g)) (\<lambda>b. thenK (upd_buf b (\<lambda>x. x\<lparr>b_data := put_hdr (lh_n g) (lh_blocks g) (b_data x)\<rparr>))
      (thenK (bwrite b) (brelse b))) s = Ret () t \<and> blk_step s t \<and>
    bcache t (L(lg_start g := put_hdr (lh_n g) (lh_blocks g) (L (lg_start g))))
      (D(lg_start g := put_hdr (lh_n g) (lh_blocks g) (L (lg_start g)))) (D # W) R Map.empty"
    by (rule bio.write_session [where n = "lg_start g"]) (use c b r start_facts [OF g(2)] in auto)
  moreover have "lg_dev g = ROOT_DEV" using g(2) by (simp add: log_geo_def)
  ultimately show ?thesis
    using g(1) by (simp add: write_log_header_def set_data_def put_hdr_def [abs_def])
qed

text \<open>Installation, after a commit (\<open>u\<close>, unpinning) or in recovery.\<close>

lemma install_trans_ok:
  assumes c: "calm s p" and b: "bcache s L D W R Map.empty" and g: "g = lg s" "log_geo g"
    and n: "n = unat (lh_n g)" "n < unat (lg_size g)" "\<And>i. i < n \<Longrightarrow> home g (lh_blocks g i)"
    and r: "R = (if u then pins g else (\<lambda>_. 0))" "u \<Longrightarrow> inj_on (lh_blocks g) {..<n}"
  shows "\<exists>t. install_trans (\<not> u) s = Ret () t \<and> blk_step s t \<and>
    bcache t (puts L (lh_blocks g) (\<lambda>j. L (slot g j)) n) (puts D (lh_blocks g) (\<lambda>j. L (slot g j)) n)
      (map (puts D (lh_blocks g) (\<lambda>j. L (slot g j))) (rev [0..<n]) @ W) (\<lambda>_. 0) Map.empty"
proof -
  have sl: "i + 1 < unat (lg_size g)" if "i < n" for i using that n(2) by simp
  have N: "n < N_BUF" using n(2) g(2) by (simp add: log_geo_def LOG_SIZE_def N_BUF_30)
  have pf: "finite (used R)" "card (used R) \<le> n" using card_pins [of g] n(1) r(1) by (auto simp: used_def)
  have R0: "R (slot g i) = 0" if "i < n" for i
    using slot_facts(2) [OF g(2) sl [OF that]] n r(1) by (auto simp: pins_def home_def)
  have "\<exists>t. forK [0..<n] (install_block (\<not> u)) s = Ret () t \<and> blk_step s t \<and>
    bcache t (puts L (lh_blocks g) (\<lambda>j. L (slot g j)) n) (puts D (lh_blocks g) (\<lambda>j. L (slot g j)) n)
      (map (puts D (lh_blocks g) (\<lambda>j. L (slot g j))) (rev [0..<n]) @ W)
      (if u then puts R (lh_blocks g) (\<lambda>j. R (lh_blocks g j) - 1) n else R) Map.empty"
  proof (rule bio.copy_loop [where n = n])
    show "\<exists>p. calm s p" using c by blast
    show "slot g i \<noteq> lh_blocks g j" if "i < n" "j < n" for i j
      using n(3) [OF that(2)] slot_facts(2) [OF g(2) sl [OF that(1)]] by (auto simp: home_def)
    show "install_block (\<not> u) i t = bindK (bread ROOT_DEV (slot g i)) (\<lambda>a. bindK (bread ROOT_DEV (lh_blocks g i)) (\<lambda>b.
      bindK (getK (\<lambda>s. b_data (bufs (bc s) a))) (\<lambda>d. thenK (upd_buf b (\<lambda>x. x\<lparr>b_data := d\<rparr>)) (thenK (bwrite b)
      (thenK (whenK u (bunpin b)) (thenK (brelse a) (brelse b))))))) t" if "blk_step s t" for i t
      using blk_step_log(1) [OF that] g by (simp add: install_block_def buf_data_def set_data_def slot_def log_geo_def)
    fix i assume i: "i < n"
    have pb: "u \<Longrightarrow> R (lh_blocks g i) = 1" using i n(1) r(1) unfolding pins_def by auto
    have "\<not> u \<Longrightarrow> used (R(slot g i := R (slot g i) + 1)) = {slot g i}" using r(1) by (auto simp: used_def)
    then have "\<not> u \<Longrightarrow> card (used (R(slot g i := R (slot g i) + 1))) < N_BUF" by (simp add: N_BUF_30)
    then show "bno_ok (slot g i) \<and> bno_ok (lh_blocks g i) \<and> Map.empty (slot g i) = None \<and> Map.empty (lh_blocks g i) = None \<and>
      R (slot g i) < 2 ^ 31 \<and> R (lh_blocks g i) < 2 ^ 31 \<and>
      (0 < R (slot g i) \<or> card (used R) < N_BUF) \<and>
      (0 < R (lh_blocks g i) \<or> \<not> u \<and> card (used (R(slot g i := R (slot g i) + 1))) < N_BUF)"
      using pb n(3) [OF i] slot_facts(1) [OF g(2) sl [OF i]] R0 [OF i] pf(2) N r(1)
      by (cases u) (auto simp: home_def)
  qed (use b r(2) pf(1) in simp_all)
  moreover have "(if u then puts R (lh_blocks g) (\<lambda>j. R (lh_blocks g j) - 1) n else R) = (\<lambda>_. 0)"
  proof (cases u)
    case True
    have "puts R (lh_blocks g) (\<lambda>j. R (lh_blocks g j) - 1) n k = 0" for k
    proof (cases "\<exists>i<n. k = lh_blocks g i")
      case t: True
      then obtain i where "i < n" "k = lh_blocks g i" by blast
      then show ?thesis using puts_same [OF r(2) [OF True]] True r(1) by (simp add: pins_def)
    next
      case False
      then show ?thesis using True r(1) n(1) by (subst puts_other) (auto simp: pins_def)
    qed
    then show ?thesis using True by auto
  qed (use r(1) in simp)
  ultimately show ?thesis using g(1) n(1) by (simp add: install_trans_def del: upt_Suc)
qed

section \<open>A commit and the images it leaves\<close>

text \<open>
  The state of the file system inside a transaction: nothing committed on disk, the blocks
  of the transaction pinned in the cache, the blocks of \<open>H\<close> locked by the running process.
\<close>

definition refs :: "log_state \<Rightarrow> (u32 \<rightharpoonup> nat) \<Rightarrow> u32 \<Rightarrow> nat" where
  "refs g H n = pins g n + (if H n = None then 0 else 1)"

definition txn :: "'z klog_scheme \<Rightarrow> (u32 \<Rightarrow> blk) \<Rightarrow> (u32 \<Rightarrow> blk) \<Rightarrow> (u32 \<Rightarrow> blk) list \<Rightarrow> (u32 \<rightharpoonup> nat) \<Rightarrow> bool" where
  "txn s L D W H \<longleftrightarrow> log_geo (lg s) \<and> hdr_ok (lg s) \<and> bcache s L D W (refs (lg s) H) H \<and>
     hdr_n (D (lg_start (lg s))) = 0"

lemma refs_empty [simp]: "refs g Map.empty = pins g"
  by (simp add: refs_def fun_eq_iff)

text \<open>The disk in the phases of a commit: log written, header written, installed.\<close>

definition d_logged :: "log_state \<Rightarrow> (u32 \<Rightarrow> blk) \<Rightarrow> (u32 \<Rightarrow> blk) \<Rightarrow> nat \<Rightarrow> u32 \<Rightarrow> blk" where
  "d_logged g L D i = puts D (slot g) (\<lambda>j. L (lh_blocks g j)) i"

definition d_installed :: "log_state \<Rightarrow> (u32 \<Rightarrow> blk) \<Rightarrow> (u32 \<Rightarrow> blk) \<Rightarrow> nat \<Rightarrow> u32 \<Rightarrow> blk" where
  "d_installed g L D i =
     puts ((d_logged g L D (unat (lh_n g)))(lg_start g := put_hdr (lh_n g) (lh_blocks g) (D (lg_start g))))
       (lh_blocks g) (\<lambda>j. L (lh_blocks g j)) i"

definition d_done :: "log_state \<Rightarrow> (u32 \<Rightarrow> blk) \<Rightarrow> (u32 \<Rightarrow> blk) \<Rightarrow> u32 \<Rightarrow> blk" where
  "d_done g L D = (d_installed g L D (unat (lh_n g)))
     (lg_start g := put_hdr 0 (lh_blocks g) (put_hdr (lh_n g) (lh_blocks g) (D (lg_start g))))"

definition commit_images :: "log_state \<Rightarrow> (u32 \<Rightarrow> blk) \<Rightarrow> (u32 \<Rightarrow> blk) \<Rightarrow> (u32 \<Rightarrow> blk) list" where
  "commit_images g L D = map (d_installed g L D) (rev [0..<Suc (unat (lh_n g))]) @
     map (d_logged g L D) (rev [0..<Suc (unat (lh_n g))])"

lemma commit_ok:
  assumes c: "calm s p" and t: "txn s L D W Map.empty" and g: "g = lg s" "0 < lh_n g"
  shows "\<exists>t L'. commit s = Ret () t \<and> calm t p \<and> lg t = g\<lparr>lh_n := 0\<rparr> \<and> sb t = sb s \<and> procs t = procs s \<and>
    txn t L' (d_done g L D) (commit_images g L D @ W) Map.empty \<and> (\<forall>k. home g k \<longrightarrow> L' k = L k)"
proof -
  let ?n = "unat (lh_n g)" and ?bl = "lh_blocks g" and ?st = "lg_start g"
  have geo: "log_geo g" and hdr: "hdr_ok g" and b: "bcache s L D W (pins g) Map.empty" and h0: "hdr_n (D ?st) = 0"
    using t g(1) by (auto simp: txn_def)
  note sf = start_facts [OF geo]
  have sl: "i + 1 < unat (lg_size g)" if "i < ?n" for i using that hdr by (simp add: hdr_ok_def)
  have ps: "pins g ?st = 0" by (rule pins_in_log [OF hdr sf(2)])
  have Ls: "L ?st = D ?st" by (rule bcacheD(7) [OF b sf(1) ps])
  obtain s1 where s1: "write_to_log s = Ret () s1" "blk_step s s1"
    "bcache s1 (puts L (slot g) (\<lambda>j. L (?bl j)) ?n) (d_logged g L D ?n)
      (map (d_logged g L D) (rev [0..<?n]) @ W) (pins g) Map.empty"
    using write_to_log_ok [OF c b g(1) geo hdr] unfolding d_logged_def by blast
  define L1 where "L1 = puts L (slot g) (\<lambda>j. L (?bl j)) ?n"
  have L1s: "L1 ?st = D ?st" unfolding L1_def Ls [symmetric]
    by (rule puts_other) (use slot_facts(3) [OF geo sl] in blast)
  have c1: "calm s1 p" and g1: "g = lg s1" using s1(2) c g(1) by (simp_all add: blk_stepD blk_step_log)
  have N: "card (used (pins g)) < N_BUF" using card_pins(2) [of g] log_n_bound [OF geo hdr] by simp
  define H where "H = put_hdr (lh_n g) ?bl (D ?st)"
  obtain s2 where s2: "write_log_header s1 = Ret () s2" "blk_step s1 s2"
    "bcache s2 (L1(?st := H)) ((d_logged g L D ?n)(?st := H))
      (d_logged g L D ?n # map (d_logged g L D) (rev [0..<?n]) @ W) (pins g) Map.empty"
    using write_log_header_ok [OF c1 s1(3) g1 geo _ N] ps unfolding L1_def [symmetric] L1s H_def by auto
  have c2: "calm s2 p" and g2: "g = lg s2" using s2(2) c1 g1 by (simp_all add: blk_stepD blk_step_log)
  have L2: "(L1(?st := H)) (slot g j) = L (?bl j)" if "j < ?n" for j
  proof -
    have "inj_on (slot g) {..<?n}" using slot_facts(4) [OF geo sl] sl by (auto simp: inj_on_def)
    then show ?thesis using puts_same [of "slot g" ?n j] slot_facts(3) [OF geo sl [OF that]] that by (simp add: L1_def)
  qed
  have pc: "puts X ?bl (\<lambda>j. (L1(?st := H)) (slot g j)) i = puts X ?bl (\<lambda>j. L (?bl j)) i" if "i \<le> ?n" for X i
    by (rule puts_cong) (use that L2 in auto)
  have W2: "map (puts ((d_logged g L D ?n)(?st := H)) ?bl (\<lambda>j. (L1(?st := H)) (slot g j))) (rev [0..<?n]) =
      map (d_installed g L D) (rev [0..<?n])"
    using pc unfolding d_installed_def H_def by auto
  have nn: "?n < unat (lg_size g)" "\<And>i. i < ?n \<Longrightarrow> home g (?bl i)" "inj_on ?bl {..<?n}" using hdr by (auto simp: hdr_ok_def)
  define L3 where "L3 = puts (L1(?st := H)) ?bl (\<lambda>j. L (?bl j)) ?n"
  obtain s3 where s3: "install_trans False s2 = Ret () s3" "blk_step s2 s3"
    "bcache s3 L3 (d_installed g L D ?n) (map (d_installed g L D) (rev [0..<?n]) @
      d_logged g L D ?n # map (d_logged g L D) (rev [0..<?n]) @ W) (\<lambda>_. 0) Map.empty"
    using install_trans_ok [OF c2 s2(3) g2 geo refl nn(1,2), of True] nn(3)
    unfolding W2 pc [OF order_refl] L3_def by (auto simp: d_installed_def H_def)
  have hk: "home g k \<Longrightarrow> k \<noteq> ?st" for k using sf(2) by (auto simp: home_def)
  have L3s: "L3 ?st = H" unfolding L3_def using nn(2) hk by (subst puts_other) auto
  define s3' where "s3' = s3\<lparr>lg := g\<lparr>lh_n := 0\<rparr>\<rparr>"
  have c3: "calm s3' p" using s3(2) c2 by (simp add: s3'_def blk_stepD)
  have b3: "bcache s3' L3 (d_installed g L D ?n) (map (d_installed g L D) (rev [0..<?n]) @
      d_logged g L D ?n # map (d_logged g L D) (rev [0..<?n]) @ W) (\<lambda>_. 0) Map.empty"
    using s3(3) by (simp add: s3'_def)
  obtain s4 where s4: "write_log_header s3' = Ret () s4" "blk_step s3' s4"
    "bcache s4 (L3(?st := put_hdr 0 ?bl H)) (d_done g L D) (commit_images g L D @ W) (\<lambda>_. 0) Map.empty"
    using write_log_header_ok [OF c3 b3, of "g\<lparr>lh_n := 0\<rparr>"] geo L3s
    by (auto simp: s3'_def used_def N_BUF_30 d_done_def commit_images_def H_def)
  have g4: "lg s4 = g\<lparr>lh_n := 0\<rparr>" using s4(2) by (simp add: blk_step_log s3'_def)
  have "commit s = Ret () s4"
    using s1(1) s2(1) s3(1) s4(1) g g2 s3(2) blk_step_log(1) [OF s3(2)] by (simp add: commit_def s3'_def)
  moreover have "sb s4 = sb s" "procs s4 = procs s" "calm s4 p"
    using s1(2) s2(2) s3(2) s4(2) c3 by (simp_all add: blk_step_log blk_stepD s3'_def)
  moreover have "txn s4 (L3(?st := put_hdr 0 ?bl H)) (d_done g L D) (commit_images g L D @ W) Map.empty"
    using s4(3) geo nn(1) by (simp add: txn_def g4 hdr_ok_def pins_def [abs_def] d_done_def)
  moreover have "(L3(?st := put_hdr 0 ?bl H)) k = L k" if "home g k" for k
  proof -
    have "L1 k = L k" unfolding L1_def
      by (rule puts_other) (use that slot_facts(2) [OF geo sl] in \<open>auto simp: home_def\<close>)
    then show ?thesis
      using hk [OF that] puts_cases [of "L1(?st := H)" ?bl "\<lambda>j. L (?bl j)" ?n k] by (auto simp: L3_def)
  qed
  ultimately show ?thesis using g4 by blast
qed

section \<open>Recovery\<close>

text \<open>What recovery makes of a disk image.\<close>

definition replay :: "log_state \<Rightarrow> (u32 \<Rightarrow> blk) \<Rightarrow> u32 \<Rightarrow> blk" where
  "replay g X = puts X (hdr_block (X (lg_start g))) (\<lambda>j. X (slot g j)) (unat (hdr_n (X (lg_start g))))"

definition image_ok :: "log_state \<Rightarrow> (u32 \<Rightarrow> blk) \<Rightarrow> bool" where
  "image_ok g X \<longleftrightarrow> unat (hdr_n (X (lg_start g))) < unat (lg_size g) \<and>
     (\<forall>i<unat (hdr_n (X (lg_start g))). home g (hdr_block (X (lg_start g)) i))"

lemma read_log_header_ok:
  assumes c: "calm s p" and b: "bcache s X X W (\<lambda>_. 0) Map.empty" and g: "g = lg s" "log_geo g" and d: "d = X (lg_start g)"
  shows "\<exists>t. read_log_header s = Ret () t \<and> bcache t X X W (\<lambda>_. 0) Map.empty \<and> calm t p \<and> sb t = sb s \<and>
    lg t = g\<lparr>lh_n := hdr_n d, lh_blocks := \<lambda>i. if i < unat (hdr_n d) then hdr_block d i else lh_blocks g i\<rparr>"
proof -
  let ?st = "lg_start g"
  note sf = start_facts [OF g(2)]
  have rc: "\<exists>p. calm s p" "0 < (0::nat) \<or> card (used (\<lambda>_::u32. 0)) < N_BUF" using c by (auto simp: used_def N_BUF_30)
  obtain b s1 where 1: "bread ROOT_DEV ?st s = Ret b s1" "blk_step s s1"
    "bcache s1 X X W ((\<lambda>_. 0)(?st := 0 + 1)) (Map.empty(?st \<mapsto> b))"
    using bio.rd_ok [OF rc(1) b sf(1) _ _ rc(2)] by auto
  let ?f = "\<lambda>g. g\<lparr>lh_n := hdr_n d, lh_blocks := \<lambda>i. if i < unat (hdr_n d) then hdr_block d i else lh_blocks g i\<rparr>"
  have dd: "b_data (bufs (bc s1) b) = d" using bcache_heldD(5) [OF 1(3), of ?st b] d by simp
  define s2 where "s2 = s1\<lparr>lg := ?f (lg s1)\<rparr>"
  have 2: "bcache s2 X X W ((\<lambda>_. 0)(?st := 0 + 1)) (Map.empty(?st \<mapsto> b))" "\<exists>p. calm s2 p" "calm s2 p"
    using 1 c by (auto simp: s2_def blk_stepD)
  have e: "((\<lambda>_. 0)(?st := 0 + 1))(?st := ((\<lambda>_. 0)(?st := 0 + 1)) ?st - 1) = ((\<lambda>_. 0) :: u32 \<Rightarrow> nat)"
    "(Map.empty(?st \<mapsto> b))(?st := None) = Map.empty" by auto
  obtain t where t: "brelse b s2 = Ret () t" "blk_step s2 t" "bcache t X X W (\<lambda>_. 0) Map.empty"
    using bio.rel_ok [OF 2(2,1), of ?st b] unfolding e by auto
  have "read_log_header s = Ret () t"
    using 1(1,2) t(1) g by (simp add: read_log_header_def buf_data_def log_geo_def s2_def dd cong: if_cong)
  moreover have "calm t p" "lg t = ?f g" "sb t = sb s"
    using t(2) 1(2) 2(3) g(1) by (simp_all add: blk_stepD blk_step_log s2_def cong: if_cong)
  ultimately show ?thesis using t(3) by blast
qed

lemma recover_ok:
  assumes c: "calm s p" and b: "bcache s X X W (\<lambda>_. 0) Map.empty" and g: "g = lg s" "log_geo g" and i: "image_ok g X"
  shows "\<exists>t L' W'. recover_from_log s = Ret () t \<and> calm t p \<and> sb t = sb s \<and>
    txn t L' L' W' Map.empty \<and> lh_n (lg t) = 0 \<and> lg_start (lg t) = lg_start g \<and> lg_size (lg t) = lg_size g \<and>
    (\<forall>k. home g k \<longrightarrow> L' k = replay g X k)"
proof -
  define d where "d = X (lg_start g)"
  let ?n = "unat (hdr_n d)"
  define h where "h = g\<lparr>lh_n := hdr_n d, lh_blocks := \<lambda>i. if i < ?n then hdr_block d i else lh_blocks g i\<rparr>"
  obtain s1 where 1: "read_log_header s = Ret () s1" "bcache s1 X X W (\<lambda>_. 0) Map.empty" "calm s1 p" "sb s1 = sb s" "lg s1 = h"
    using read_log_header_ok [OF c b g d_def] unfolding h_def by blast
  have hs: "log_geo h" "slot h = slot g" "home h = home g" "lg_start h = lg_start g" "lg_size h = lg_size g" "unat (lh_n h) = ?n"
    "lg_dev h = lg_dev g"
    using g(2) by (simp_all add: h_def)
  have hh: "\<And>i. i < ?n \<Longrightarrow> home h (lh_blocks h i)" "?n < unat (lg_size h)"
    using i by (auto simp: image_ok_def d_def [symmetric] h_def)
  let ?Y = "puts X (lh_blocks h) (\<lambda>j. X (slot g j)) ?n"
  have Y: "?Y = replay g X" unfolding replay_def d_def [symmetric]
    by (rule puts_cong) (simp add: h_def)
  obtain s2 where 2: "install_trans True s1 = Ret () s2" "blk_step s1 s2"
    "bcache s2 (replay g X) (replay g X) (map (puts X (lh_blocks h) (\<lambda>j. X (slot g j))) (rev [0..<?n]) @ W) (\<lambda>_. 0) Map.empty"
    using install_trans_ok [OF 1(3,2) 1(5) [symmetric] hs(1) hs(6) [symmetric] hh(2,1), of False] unfolding hs(2) Y by auto
  define s3 where "s3 = s2\<lparr>lg := h\<lparr>lh_n := 0\<rparr>\<rparr>"
  have 3: "calm s3 p" "bcache s3 (replay g X) (replay g X) (map (puts X (lh_blocks h) (\<lambda>j. X (slot g j))) (rev [0..<?n]) @ W) (\<lambda>_. 0) Map.empty"
    using 2 1(3) by (simp_all add: s3_def blk_stepD)
  let ?Z = "(replay g X)(lg_start g := put_hdr 0 (lh_blocks h) (replay g X (lg_start g)))"
  obtain t W' where 4: "write_log_header s3 = Ret () t" "blk_step s3 t" "bcache t ?Z ?Z W' (\<lambda>_. 0) Map.empty"
    using write_log_header_ok [OF 3, of "h\<lparr>lh_n := 0\<rparr>"] hs by (auto simp: s3_def used_def N_BUF_30)
  have gt: "lg t = h\<lparr>lh_n := 0\<rparr>" using 4(2) by (simp add: blk_step_log s3_def)
  have "recover_from_log s = Ret () t"
    using 1(1,5) 2(1) 4(1) blk_step_log(1) [OF 2(2)] by (simp add: recover_from_log_def s3_def)
  moreover have "calm t p" "sb t = sb s" using 4(2) 3(1) 2(2) 1(4) by (simp_all add: blk_stepD blk_step_log s3_def)
  moreover have "txn t ?Z ?Z W' Map.empty"
    using 4(3) hs hh(2) by (simp add: txn_def gt hdr_ok_def pins_def [abs_def])
  moreover have "\<forall>k. home g k \<longrightarrow> ?Z k = replay g X k"
    using start_facts(2) [OF g(2)] by (auto simp: home_def)
  moreover have "lh_n (lg t) = 0" "lg_start (lg t) = lg_start g" "lg_size (lg t) = lg_size g"
    by (simp_all add: gt hs(4,5))
  ultimately show ?thesis by (intro exI [of _ t] exI [of _ ?Z] exI [of _ W'] conjI)
qed

text \<open>The images of a commit, one block at a time.\<close>

lemma slot_outside:
  assumes "log_geo g" "hdr_ok g" "j < unat (lh_n g)"
  shows "slot g j \<noteq> lg_start g" "\<not> home g (slot g j)" "i < unat (lh_n g) \<Longrightarrow> lh_blocks g i \<noteq> slot g j"
proof -
  have "j + 1 < unat (lg_size g)" using assms by (simp add: hdr_ok_def)
  note sf = slot_facts [OF assms(1) this]
  show "slot g j \<noteq> lg_start g" "\<not> home g (slot g j)" using sf by (auto simp: home_def)
  then show "i < unat (lh_n g) \<Longrightarrow> lh_blocks g i \<noteq> slot g j" using assms(2) by (auto simp: hdr_ok_def)
qed

lemma start_outside:
  assumes "log_geo g" "hdr_ok g"
  shows "\<not> home g (lg_start g)" "i < unat (lh_n g) \<Longrightarrow> lh_blocks g i \<noteq> lg_start g"
  using assms start_facts(2) [OF assms(1)] by (auto simp: home_def hdr_ok_def)

lemma slot_inj:
  assumes "log_geo g" "hdr_ok g"
  shows "inj_on (slot g) {..<unat (lh_n g)}"
proof (rule inj_onI)
  fix i j assume "i \<in> {..<unat (lh_n g)}" "j \<in> {..<unat (lh_n g)}" "slot g i = slot g j"
  then show "i = j" using slot_facts(4) [OF assms(1), of i j] assms(2) by (simp add: hdr_ok_def)
qed

lemma d_logged_at:
  assumes "log_geo g" "hdr_ok g" "i \<le> unat (lh_n g)"
  shows "d_logged g L D i (lg_start g) = D (lg_start g)" "home g k \<Longrightarrow> d_logged g L D i k = D k"
    "j < unat (lh_n g) \<Longrightarrow> d_logged g L D (unat (lh_n g)) (slot g j) = L (lh_blocks g j)"
proof -
  note so = slot_outside [OF assms(1,2)]
  show "d_logged g L D i (lg_start g) = D (lg_start g)"
    unfolding d_logged_def by (rule puts_other) (use so(1) assms(3) in simp)
  show "home g k \<Longrightarrow> d_logged g L D i k = D k"
    unfolding d_logged_def by (rule puts_other) (use so(2) assms(3) in auto)
  show "j < unat (lh_n g) \<Longrightarrow> d_logged g L D (unat (lh_n g)) (slot g j) = L (lh_blocks g j)"
    unfolding d_logged_def by (rule puts_same [OF slot_inj [OF assms(1,2)]])
qed

lemma d_installed_at:
  assumes "log_geo g" "hdr_ok g" "i \<le> unat (lh_n g)"
  shows "d_installed g L D i (lg_start g) = put_hdr (lh_n g) (lh_blocks g) (D (lg_start g))"
    "j < unat (lh_n g) \<Longrightarrow> d_installed g L D i (slot g j) = L (lh_blocks g j)"
    "home g k \<Longrightarrow> \<forall>j<unat (lh_n g). k \<noteq> lh_blocks g j \<Longrightarrow> d_installed g L D i k = D k"
    "j < unat (lh_n g) \<Longrightarrow> d_installed g L D (unat (lh_n g)) (lh_blocks g j) = L (lh_blocks g j)"
proof -
  let ?H = "put_hdr (lh_n g) (lh_blocks g) (D (lg_start g))"
  let ?X = "(d_logged g L D (unat (lh_n g)))(lg_start g := ?H)"
  note so = slot_outside [OF assms(1,2)] and st = start_outside [OF assms(1,2)]
  show "d_installed g L D i (lg_start g) = ?H"
    unfolding d_installed_def by (subst puts_other) (use st(2) assms(3) in auto)
  show "d_installed g L D i (slot g j) = L (lh_blocks g j)" if "j < unat (lh_n g)"
    unfolding d_installed_def
    by (subst puts_other) (use so(1,3) [OF that] d_logged_at(3) [OF assms that] assms(3) in auto)
  show "d_installed g L D i k = D k" if k: "home g k" "\<forall>j<unat (lh_n g). k \<noteq> lh_blocks g j"
  proof -
    have "lh_blocks g j \<noteq> k" if "j < i" for j using k(2) less_le_trans [OF that assms(3)] by blast
    then have "d_installed g L D i k = ?X k" unfolding d_installed_def by (rule puts_other)
    then show ?thesis using k(1) st(1) d_logged_at(2) [OF assms(1,2) order_refl k(1)] by auto
  qed
  show "d_installed g L D (unat (lh_n g)) (lh_blocks g j) = L (lh_blocks g j)" if "j < unat (lh_n g)"
    unfolding d_installed_def by (rule puts_same) (use that assms(2) in \<open>simp_all add: hdr_ok_def\<close>)
qed

definition clean_but :: "log_state \<Rightarrow> (u32 \<Rightarrow> blk) \<Rightarrow> (u32 \<Rightarrow> blk) \<Rightarrow> bool" where
  "clean_but g L D \<longleftrightarrow> (\<forall>k. bno_ok k \<and> pins g k = 0 \<longrightarrow> L k = D k)"

lemma unlogged_clean:
  assumes "clean_but g L D" "home g k" "\<not> (\<exists>j<unat (lh_n g). k = lh_blocks g j)"
  shows "L k = D k"
  using assms by (auto simp: clean_but_def pins_def home_def)

lemma replay_installed:
  assumes "log_geo g" "hdr_ok g" "i \<le> unat (lh_n g)"
    and cl: "clean_but g L D" and k: "home g k"
  shows "replay g (d_installed g L D i) k = L k"
proof -
  note I = d_installed_at [OF assms(1-3), where L = L and D = D]
  have r: "replay g (d_installed g L D i) =
      puts (d_installed g L D i) (lh_blocks g) (\<lambda>j. L (lh_blocks g j)) (unat (lh_n g))"
    unfolding replay_def I(1) get_put_hdr(1) by (rule puts_cong) (simp add: I(2))
  show ?thesis
  proof (cases "\<exists>j<unat (lh_n g). k = lh_blocks g j")
    case True
    then show ?thesis unfolding r using puts_same [of "lh_blocks g" "unat (lh_n g)"] assms(2) by (auto simp: hdr_ok_def)
  next
    case False
    then have "d_installed g L D i k = L k" using I(3) [OF k] unlogged_clean [OF cl k False] by simp
    then show ?thesis unfolding r using False by (subst puts_other) auto
  qed
qed

lemma d_done_at:
  assumes "log_geo g" "hdr_ok g"
    and cl: "clean_but g L D" and k: "home g k"
  shows "d_done g L D k = L k"
proof -
  note I = d_installed_at [OF assms(1,2) order_refl, where L = L and D = D]
  have "d_installed g L D (unat (lh_n g)) k = L k"
  proof (cases "\<exists>j<unat (lh_n g). k = lh_blocks g j")
    case False
    then show ?thesis using I(3) [OF k] unlogged_clean [OF cl k False] by simp
  qed (use I(4) in auto)
  then show ?thesis using k start_outside(1) [OF assms(1,2)] by (auto simp: d_done_def)
qed

text \<open>Every image a commit leaves on the way replays to the old or the new contents.\<close>

lemma commit_images_recover:
  assumes geo: "log_geo g" and hdr: "hdr_ok g" and h0: "hdr_n (D (lg_start g)) = 0"
    and cl: "clean_but g L D"
    and X: "X \<in> set (d_done g L D # commit_images g L D)"
  shows "image_ok g X \<and> ((\<forall>k. home g k \<longrightarrow> replay g X k = D k) \<or> (\<forall>k. home g k \<longrightarrow> replay g X k = L k))"
proof -
  have hh: "unat (lh_n g) < unat (lg_size g)" "\<And>i. i < unat (lh_n g) \<Longrightarrow> home g (lh_blocks g i)"
    using hdr by (auto simp: hdr_ok_def)
  have "X = d_done g L D \<or> (\<exists>i\<le>unat (lh_n g). X = d_installed g L D i) \<or> (\<exists>i\<le>unat (lh_n g). X = d_logged g L D i)"
    using X by (auto simp: commit_images_def less_Suc_eq_le simp del: upt_Suc)
  then consider "X = d_done g L D" | i where "i \<le> unat (lh_n g)" "X = d_installed g L D i"
    | i where "i \<le> unat (lh_n g)" "X = d_logged g L D i"
    by blast
  then show ?thesis
  proof cases
    case 1
    have "hdr_n (X (lg_start g)) = 0" using 1 by (simp add: d_done_def)
    then show ?thesis using 1 hh(1) d_done_at [OF geo hdr cl] by (simp add: image_ok_def replay_def)
  next
    case (2 i)
    have "image_ok g X" using hh d_installed_at(1) [OF geo hdr 2(1)] by (simp add: image_ok_def 2(2))
    then show ?thesis using replay_installed [OF geo hdr 2(1) cl] 2(2) by blast
  next
    case (3 i)
    then show ?thesis using d_logged_at(1,2) [OF geo hdr 3(1)] h0 hh(1) by (simp add: image_ok_def replay_def)
  qed
qed

section \<open>Operations inside a transaction\<close>

lemma card_refs:
  assumes "finite (dom H)"
  shows "finite (used (refs g H))" "card (used (refs g H)) \<le> unat (lh_n g) + card (dom H)"
proof -
  have u: "used (refs g H) = used (pins g) \<union> dom H" by (auto simp: used_def refs_def)
  show "finite (used (refs g H))" unfolding u using assms card_pins(1) by simp
  show "card (used (refs g H)) \<le> unat (lh_n g) + card (dom H)"
    unfolding u using card_Un_le [of "used (pins g)" "dom H"] card_pins(2) [of g] by simp
qed

lemma refs_less: "refs g H n < 2 ^ 31"
  by (simp add: refs_def pins_def)

lemma txnD:
  assumes "txn s L D W H"
  shows "log_geo (lg s)" "hdr_ok (lg s)" "bcache s L D W (refs (lg s) H) H" "hdr_n (D (lg_start (lg s))) = 0"
  using assms by (auto simp: txn_def)

lemma txn_held:
  assumes "txn s L D W H" "H n = Some b"
  shows "b_data (bufs (bc s) b) = L n" "b_bno (bufs (bc s) b) = n"
  using bcache_heldD(3,5) [OF txnD(3) [OF assms(1)] assms(2)] by auto

lemma txn_read:
  assumes c: "calm s p" and t: "txn s L D W H" and n: "bno_ok n" "H n = None"
    and r: "finite (dom H)" "unat (lh_n (lg s)) + card (dom H) < N_BUF"
  shows "\<exists>b t. bread ROOT_DEV n s = Ret b t \<and> blk_step s t \<and> txn t L D W (H(n \<mapsto> b))"
proof -
  have k: "card (used (refs (lg s) H)) < N_BUF" using card_refs(2) [OF r(1), of "lg s"] r(2) by simp
  have e: "(refs g H)(n := refs g H n + 1) = refs g (H(n \<mapsto> b))" for g b
    using n(2) by (auto simp: refs_def fun_eq_iff)
  obtain b t where b: "bread ROOT_DEV n s = Ret b t" "blk_step s t"
    "bcache t L D W ((refs (lg s) H)(n := refs (lg s) H n + 1)) (H(n \<mapsto> b))"
    using bread_ok [OF c txnD(3) [OF t] n refs_less] k by blast
  have "txn t L D W (H(n \<mapsto> b))" using t b(3) [unfolded e [where b = b]] by (simp add: txn_def blk_step_log [OF b(2)])
  then show ?thesis using b(1,2) by blast
qed

lemma txn_set:
  assumes t: "txn s L D W H" and h: "H n = Some b"
  shows "\<exists>t. set_data b f s = Ret () t \<and> blk_step s t \<and> txn t (L(n := f (L n))) D W H"
proof -
  obtain u where u: "set_data b f s = Ret () u" "blk_step s u" "bcache u (L(n := f (L n))) D W (refs (lg s) H) H"
    using upd_data_ok [OF txnD(3) [OF t] h, of f] unfolding set_data_def by blast
  have "txn u (L(n := f (L n))) D W H" using t u(3) by (simp add: txn_def blk_step_log [OF u(2)])
  then show ?thesis using u(1,2) by blast
qed

lemma txn_release:
  assumes c: "calm s p" and t: "txn s L D W H" and h: "H n = Some b" and d: "pins (lg s) n = 0 \<longrightarrow> L n = D n"
  shows "\<exists>t. brelse b s = Ret () t \<and> blk_step s t \<and> txn t L D W (H(n := None))"
proof -
  have e: "(refs g H)(n := refs g H n - 1) = refs g (H(n := None))" for g
    using h by (auto simp: refs_def fun_eq_iff)
  have "refs (lg s) H n = 1 \<longrightarrow> L n = D n" using d h by (simp add: refs_def)
  then obtain u where u: "brelse b s = Ret () u" "blk_step s u" "bcache u L D W (refs (lg s) (H(n := None))) (H(n := None))"
    using brelse_ok [OF c txnD(3) [OF t] h] unfolding e by blast
  have "txn u L D W (H(n := None))" using t u(3) by (simp add: txn_def blk_step_log [OF u(2)])
  then show ?thesis using u(1,2) by blast
qed

text \<open>What \<^verbatim>\<open>log_write\<close> does to the header: the block is logged once.\<close>

definition log_add :: "u32 \<Rightarrow> log_state \<Rightarrow> log_state" where
  "log_add n g = (if pins g n = 1 then g
     else g\<lparr>lh_blocks := (lh_blocks g)(unat (lh_n g) := n), lh_n := lh_n g + 1\<rparr>)"

lemma pins_01: "pins g n = 0 \<or> pins g n = 1"
  by (simp add: pins_def)

lemma log_add_fields [simp]:
  "lg_start (log_add n g) = lg_start g" "lg_size (log_add n g) = lg_size g" "lg_dev (log_add n g) = lg_dev g"
  "lg_outstanding (log_add n g) = lg_outstanding g" "lg_committing (log_add n g) = lg_committing g"
  "log_geo (log_add n g) = log_geo g" "home (log_add n g) = home g"
  by (simp_all add: log_add_def)

lemma log_add_ok:
  assumes "log_geo g" "hdr_ok g" "home g n" "unat (lh_n g) + 1 < unat (lg_size g)"
  shows "hdr_ok (log_add n g)" "pins (log_add n g) = (pins g)(n := 1)"
    "unat (lh_n (log_add n g)) \<le> unat (lh_n g) + 1"
proof -
  have u: "unat (lh_n g + 1) = unat (lh_n g) + 1"
    using assms(1,4) by (simp add: unat_word_ariths log_geo_def LOG_SIZE_def)
  show "unat (lh_n (log_add n g)) \<le> unat (lh_n g) + 1" using u by (simp add: log_add_def)
  show "hdr_ok (log_add n g)"
    using assms u by (auto simp: log_add_def hdr_ok_def inj_on_def less_Suc_eq pins_def)
  show "pins (log_add n g) = (pins g)(n := 1)"
  proof (cases "pins g n = 1")
    case True
    then show ?thesis by (auto simp: log_add_def fun_eq_iff)
  next
    case False
    have "pins (log_add n g) k = (if k = n then 1 else pins g k)" for k
      using False u by (auto simp: log_add_def pins_def less_Suc_eq)
    then show ?thesis by auto
  qed
qed

text \<open>What the operations of a transaction may change: the cache, its locks and the list of logged blocks.\<close>

definition same_log :: "log_state \<Rightarrow> log_state \<Rightarrow> bool" where
  "same_log g h \<longleftrightarrow> lg_start h = lg_start g \<and> lg_size h = lg_size g \<and> lg_dev h = lg_dev g \<and>
     lg_outstanding h = lg_outstanding g \<and> lg_committing h = lg_committing g"

definition log_step :: "'z klog_scheme \<Rightarrow> 'z klog_scheme \<Rightarrow> bool" where
  "log_step s t \<longleftrightarrow> (\<exists>sl k g. t = s\<lparr>sleeps := sl, bc := k, lg := g\<rparr> \<and>
     (\<forall>i. sl (SL_inode i) = sleeps s (SL_inode i)) \<and> same_log (lg s) g)"

lemma same_log_refl [simp]: "same_log g g"
  by (simp add: same_log_def)

lemma log_step_blk: "blk_step s t \<Longrightarrow> log_step s t"
proof -
  assume "blk_step s t"
  then obtain sl k where t: "t = s\<lparr>sleeps := sl, bc := k\<rparr>" "\<forall>i. sl (SL_inode i) = sleeps s (SL_inode i)"
    unfolding blk_step_def by blast
  have "t = s\<lparr>sleeps := sl, bc := k, lg := lg s\<rparr>" unfolding t(1) by (cases s) simp
  then show ?thesis
    unfolding log_step_def using t(2) by (intro exI [of _ sl] exI [of _ k] exI [of _ "lg s"]) simp
qed

lemma log_step_refl [simp, intro]: "log_step s s"
  by (simp add: log_step_blk)

lemma log_step_trans [trans]:
  assumes "log_step s t" "log_step t u"
  shows "log_step s u"
proof -
  obtain sl k g where t: "t = s\<lparr>sleeps := sl, bc := k, lg := g\<rparr>" "\<forall>i. sl (SL_inode i) = sleeps s (SL_inode i)" "same_log (lg s) g"
    using assms(1) unfolding log_step_def by blast
  obtain sl' k' g' where u: "u = t\<lparr>sleeps := sl', bc := k', lg := g'\<rparr>" "\<forall>i. sl' (SL_inode i) = sleeps t (SL_inode i)" "same_log (lg t) g'"
    using assms(2) unfolding log_step_def by blast
  have "u = s\<lparr>sleeps := sl', bc := k', lg := g'\<rparr>" "\<forall>i. sl' (SL_inode i) = sleeps s (SL_inode i)" "same_log (lg s) g'"
    using t u by (simp_all add: same_log_def)
  then show ?thesis unfolding log_step_def by blast
qed

lemma log_stepD:
  assumes "log_step s t"
  shows "calm t p = calm s p" "procs t = procs s" "cur_proc t = cur_proc s" "mem t = mem s" "sb t = sb s"
    "sleeps t (SL_inode i) = sleeps s (SL_inode i)" "klog.more t = klog.more s" "same_log (lg s) (lg t)"
    "free_head t = free_head s"
  using assms by (auto simp: log_step_def)

lemma same_logD:
  assumes "same_log g h"
  shows "lg_size h = lg_size g" "lg_start h = lg_start g" "lg_outstanding h = lg_outstanding g" "home h = home g"
    "log_geo h = log_geo g"
  using assms by (auto simp: same_log_def home_def in_log_def log_geo_def fun_eq_iff)

lemma size_minus_one:
  assumes "log_geo g"
  shows "lg_size g - 1 \<le> lh_n g \<longleftrightarrow> unat (lg_size g) \<le> unat (lh_n g) + 1"
proof -
  have "lg_size g \<noteq> 0" using assms by (auto simp: log_geo_def)
  then have "unat (lg_size g - 1) = unat (lg_size g) - 1" by (rule unat_minus_one)
  moreover have "1 < unat (lg_size g)" using assms by (simp add: log_geo_def)
  ultimately show ?thesis by (simp add: word_le_nat_alt) linarith
qed

lemma log_write_ok:
  assumes c: "calm s p" and t: "txn s L D W H" and h: "H n = Some b" and g: "g = lg s" "home g n"
    and r: "unat (lh_n g) + 1 < unat (lg_size g)" "0 < lg_outstanding g"
  shows "\<exists>t. log_write b s = Ret () t \<and> log_step s t \<and> txn t L D W H \<and> lg t = log_add n g"
proof -
  note td = txnD [OF t, folded g(1)]
  note la = log_add_ok [OF td(1,2) g(2) r(1)]
  have nb: "b_bno (bufs (bc s) b) = n" by (rule txn_held(2) [OF t h])
  have ng: "\<not> lg_size g - 1 \<le> lh_n g" using size_minus_one [OF td(1)] r(1) by simp
  have av: "avail s L_log" using calmD(1) [OF c] by auto
  let ?P = "\<lambda>i. lh_blocks g i = n"
  have rf: "refs (log_add n g) H = (refs g H)(n := (if pins g n = 1 then refs g H n else refs g H n + 1))"
    using la(2) pins_01 [of g n] by (auto simp: refs_def fun_eq_iff)
  show ?thesis
  proof (cases "pins g n = 1")
    case True
    then obtain i where i: "find ?P [0..<unat (lh_n g)] = Some i"
      unfolding pins_def using find_upt_NoneD [of ?P "unat (lh_n g)"]
      by (cases "find ?P [0..<unat (lh_n g)]") (auto split: if_splits)
    note fi = find_upt_SomeD [OF i]
    have e: "g\<lparr>lh_blocks := (lh_blocks g)(i := n)\<rparr> = g" using fi by (cases g) auto
    have s: "s\<lparr>lg := g\<rparr> = s" using g(1) by (cases s) simp
    have "log_write b s = Ret () s"
      unfolding log_write_def using av ng r(2) fi by (simp add: g(1) [symmetric] nb i Let_def e s)
    then show ?thesis using c t g(1) True by (simp add: log_add_def)
  next
    case False
    then have i: "find ?P [0..<unat (lh_n g)] = None" by (auto simp: find_None_iff pins_def split: if_splits)
    note hd = bcache_heldD [OF td(3) h]
    let ?r = "b_refcnt (bufs (bc s) b)"
    define t where "t = s\<lparr>bc := pinned b (?r + 1) (bc s), lg := log_add n g\<rparr>"
    have nr: "\<not> ?r < 1" using hd(6,7) by (simp add: word_less_nat_alt)
    have av2: "avail s L_bcache" using calmD(1) [OF c] by auto
    have "log_write b s = Ret () t"
      unfolding log_write_def using av av2 ng r(2) nr False
      by (simp add: g(1) [symmetric] nb i Let_def bpin_eq t_def log_add_def)
    moreover have "unat (?r + 1) = refs g H n + 1" using hd(6) refs_less [of g H n] by (simp add: unat_incr)
    then have "bcache t L D W ((refs g H)(n := refs g H n + 1)) H"
      using pin_upd_ok [OF td(3) h _ refl, of "?r + 1"] by (simp add: t_def pinned_def)
    then have "txn t L D W H" using td la(1) rf False by (simp add: txn_def t_def)
    moreover have "t = s\<lparr>sleeps := sleeps s, bc := pinned b (?r + 1) (bc s), lg := log_add n g\<rparr>"
      unfolding t_def by (cases s) simp
    then have "log_step s t" unfolding log_step_def using g(1)
      by (intro exI [of _ "sleeps s"] exI [of _ "pinned b (?r + 1) (bc s)"] exI [of _ "log_add n g"]) (simp add: same_log_def)
    ultimately show ?thesis by (intro exI [of _ t]) (simp add: t_def)
  qed
qed

text \<open>Read a block, change it, log it, release it: the step every change to the file system is made of.\<close>

lemma log_session:
  assumes c: "calm s p" and t: "txn s L D W H" and n: "home (lg s) n" "H n = None"
    and r: "finite (dom H)" "unat (lh_n (lg s)) + card (dom H) < N_BUF"
      "unat (lh_n (lg s)) + 1 < unat (lg_size (lg s))" "0 < lg_outstanding (lg s)"
  shows "\<exists>t. bindK (bread ROOT_DEV n) (\<lambda>b. thenK (set_data b f) (thenK (log_write b) (brelse b))) s = Ret () t \<and>
    log_step s t \<and> txn t (L(n := f (L n))) D W H \<and> lg t = log_add n (lg s)"
proof -
  have bo: "bno_ok n" using n(1) by (simp add: home_def)
  obtain b s1 where 1: "bread ROOT_DEV n s = Ret b s1" "blk_step s s1" "txn s1 L D W (H(n \<mapsto> b))"
    using txn_read [OF c t bo n(2) r(1,2)] by blast
  have h: "(H(n \<mapsto> b)) n = Some b" by simp
  obtain s2 where 2: "set_data b f s1 = Ret () s2" "blk_step s1 s2" "txn s2 (L(n := f (L n))) D W (H(n \<mapsto> b))"
    using txn_set [OF 1(3) h] by blast
  have g2: "lg s = lg s2" using 1(2) 2(2) by (simp add: blk_step_log)
  have c2: "calm s2 p" using c 1(2) 2(2) by (simp add: blk_stepD)
  obtain s3 where 3: "log_write b s2 = Ret () s3" "log_step s2 s3" "txn s3 (L(n := f (L n))) D W (H(n \<mapsto> b))"
    "lg s3 = log_add n (lg s)"
    using log_write_ok [OF c2 2(3) h g2 n(1) r(3,4)] by blast
  have c3: "calm s3 p" using c2 3(2) by (simp add: log_stepD)
  have pn: "pins (lg s3) n = 1" using log_add_ok(2) [OF txnD(1,2) [OF t] n(1) r(3)] 3(4) by simp
  have e: "(H(n \<mapsto> b))(n := None) = H" using n(2) by auto
  obtain s4 where 4: "brelse b s3 = Ret () s4" "blk_step s3 s4" "txn s4 (L(n := f (L n))) D W H"
    using txn_release [OF c3 3(3) h] pn unfolding e by auto
  have "log_step s s4"
    using log_step_blk [OF 1(2)] log_step_blk [OF 2(2)] 3(2) log_step_blk [OF 4(2)] by (meson log_step_trans)
  moreover have "lg s4 = log_add n (lg s)" using 3(4) blk_step_log(1) [OF 4(2)] by simp
  ultimately show ?thesis using 1(1) 2(1) 3(1) 4 by auto
qed

text \<open>Read a block and release it, inside a transaction.\<close>

lemma txn_session:
  assumes c: "calm s p" and t: "txn s L D W H" and n: "bno_ok n" "H n = None"
    and r: "finite (dom H)" "unat (lh_n (lg s)) + card (dom H) < N_BUF"
  shows "\<exists>t. (\<forall>(g :: blk \<Rightarrow> ('z klog_scheme, 'a) kernel).
      bindK (bread ROOT_DEV n) (\<lambda>b. bindK (buf_data b) (\<lambda>d. thenK (brelse b) (g d))) s = g (L n) t) \<and>
    blk_step s t \<and> txn t L D W H"
proof -
  obtain b s1 where 1: "bread ROOT_DEV n s = Ret b s1" "blk_step s s1" "txn s1 L D W (H(n \<mapsto> b))"
    using txn_read [OF c t n r] by blast
  have h: "(H(n \<mapsto> b)) n = Some b" by simp
  have c1: "calm s1 p" using c 1(2) by (simp add: blk_stepD)
  have cl: "pins (lg s1) n = 0 \<longrightarrow> L n = D n"
    using bcacheD(7) [OF txnD(3) [OF t] n(1)] n(2) blk_step_log(1) [OF 1(2)] by (simp add: refs_def)
  have e: "(H(n \<mapsto> b))(n := None) = H" using n(2) by auto
  obtain s2 where 2: "brelse b s1 = Ret () s2" "blk_step s1 s2" "txn s2 L D W H"
    using txn_release [OF c1 1(3) h cl] unfolding e by blast
  have "b_data (bufs (bc s1) b) = L n" by (rule txn_held(1) [OF 1(3) h])
  then show ?thesis using 1(1) 2 blk_step_trans [OF 1(2) 2(2)] by (intro exI [of _ s2]) (simp add: buf_data_def)
qed

text \<open>The counters around an operation.\<close>

lemma commit_ok_images:
  assumes c: "calm s p" and t: "txn s L D W Map.empty" and g: "g = lg s" "0 < lh_n g"
  shows "\<exists>t L' D' I. commit s = Ret () t \<and> calm t p \<and> txn t L' D' (I @ W) Map.empty \<and>
    lg t = g\<lparr>lh_n := 0\<rparr> \<and> sb t = sb s \<and> procs t = procs s \<and> (\<forall>k. home g k \<longrightarrow> L' k = L k) \<and>
    (\<forall>X\<in>set (D' # I). image_ok g X \<and> ((\<forall>k. home g k \<longrightarrow> replay g X k = D k) \<or> (\<forall>k. home g k \<longrightarrow> replay g X k = L k)))"
proof -
  note td = txnD [OF t, folded g(1)]
  have cl: "clean_but g L D" using bcacheD(7) [OF td(3)] by (auto simp: clean_but_def)
  obtain t L' where "commit s = Ret () t" "calm t p" "lg t = g\<lparr>lh_n := 0\<rparr>" "sb t = sb s" "procs t = procs s"
    "txn t L' (d_done g L D) (commit_images g L D @ W) Map.empty" "\<forall>k. home g k \<longrightarrow> L' k = L k"
    using commit_ok [OF c t g] by blast
  then show ?thesis using commit_images_recover [OF td(1,2,4) cl]
    by (intro exI [of _ t] exI [of _ L'] exI [of _ "d_done g L D"] exI [of _ "commit_images g L D"]) simp
qed

lemma counters_frame [simp]:
  "hdr_ok (lg_outstanding_update fo g) = hdr_ok g" "hdr_ok (lg_committing_update fc g) = hdr_ok g"
  "pins (lg_outstanding_update fo g) = pins g" "pins (lg_committing_update fc g) = pins g"
  "image_ok (lg_outstanding_update fo g) = image_ok g" "image_ok (lg_committing_update fc g) = image_ok g"
  "replay (lg_outstanding_update fo g) = replay g" "replay (lg_committing_update fc g) = replay g"
  "refs (lg_outstanding_update fo g) = refs g" "refs (lg_committing_update fc g) = refs g"
  by (simp_all add: hdr_ok_def pins_def image_ok_def replay_def slot_def refs_def fun_eq_iff)

lemma end_op_ok:
  assumes c: "calm s p" and t: "txn s L D W Map.empty" and g: "g = lg s" "lg_outstanding g = 1" "\<not> lg_committing g"
  shows "\<exists>t L' D' I. end_op s = Ret () t \<and> calm t p \<and> txn t L' D' (I @ W) Map.empty \<and>
    lg t = g\<lparr>lh_n := 0, lg_outstanding := 0\<rparr> \<and> sb t = sb s \<and> procs t = procs s \<and>
    (\<forall>k. home g k \<longrightarrow> L' k = L k) \<and>
    (\<forall>X\<in>set (D' # I). image_ok g X \<and> ((\<forall>k. home g k \<longrightarrow> replay g X k = D k) \<or> (\<forall>k. home g k \<longrightarrow> replay g X k = L k)))"
proof -
  note cd = calmD [OF c]
  define g1 where "g1 = g\<lparr>lg_outstanding := 0, lg_committing := True\<rparr>"
  define s1 where "s1 = s\<lparr>lg := g1\<rparr>"
  have c1: "calm s1 p" and t1: "txn s1 L D W Map.empty" and l1: "g1 = lg s1"
    using c t g by (simp_all add: s1_def g1_def txn_def)
  note td = txnD [OF t1, folded l1, simplified]
  have fr: "home g1 = home g" "image_ok g1 = image_ok g" "replay g1 = replay g" by (simp_all add: g1_def)
  have "\<exists>t L' D' I. commit s1 = Ret () t \<and> calm t p \<and> txn t L' D' (I @ W) Map.empty \<and>
    lg t = g1\<lparr>lh_n := 0\<rparr> \<and> sb t = sb s \<and> procs t = procs s \<and> (\<forall>k. home g1 k \<longrightarrow> L' k = L k) \<and>
    (\<forall>X\<in>set (D' # I). image_ok g1 X \<and> ((\<forall>k. home g1 k \<longrightarrow> replay g1 X k = D k) \<or> (\<forall>k. home g1 k \<longrightarrow> replay g1 X k = L k)))"
  proof (cases "lh_n g1 = 0")
    case True
    have "g1\<lparr>lh_n := 0\<rparr> = g1" using True by (cases g1) simp
    moreover have cm: "commit s1 = Ret () s1" "lg s1 = g1" "sb s1 = sb s" "procs s1 = procs s"
      using True by (simp_all add: commit_def s1_def)
    moreover have "image_ok g1 D" "replay g1 D = D" using td(4) td(2) by (auto simp: image_ok_def replay_def hdr_ok_def)
    ultimately show ?thesis
      using True c1 t1 cm by (intro exI [of _ s1] exI [of _ L] exI [of _ D] exI [of _ "[]"]) simp
  next
    case False
    then have "0 < lh_n g1" by (simp add: word_gt_0)
    then show ?thesis
      using commit_ok_images [OF c1 t1 l1] by (simp add: s1_def)
  qed
  then obtain u L' D' I where u: "commit s1 = Ret () u" "calm u p" "txn u L' D' (I @ W) Map.empty"
    "lg u = g1\<lparr>lh_n := 0\<rparr>" "sb u = sb s" "procs u = procs s" "\<forall>k. home g k \<longrightarrow> L' k = L k"
    "\<forall>X\<in>set (D' # I). image_ok g X \<and> ((\<forall>k. home g k \<longrightarrow> replay g X k = D k) \<or> (\<forall>k. home g k \<longrightarrow> replay g X k = L k))"
    unfolding fr by (elim exE conjE) blast
  define v where "v = u\<lparr>lg := g\<lparr>lh_n := 0, lg_outstanding := 0\<rparr>\<rparr>"
  have gv: "(g1\<lparr>lh_n := 0\<rparr>)\<lparr>lg_committing := False\<rparr> = g\<lparr>lh_n := 0, lg_outstanding := 0\<rparr>"
    using g(3) by (cases g) (simp add: g1_def)
  have wk: "woken (Some p) Ch_log (procs u) = procs u" by (rule woken_id) (use calmD(8) [OF u(2)] in simp)
  have "end_op s = Ret () v"
    unfolding end_op_def using cd(1,4) calmD(1,4) [OF u(2)] g u(1) [unfolded s1_def g1_def]
    by (simp add: Let_def v_def gv u(4) wk)
  moreover have "txn v L' D' (I @ W) Map.empty"
    using u(3,4) by (simp add: txn_def v_def g1_def hdr_ok_def pins_none)
  ultimately show ?thesis using u by (intro exI [of _ v] exI [of _ L'] exI [of _ D'] exI [of _ I]) (simp add: v_def)
qed

lemma room_word:
  assumes "unat (n :: u32) \<le> LOG_SIZE" "0 \<le> k" "k < 2 ^ 20"
  shows "of_nat LOG_SIZE < n + of_int ((k + 1) * int MAX_OP_BLKS) \<longleftrightarrow> int LOG_SIZE < int (unat n) + (k + 1) * int MAX_OP_BLKS"
proof -
  have e: "n + of_int ((k + 1) * int MAX_OP_BLKS) = (of_nat (unat n + nat ((k + 1) * int MAX_OP_BLKS)) :: u32)"
    using assms(2) by (simp add: MAX_OP_BLKS_def)
  have "unat n + nat ((k + 1) * int MAX_OP_BLKS) < 2 ^ 32" using assms by (simp add: MAX_OP_BLKS_def LOG_SIZE_def)
  then have "unat (of_nat (unat n + nat ((k + 1) * int MAX_OP_BLKS)) :: u32) = unat n + nat ((k + 1) * int MAX_OP_BLKS)"
    by (simp only: unat_of_nat take_bit_nat_eq_self_iff) simp
  moreover have "unat (of_nat LOG_SIZE :: u32) = LOG_SIZE" by (simp add: LOG_SIZE_def)
  ultimately have "of_nat LOG_SIZE < n + of_int ((k + 1) * int MAX_OP_BLKS) \<longleftrightarrow> int LOG_SIZE < int (unat n + nat ((k + 1) * int MAX_OP_BLKS))"
    unfolding e word_less_nat_alt by (simp only: of_nat_less_iff)
  also have "int (unat n + nat ((k + 1) * int MAX_OP_BLKS)) = int (unat n) + (k + 1) * int MAX_OP_BLKS"
    using assms(2) by (simp only: of_nat_add) (simp add: MAX_OP_BLKS_def)
  finally show ?thesis .
qed

lemma begin_op_ok:
  assumes c: "calm s p" and n: "unat (lh_n (lg s)) \<le> LOG_SIZE" "0 \<le> lg_outstanding (lg s)" "lg_outstanding (lg s) < 2 ^ 20"
  shows "begin_op s =
    (if \<not> lg_committing (lg s) \<and> int (unat (lh_n (lg s))) + (lg_outstanding (lg s) + 1) * int MAX_OP_BLKS \<le> int LOG_SIZE
     then Ret () (s\<lparr>lg := (lg s)\<lparr>lg_outstanding := lg_outstanding (lg s) + 1\<rparr>\<rparr>)
     else Switch ((grab (L_proc p) s)
       \<lparr>procs := (procs s)(p := (procs s p)\<lparr>p_chan := Some Ch_log, p_state := PROC_SLEEPING\<rparr>)\<rparr>))"
  using calmD(1) [OF c] sleep_on_calm [OF c, of L_log Ch_log] room_word [OF n]
  by (simp add: begin_op_def not_le cong: if_cong)

text \<open>Two states of the log over the same area of the disk.\<close>

definition same_area :: "log_state \<Rightarrow> log_state \<Rightarrow> bool" where
  "same_area g h \<longleftrightarrow> lg_start h = lg_start g \<and> lg_size h = lg_size g \<and> lg_dev h = lg_dev g"

lemma same_areaD:
  assumes "same_area g h"
  shows "home h = home g" "log_geo h = log_geo g" "image_ok h = image_ok g" "replay h = replay g"
  using assms by (auto simp: same_area_def home_def in_log_def log_geo_def image_ok_def replay_def slot_def fun_eq_iff)

definition log_ready :: klog where
  "log_ready = kblk.extend (zero_state\<lparr>bc := (bc zero_state)\<lparr>platter := \<lambda>_ _. 0\<rparr>\<rparr>)
     (klog.fields
       \<lparr>lg_start = 2, lg_size = 30, lg_outstanding = 0, lg_committing = False, lg_dev = ROOT_DEV, lh_n = 0, lh_blocks = \<lambda>_. 0\<rparr>
       (get_super_block (\<lambda>_. 0)))"

lemmas start_defs = log_ready_def zero_state_def blk_state_def one_proc_def boot_state_def quiet_def lock_free_def hart_defs
  calm_def no_sleeper_def cur_proc_def N_PROC_def Let_def vd_idle_def idle_disk_def cold_cache_def
  kbase.defs kmem.defs kblk.defs klog.defs

text \<open>
  An empty disk with an empty log, before \<^verbatim>\<open>binit\<close>; every state that extends \<open>log_ready\<close> by the
  variables of a layer above is one.
\<close>

definition fresh_disk :: "'z klog_scheme \<Rightarrow> bool" where
  "fresh_disk s \<longleftrightarrow> calm s 0 \<and> vd_idle (vd (bc s)) \<and> past (bc s) = [] \<and> platter (bc s) = (\<lambda>_ _. 0) \<and> lg s = lg log_ready \<and>
     (\<forall>i<N_BUF. b_dev (bufs (bc s) i) = 0 \<and> \<not> b_disk (bufs (bc s) i))"

lemma log_ready_lg: "lg log_ready =
    \<lparr>lg_start = 2, lg_size = 30, lg_outstanding = 0, lg_committing = False, lg_dev = ROOT_DEV, lh_n = 0, lh_blocks = \<lambda>_. 0\<rparr>"
  by (simp add: start_defs)

lemma fresh_disk_ok:
  assumes "fresh_disk s"
  shows "\<exists>t. binit s = Ret () t \<and> calm t 0 \<and> txn t (\<lambda>_ _. 0) (\<lambda>_ _. 0) [] Map.empty \<and> lg t = lg log_ready \<and> lock_init_step s t"
proof -
  have f: "calm s 0" "vd_idle (vd (bc s))" "past (bc s) = []" "platter (bc s) = (\<lambda>_ _. 0)"
    "lg s = \<lparr>lg_start = 2, lg_size = 30, lg_outstanding = 0, lg_committing = False, lg_dev = ROOT_DEV, lh_n = 0, lh_blocks = \<lambda>_. 0\<rparr>"
    "\<And>i. i < N_BUF \<Longrightarrow> b_dev (bufs (bc s) i) = 0 \<and> \<not> b_disk (bufs (bc s) i)"
    using assms by (simp_all add: fresh_disk_def log_ready_lg)
  obtain t where t: "binit s = Ret () t" "lock_init_step s t"
    "bcache t (\<lambda>n. platter (bc s) (sector_of n)) (\<lambda>n. platter (bc s) (sector_of n))
      (map (\<lambda>pl n. pl (sector_of n)) (past (bc s))) (\<lambda>_. 0) Map.empty"
    using binit_ok [OF f(6,2)] by blast
  have g: "lg t = lg s" using t(2) by (auto simp: lock_init_step_def)
  have "txn t (\<lambda>_ _. 0) (\<lambda>_ _. 0) [] Map.empty"
    using t(3) by (simp add: f(3,4)) (simp add: txn_def g f(5) log_geo_def hdr_ok_def LOG_SIZE_def pins_none hdr_n_def ld32_def)
  moreover have "lg t = lg log_ready" using g assms by (simp add: fresh_disk_def)
  ultimately show ?thesis using t(1,2) lock_init_calm [OF t(2) f(1)] by blast
qed

lemma log_ready_ok:
  "\<exists>s. binit log_ready = Ret () s \<and> calm s 0 \<and> txn s (\<lambda>_ _. 0) (\<lambda>_ _. 0) [] Map.empty \<and> lg s = lg log_ready"
proof -
  have "fresh_disk log_ready" unfolding fresh_disk_def by (simp add: start_defs)
  then show ?thesis using fresh_disk_ok by blast
qed

lemma log_ready_write:
  "\<exists>s t. binit log_ready = Ret () s \<and> calm t 0 \<and> lg_outstanding (lg t) = 1 \<and> \<not> lg_committing (lg t) \<and> home (lg t) 50 \<and>
     txn t ((\<lambda>_ _. 0)(50 := (\<lambda>_. 0)(0 := 1))) (\<lambda>_ _. 0) [] Map.empty \<and>
     thenK begin_op (bindK (bread ROOT_DEV 50) (\<lambda>b. thenK (set_data b (\<lambda>d. d(0 := 1))) (thenK (log_write b) (brelse b)))) s = Ret () t"
proof -
  obtain s where s: "binit log_ready = Ret () s" "calm s 0" "txn s (\<lambda>_ _. 0) (\<lambda>_ _. 0) [] Map.empty" "lg s = lg log_ready"
    using log_ready_ok by blast
  have g: "lg s = \<lparr>lg_start = 2, lg_size = 30, lg_outstanding = 0, lg_committing = False, lg_dev = ROOT_DEV, lh_n = 0, lh_blocks = \<lambda>_. 0\<rparr>"
    using s(4) by (simp add: log_ready_def kblk.defs klog.defs)
  define u where "u = s\<lparr>lg := (lg s)\<lparr>lg_outstanding := 1\<rparr>\<rparr>"
  have b: "begin_op s = Ret () u"
    using begin_op_ok [OF s(2)] by (simp add: g u_def LOG_SIZE_def MAX_OP_BLKS_def)
  have u: "calm u 0" "txn u (\<lambda>_ _. 0) (\<lambda>_ _. 0) [] Map.empty" "home (lg u) 50"
    using s(2,3) by (simp_all add: u_def txn_def) (simp add: g home_def bno_ok_def in_log_def)
  obtain t where t: "bindK (bread ROOT_DEV 50) (\<lambda>b. thenK (set_data b (\<lambda>d. d(0 := 1))) (thenK (log_write b) (brelse b))) u = Ret () t"
    "log_step u t" "txn t ((\<lambda>_ _. 0)(50 := (\<lambda>_. 0)(0 := 1))) (\<lambda>_ _. 0) [] Map.empty"
    using log_session [OF u(1,2,3), of "\<lambda>d. d(0 := 1)"] by (auto simp: u_def g N_BUF_30)
  note st = log_stepD [OF t(2)]
  show ?thesis
    using s(1) b t u st(1,8) by (intro exI [of _ s] exI [of _ t]) (simp add: same_log_def u_def g home_def in_log_def)
qed

section \<open>Properties\<close>

text \<open>
  C1. Crash atomicity. When the last operation of a transaction ends, \<^verbatim>\<open>end_op\<close> commits
  and returns with every logged block in its place. Whichever of the disk images that exist
  during the commit the machine stops at, \<^verbatim>\<open>recover_from_log\<close> at the next start
  gives either all home blocks as they were before the transaction or all of them as the
  transaction left them.
\<close>

theorem end_op_crash_atomic:
  assumes "calm s p" "txn s L D W Map.empty" "lg_outstanding (lg s) = 1" "\<not> lg_committing (lg s)"
  shows "\<exists>t L' D' I. end_op s = Ret () t \<and> txn t L' D' (I @ W) Map.empty \<and> (\<forall>k. home (lg s) k \<longrightarrow> L' k = L k) \<and>
    (\<forall>X\<in>set (D' # I). \<forall>r q V. calm r q \<and> bcache r X X V (\<lambda>_. 0) Map.empty \<and> same_area (lg s) (lg r) \<longrightarrow>
      (\<exists>r' M V'. recover_from_log (r :: 'z klog_scheme) = Ret () r' \<and> txn r' M M V' Map.empty \<and> lh_n (lg r') = 0 \<and>
        ((\<forall>k. home (lg s) k \<longrightarrow> M k = D k) \<or> (\<forall>k. home (lg s) k \<longrightarrow> M k = L k))))"
proof -
  have geo: "log_geo (lg s)" using txnD(1) [OF assms(2)] .
  obtain t L' D' I where t: "end_op s = Ret () t" "txn t L' D' (I @ W) Map.empty" "\<forall>k. home (lg s) k \<longrightarrow> L' k = L k"
    and X: "\<forall>X\<in>set (D' # I). image_ok (lg s) X \<and>
      ((\<forall>k. home (lg s) k \<longrightarrow> replay (lg s) X k = D k) \<or> (\<forall>k. home (lg s) k \<longrightarrow> replay (lg s) X k = L k))"
    using end_op_ok [OF assms(1,2) refl assms(3,4)] by blast
  have "\<exists>r' M V'. recover_from_log (r :: 'z klog_scheme) = Ret () r' \<and> txn r' M M V' Map.empty \<and> lh_n (lg r') = 0 \<and>
        ((\<forall>k. home (lg s) k \<longrightarrow> M k = D k) \<or> (\<forall>k. home (lg s) k \<longrightarrow> M k = L k))"
    if x: "Y \<in> set (D' # I)" and r: "calm r q" "bcache r Y Y V (\<lambda>_. 0) Map.empty" "same_area (lg s) (lg r)" for Y r q V
  proof -
    note sa = same_areaD [OF r(3)]
    note x = bspec [OF X x]
    obtain r' M V' where "recover_from_log r = Ret () r'" "txn r' M M V' Map.empty" "lh_n (lg r') = 0"
      "\<forall>k. home (lg s) k \<longrightarrow> M k = replay (lg s) Y k"
      using recover_ok [OF r(1,2) refl] x geo unfolding sa by blast
    then show ?thesis using x by (intro exI [of _ r'] exI [of _ M] exI [of _ V']) auto
  qed
  then show ?thesis using t by blast
qed

theorem end_op_crash_atomic_witness:
  "\<exists>s t u L D W. binit log_ready = Ret () s \<and>
     thenK begin_op (bindK (bread ROOT_DEV 50) (\<lambda>b. thenK (set_data b (\<lambda>d. d(0 := 1))) (thenK (log_write b) (brelse b)))) s = Ret () t \<and>
     end_op t = Ret () u \<and> txn u L D W Map.empty \<and> L 50 0 = 1"
proof -
  obtain s t where t: "binit log_ready = Ret () s" "calm t 0" "lg_outstanding (lg t) = 1" "\<not> lg_committing (lg t)" "home (lg t) 50"
     "txn t ((\<lambda>_ _. 0)(50 := (\<lambda>_. 0)(0 := 1))) (\<lambda>_ _. 0) [] Map.empty"
     "thenK begin_op (bindK (bread ROOT_DEV 50) (\<lambda>b. thenK (set_data b (\<lambda>d. d(0 := 1))) (thenK (log_write b) (brelse b)))) s = Ret () t"
    using log_ready_write by blast
  obtain u L D I where u: "end_op t = Ret () u" "txn u L D (I @ []) Map.empty"
    "\<forall>k. home (lg t) k \<longrightarrow> L k = ((\<lambda>_ _. 0)(50 := (\<lambda>_. 0)(0 := 1))) k"
    using end_op_crash_atomic [OF t(2,6,3,4)] by blast
  have "L 50 0 = 1" using u(3) t(5) by simp
  then show ?thesis using t(1,7) u(1,2) by blast
qed

text \<open>
  C33. Admission. \<^verbatim>\<open>begin_op\<close> starts an operation exactly when the log is not committing
  and holds the \<open>MAX_OP_BLKS\<close> blocks of every started operation beside those already
  logged; otherwise it puts the process to sleep on the log.
\<close>

theorem begin_op_admits:
  assumes "calm s p" "unat (lh_n (lg s)) \<le> LOG_SIZE" "0 \<le> lg_outstanding (lg s)" "lg_outstanding (lg s) < 2 ^ 20"
  shows "begin_op s =
    (if \<not> lg_committing (lg s) \<and> int (unat (lh_n (lg s))) + (lg_outstanding (lg s) + 1) * int MAX_OP_BLKS \<le> int LOG_SIZE
     then Ret () (s\<lparr>lg := (lg s)\<lparr>lg_outstanding := lg_outstanding (lg s) + 1\<rparr>\<rparr>)
     else Switch ((grab (L_proc p) s)
       \<lparr>procs := (procs s)(p := (procs s p)\<lparr>p_chan := Some Ch_log, p_state := PROC_SLEEPING\<rparr>)\<rparr>))"
  by (rule begin_op_ok [OF assms])

theorem begin_op_admits_witness: "\<exists>s t. binit log_ready = Ret () s \<and> begin_op s = Ret () t \<and> lg_outstanding (lg t) = 1"
proof -
  obtain s where s: "binit log_ready = Ret () s" "calm s 0" "lg s = lg log_ready"
    using log_ready_ok by blast
  have "lg s = \<lparr>lg_start = 2, lg_size = 30, lg_outstanding = 0, lg_committing = False, lg_dev = ROOT_DEV, lh_n = 0, lh_blocks = \<lambda>_. 0\<rparr>"
    using s(3) by (simp add: log_ready_def kblk.defs klog.defs)
  then show ?thesis using s(1) begin_op_admits [OF s(2)] by (simp add: LOG_SIZE_def MAX_OP_BLKS_def)
qed



end
