(* ===== verification/Inode.thy ===== *)
theory Inode
  imports Log Ucopy
begin

text \<open>
  Inodes, directories and path names: \<^verbatim>\<open>kernel/fs/inode.c\<close>.

  An inode pointer is the index of its slot in \<^verbatim>\<open>itable.inodes\<close>, the null pointer
  \<open>None\<close>. A path is the list of the bytes before its terminator; a \<^verbatim>\<open>name\<close> buffer
  is a function from the offset to the byte. Where \<^verbatim>\<open>readi\<close> and \<^verbatim>\<open>writei\<close> are
  given a kernel pointer, the bytes stored through it are returned, the bytes loaded through
  it are an argument. File offsets are 64-bit words below \<open>2 ^ 63\<close>, so that the signed and the
  unsigned comparisons agree.
\<close>

section \<open>Definitions\<close>

definition N_INODE :: nat where "N_INODE = 50"
definition ROOT_INO :: u16 where "ROOT_INO = 1"
definition FT_NONE :: u16 where "FT_NONE = 0"
definition FT_DIR :: u16 where "FT_DIR = 1"
definition FT_FILE :: u16 where "FT_FILE = 2"
definition FT_DEVICE :: u16 where "FT_DEVICE = 3"
definition SLASH :: u8 where "SLASH = 0x2f"
definition DIRENT_SIZE :: nat where "DIRENT_SIZE = 2 + DIR_SIZE"

record m_inode =
  i_dev :: u32
  i_ino :: u16
  i_refcnt :: u32
  i_valid :: bool
  i_type :: u16
  i_major :: u16
  i_minor :: u16
  i_nlink :: u16
  i_size :: u32
  i_addrs :: "nat \<Rightarrow> u32"

record stat =
  st_type :: u16
  st_ino :: u16
  st_nlink :: u16
  st_size :: u32

record kino = klog +
  itable :: "nat \<Rightarrow> m_inode"

definition upd_inode :: "nat \<Rightarrow> (m_inode \<Rightarrow> m_inode) \<Rightarrow> ('z kino_scheme, unit) kernel" where
  "upd_inode i f = modK (\<lambda>s. s\<lparr>itable := (itable s)(i := f (itable s i))\<rparr>)"

definition the_inode :: "nat \<Rightarrow> ('z kino_scheme, m_inode) kernel" where
  "the_inode i = getK (\<lambda>s. itable s i)"

definition IBLOCK :: "nat \<Rightarrow> super_block \<Rightarrow> u32" where
  "IBLOCK i b = of_nat (i div IPB) + sb_inode_start b"

subsection \<open>The inode table\<close>

definition iinit :: "('z kino_scheme, unit) kernel" where
  "iinit = thenK (spin_lock_init L_itable ''itable'')
     (forK [0..<N_INODE] (\<lambda>i. sleep_lock_init (SL_inode i) ''inode''))"

definition iget :: "u16 \<Rightarrow> u16 \<Rightarrow> ('z kino_scheme, nat) kernel" where
  "iget dev ino =
     thenK (spin_lock_acquire L_itable) (
     bindK (getK itable) (\<lambda>t.
     case find (\<lambda>i. i_refcnt (t i) > 0 \<and> i_dev (t i) = ucast dev \<and> i_ino (t i) = ino) [0..<N_INODE] of
       Some i \<Rightarrow>
         thenK (upd_inode i (\<lambda>n. n\<lparr>i_refcnt := i_refcnt n + 1\<rparr>)) (
         thenK (spin_lock_release L_itable) (retK i))
     | None \<Rightarrow>
         (case find (\<lambda>i. i_refcnt (t i) = 0) [0..<N_INODE] of
            None \<Rightarrow> panicK ''no inodes''
          | Some i \<Rightarrow>
              thenK (upd_inode i (\<lambda>n. n\<lparr>i_refcnt := 1, i_dev := ucast dev, i_ino := ino, i_valid := False\<rparr>)) (
              thenK (spin_lock_release L_itable) (retK i)))))"

definition idup :: "nat \<Rightarrow> ('z kino_scheme, nat) kernel" where
  "idup i =
     thenK (spin_lock_acquire L_itable) (
     bindK (the_inode i) (\<lambda>n.
     if i_refcnt n < 1 then panicK ''duplicate an invalid inode'' else
     thenK (upd_inode i (\<lambda>n. n\<lparr>i_refcnt := i_refcnt n + 1\<rparr>)) (
     thenK (spin_lock_release L_itable) (retK i))))"

text \<open>The part of \<^verbatim>\<open>ilock\<close> that copies the disk inode into the table.\<close>

definition load_inode :: "d_inode \<Rightarrow> m_inode \<Rightarrow> m_inode" where
  "load_inode di n = n\<lparr>i_type := di_type di, i_major := di_major di, i_minor := di_minor di,
     i_nlink := di_nlink di, i_size := di_size di,
     i_addrs := \<lambda>k. if k < N_ADDRS then di_addrs di k else i_addrs n k\<rparr>"

definition ilock :: "nat \<Rightarrow> ('z kino_scheme, unit) kernel" where
  "ilock i =
     bindK (the_inode i) (\<lambda>n.
     if i_refcnt n < 1 then panicK ''lock an invalid inode'' else
     thenK (sleep_lock_acquire (SL_inode i)) (
     bindK (the_inode i) (\<lambda>n.
     if i_valid n then retK () else
     bindK (getK sb) (\<lambda>sb.
     bindK (bread (i_dev n) (IBLOCK (unat (i_ino n)) sb)) (\<lambda>b.
     bindK (buf_data b) (\<lambda>d.
     thenK (upd_inode i (load_inode (get_d_inode d (64 * (unat (i_ino n) mod IPB))))) (
     thenK (brelse b) (
     thenK (upd_inode i (\<lambda>n. n\<lparr>i_valid := True\<rparr>)) (
     bindK (the_inode i) (\<lambda>n.
     if i_type n = 0 then panicK ''inode has no type'' else retK ()))))))))))"

definition iunlock :: "nat \<Rightarrow> ('z kino_scheme, unit) kernel" where
  "iunlock i =
     bindK (the_inode i) (\<lambda>n.
     if i_refcnt n < 1 then panicK ''unlock an invalid inode''
     else sleep_lock_release (SL_inode i))"

text \<open>The \<^verbatim>\<open>d_inode\<close> that \<^verbatim>\<open>iupdate\<close> stores.\<close>

definition to_d_inode :: "m_inode \<Rightarrow> d_inode" where
  "to_d_inode n = \<lparr>di_type = i_type n, di_major = i_major n, di_minor = i_minor n, di_nlink = i_nlink n,
     di_size = i_size n, di_addrs = i_addrs n\<rparr>"

definition iupdate :: "nat \<Rightarrow> ('z kino_scheme, unit) kernel" where
  "iupdate i =
     bindK (the_inode i) (\<lambda>n.
     bindK (getK sb) (\<lambda>sb.
     bindK (bread (i_dev n) (IBLOCK (unat (i_ino n)) sb)) (\<lambda>b.
     thenK (set_data b (\<lambda>d. put_d_inode d (64 * (unat (i_ino n) mod IPB)) (to_d_inode n))) (
     thenK (log_write b) (brelse b)))))"

subsection \<open>Bitmaps and blocks\<close>

definition bit_free :: "blk \<Rightarrow> nat \<Rightarrow> bool" where
  "bit_free d k \<longleftrightarrow> d (k div 8) AND push_bit (k mod 8) 1 = 0"

definition bit_set :: "nat \<Rightarrow> blk \<Rightarrow> blk" where
  "bit_set k d = d(k div 8 := d (k div 8) OR push_bit (k mod 8) 1)"

definition bit_clr :: "nat \<Rightarrow> blk \<Rightarrow> blk" where
  "bit_clr k d = d(k div 8 := d (k div 8) AND NOT (push_bit (k mod 8) 1))"

definition clear_bytes :: "nat \<Rightarrow> nat \<Rightarrow> blk \<Rightarrow> blk" where
  "clear_bytes p n d = (\<lambda>j. if p \<le> j \<and> j < p + n then 0 else d j)"

text \<open>
  The two nested loops over bytes and shifts, as one scan over \<open>8 * byte + shift\<close>.
\<close>

definition ialloc :: "u32 \<Rightarrow> u16 \<Rightarrow> ('z kino_scheme, nat option) kernel" where
  "ialloc dev ty =
     bindK (getK sb) (\<lambda>sb.
     bindK (bread dev (sb_inode_bitmap_start sb)) (\<lambda>bitmap.
     bindK (buf_data bitmap) (\<lambda>d.
     case find (\<lambda>k. bit_free d k \<and> k \<noteq> 0) [0..<8 * BLOCK_SIZE] of
       None \<Rightarrow> thenK (brelse bitmap) (retK None)
     | Some ino \<Rightarrow>
         thenK (set_data bitmap (bit_set ino)) (
         thenK (log_write bitmap) (
         thenK (brelse bitmap) (
         bindK (bread dev (IBLOCK ino sb)) (\<lambda>iblock.
         thenK (set_data iblock (\<lambda>d. st16 (clear_bytes (64 * (ino mod IPB)) 64 d) (64 * (ino mod IPB)) ty)) (
         thenK (log_write iblock) (
         thenK (brelse iblock) (
         bindK (iget (ucast dev) (of_nat ino)) (\<lambda>i. retK (Some i))))))))))))"

definition bzero :: "u32 \<Rightarrow> u32 \<Rightarrow> ('z kino_scheme, unit) kernel" where
  "bzero dev bno =
     bindK (bread dev bno) (\<lambda>b.
     thenK (set_data b (clear_bytes 0 BLOCK_SIZE)) (
     thenK (log_write b) (brelse b)))"

definition balloc :: "u32 \<Rightarrow> ('z kino_scheme, u32) kernel" where
  "balloc dev =
     bindK (getK sb) (\<lambda>sb.
     bindK (bread dev (sb_data_bitmap_start sb)) (\<lambda>bitmap.
     bindK (buf_data bitmap) (\<lambda>d.
     case find (bit_free d) [0..<8 * BLOCK_SIZE] of
       None \<Rightarrow> thenK (brelse bitmap) (retK 0)
     | Some k \<Rightarrow>
         thenK (set_data bitmap (bit_set k)) (
         thenK (log_write bitmap) (
         thenK (brelse bitmap) (
         let bno = of_nat k + sb_data_start sb in
         thenK (bzero dev bno) (retK bno)))))))"

definition bfree :: "u32 \<Rightarrow> u32 \<Rightarrow> ('z kino_scheme, unit) kernel" where
  "bfree dev bno =
     bindK (getK sb) (\<lambda>sb.
     bindK (bread dev (sb_data_bitmap_start sb)) (\<lambda>b.
     thenK (set_data b (bit_clr (unat (bno - sb_data_start sb)))) (
     thenK (log_write b) (brelse b))))"

subsection \<open>The blocks of a file\<close>

definition set_addr :: "nat \<Rightarrow> nat \<Rightarrow> u32 \<Rightarrow> ('z kino_scheme, unit) kernel" where
  "set_addr i k a = upd_inode i (\<lambda>n. n\<lparr>i_addrs := (i_addrs n)(k := a)\<rparr>)"

text \<open>\<^verbatim>\<open>if (addrs[k] == 0) addrs[k] = balloc(inode->dev)\<close>, and the value of \<^verbatim>\<open>addrs[k]\<close> then.\<close>

definition bmap_addr :: "nat \<Rightarrow> nat \<Rightarrow> ('z kino_scheme, u32) kernel" where
  "bmap_addr i k =
     bindK (the_inode i) (\<lambda>n.
     if i_addrs n k = 0
     then bindK (balloc (i_dev n)) (\<lambda>a. thenK (set_addr i k a) (retK a))
     else retK (i_addrs n k))"

definition bmap :: "nat \<Rightarrow> u32 \<Rightarrow> ('z kino_scheme, u32) kernel" where
  "bmap i n0 =
     (if unat n0 < N_DIRECT then bmap_addr i (unat n0) else
      let k = unat n0 - N_DIRECT in
      if k < N_INDIRECT * APB then
        bindK (bmap_addr i (N_DIRECT + k div APB)) (\<lambda>a.
        if a = 0 then retK 0 else
        bindK (the_inode i) (\<lambda>n.
        bindK (bread (i_dev n) a) (\<lambda>b.
        bindK (buf_data b) (\<lambda>d.
        let addr = ld32 d (4 * (k mod APB)) in
        if addr = 0 then
          bindK (balloc (i_dev n)) (\<lambda>addr.
          thenK (set_data b (\<lambda>d. st32 d (4 * (k mod APB)) addr)) (
          if addr = 0 then thenK (brelse b) (retK 0)
          else thenK (log_write b) (thenK (brelse b) (retK addr))))
        else thenK (brelse b) (retK addr)))))
      else panicK ''the maximum number of blocks for a single file'')"

definition itrunc_direct :: "nat \<Rightarrow> nat \<Rightarrow> ('z kino_scheme, unit) kernel" where
  "itrunc_direct i k =
     bindK (the_inode i) (\<lambda>n.
     whenK (i_addrs n k \<noteq> 0) (
       thenK (bfree (i_dev n) (i_addrs n k)) (set_addr i k 0)))"

definition itrunc_indirect :: "nat \<Rightarrow> nat \<Rightarrow> ('z kino_scheme, unit) kernel" where
  "itrunc_indirect i k =
     bindK (the_inode i) (\<lambda>n.
     whenK (i_addrs n k \<noteq> 0) (
       bindK (bread (i_dev n) (i_addrs n k)) (\<lambda>b.
       thenK (forK [0..<APB] (\<lambda>j.
         bindK (buf_data b) (\<lambda>d.
         whenK (ld32 d (4 * j) \<noteq> 0) (bfree (i_dev n) (ld32 d (4 * j)))))) (
       thenK (brelse b) (
       thenK (bfree (i_dev n) (i_addrs n k)) (set_addr i k 0))))))"

definition itrunc :: "nat \<Rightarrow> ('z kino_scheme, unit) kernel" where
  "itrunc i = seqK [
     forK [0..<N_DIRECT] (itrunc_direct i),
     forK [N_DIRECT..<N_DIRECT + N_INDIRECT] (itrunc_indirect i),
     upd_inode i (\<lambda>n. n\<lparr>i_size := 0\<rparr>),
     iupdate i]"

definition iput :: "nat \<Rightarrow> ('z kino_scheme, unit) kernel" where
  "iput i =
     thenK (spin_lock_acquire L_itable) (
     bindK (the_inode i) (\<lambda>n. seqK [
       whenK (i_refcnt n = 1 \<and> i_valid n \<and> i_nlink n = 0) (seqK [
         sleep_lock_acquire (SL_inode i),
         spin_lock_release L_itable,
         itrunc i,
         upd_inode i (\<lambda>n. n\<lparr>i_type := 0\<rparr>),
         iupdate i,
         upd_inode i (\<lambda>n. n\<lparr>i_valid := False\<rparr>),
         sleep_lock_release (SL_inode i),
         spin_lock_acquire L_itable]),
       upd_inode i (\<lambda>n. n\<lparr>i_refcnt := i_refcnt n - 1\<rparr>),
       spin_lock_release L_itable]))"

subsection \<open>Reading and writing\<close>

text \<open>
  The offsets and lengths the loops of \<^verbatim>\<open>readi\<close> and \<^verbatim>\<open>writei\<close> go through:
  up to the end of the block, then block by block.
\<close>

function chunks :: "nat \<Rightarrow> nat \<Rightarrow> (nat \<times> nat) list" where
  "chunks off n =
     (if n = 0 then [] else
      let len = min (BLOCK_SIZE - off mod BLOCK_SIZE) n in (off, len) # chunks (off + len) (n - len))"
  by auto
termination by (relation "measure snd") (auto simp: BLOCK_SIZE_def)

declare chunks.simps [simp del]

definition put_bytes :: "nat \<Rightarrow> u8 list \<Rightarrow> blk \<Rightarrow> blk" where
  "put_bytes p bs d = (\<lambda>j. if p \<le> j \<and> j < p + length bs then bs ! (j - p) else d j)"

fun readi_loop :: "nat \<Rightarrow> dst_ptr \<Rightarrow> (nat \<times> nat) list \<Rightarrow> ('z kino_scheme, nat \<times> u8 list) kernel" where
  "readi_loop i dst [] = retK (0, [])"
| "readi_loop i dst ((off, len) # cs) =
     bindK (bmap i (of_nat (off div BLOCK_SIZE))) (\<lambda>addr.
     if addr = 0 then retK (0, []) else
     bindK (the_inode i) (\<lambda>n.
     bindK (bread (i_dev n) addr) (\<lambda>b.
     bindK (buf_data b) (\<lambda>d.
     bindK (either_copy_out dst (map d [off mod BLOCK_SIZE..<off mod BLOCK_SIZE + len])) (\<lambda>(r, bs).
     thenK (brelse b) (
     if r \<noteq> 0 then retK (0, []) else
     bindK (readi_loop i (dst_add dst len) cs) (\<lambda>(k, bs'). retK (len + k, bs @ bs'))))))))"

definition readi :: "nat \<Rightarrow> dst_ptr \<Rightarrow> u64 \<Rightarrow> u64 \<Rightarrow> ('z kino_scheme, int \<times> u8 list) kernel" where
  "readi i dst off n =
     bindK (the_inode i) (\<lambda>m.
     if unat off > unat (i_size m) then retK (-1, []) else
     let n = (if unat (off + n) > unat (i_size m) then ucast (i_size m) - off else n) in
     bindK (readi_loop i dst (chunks (unat off) (unat n))) (\<lambda>(k, bs). retK (int k, bs)))"

fun writei_loop :: "nat \<Rightarrow> src_ptr \<Rightarrow> (nat \<times> nat) list \<Rightarrow> ('z kino_scheme, nat) kernel" where
  "writei_loop i src [] = retK 0"
| "writei_loop i src ((off, len) # cs) =
     bindK (bmap i (of_nat (off div BLOCK_SIZE))) (\<lambda>addr.
     if addr = 0 then retK 0 else
     bindK (the_inode i) (\<lambda>n.
     bindK (bread (i_dev n) addr) (\<lambda>b.
     bindK (either_copy_in src len) (\<lambda>(r, bs).
     thenK (set_data b (put_bytes (off mod BLOCK_SIZE) bs)) (
     if r \<noteq> 0 then thenK (brelse b) (retK 0) else
     thenK (log_write b) (
     thenK (brelse b) (
     bindK (writei_loop i (src_add src len) cs) (\<lambda>k. retK (len + k)))))))))"

definition writei :: "nat \<Rightarrow> src_ptr \<Rightarrow> u64 \<Rightarrow> u64 \<Rightarrow> ('z kino_scheme, int) kernel" where
  "writei i src off n =
     bindK (the_inode i) (\<lambda>m.
     if unat off > unat (i_size m) then retK (-1) else
     bindK (writei_loop i src (chunks (unat off) (unat n))) (\<lambda>k.
     bindK (the_inode i) (\<lambda>m.
     thenK (whenK (unat off + k > unat (i_size m)) (
       upd_inode i (\<lambda>m. m\<lparr>i_size := of_nat (unat off + k)\<rparr>))) (
     thenK (iupdate i) (retK (int k))))))"

definition stati :: "nat \<Rightarrow> ('z kino_scheme, stat) kernel" where
  "stati i = bindK (the_inode i) (\<lambda>n.
     retK \<lparr>st_type = i_type n, st_ino = i_ino n, st_nlink = i_nlink n, st_size = i_size n\<rparr>)"

text \<open>The division of a signed offset rounds towards zero; the block number is its low 32 bits.\<close>

definition block_of :: "int \<Rightarrow> u32" where
  "block_of off = of_int (if off < 0 then - ((- off) div int BLOCK_SIZE) else off div int BLOCK_SIZE)"

definition lseeki :: "nat \<Rightarrow> int \<Rightarrow> ('z kino_scheme, int) kernel" where
  "lseeki i offset =
     bindK (the_inode i) (\<lambda>n.
     if i_type n \<noteq> FT_FILE then retK (-1) else
     bindK (bmap i (block_of offset)) (\<lambda>a.
     retK (if a \<noteq> 0 then offset else -1)))"

subsection \<open>Directories\<close>

definition dir_offs :: "u32 \<Rightarrow> nat list" where
  "dir_offs sz = map (\<lambda>k. DIRENT_SIZE * k) [0..<(unat sz + DIRENT_SIZE - 1) div DIRENT_SIZE]"

definition read_entry :: "nat \<Rightarrow> nat \<Rightarrow> ('z kino_scheme, dir_entry) kernel" where
  "read_entry dir off =
     bindK (readi dir To_kernel (of_nat off) (of_nat DIRENT_SIZE)) (\<lambda>(r, bs).
     if r \<noteq> int DIRENT_SIZE then panicK ''inode read error''
     else retK (get_dir_entry (\<lambda>j. bs ! j) 0))"

definition entry_bytes :: "dir_entry \<Rightarrow> u8 list" where
  "entry_bytes de = map (put_dir_entry (\<lambda>_. 0) 0 de) [0..<DIRENT_SIZE]"

definition dir_lookup :: "nat \<Rightarrow> cptr \<Rightarrow> ('z kino_scheme, (nat \<times> nat) option) kernel" where
  "dir_lookup dir name =
     bindK (the_inode dir) (\<lambda>n.
     if i_type n \<noteq> FT_DIR then panicK ''lookup in non-directory files'' else
     untilK (dir_offs (i_size n)) (\<lambda>off.
       bindK (read_entry dir off) (\<lambda>de.
       if de_ino de = 0 then retK None
       else if strncmp (de_name de) name DIR_SIZE = 0 then
         bindK (the_inode dir) (\<lambda>n.
         bindK (iget (ucast (i_dev n)) (de_ino de)) (\<lambda>i. retK (Some (i, off))))
       else retK None)))"

definition dir_link :: "nat \<Rightarrow> cptr \<Rightarrow> u32 \<Rightarrow> ('z kino_scheme, int) kernel" where
  "dir_link dir name ino =
     bindK (dir_lookup dir name) (\<lambda>r.
     case r of
       Some (i, _) \<Rightarrow> thenK (iput i) (retK (-1))
     | None \<Rightarrow>
         bindK (the_inode dir) (\<lambda>n.
         bindK (untilK (dir_offs (i_size n)) (\<lambda>off.
           bindK (read_entry dir off) (\<lambda>_.
           bindK (the_inode dir) (\<lambda>n.
           retK (if i_ino n = 0 then Some off else None))))) (\<lambda>at.
         let off = (case at of Some off \<Rightarrow> off | None \<Rightarrow> DIRENT_SIZE * length (dir_offs (i_size n)));
             de = \<lparr>de_ino = ucast ino, de_name = strncpy (\<lambda>_. 0) name DIR_SIZE\<rparr> in
         bindK (writei dir (From_kernel (entry_bytes de)) (of_nat off) (of_nat DIRENT_SIZE)) (\<lambda>r.
         retK (if r \<noteq> int DIRENT_SIZE then -1 else 0)))))"

subsection \<open>Path names\<close>

definition skip_elem :: "u8 list \<Rightarrow> cptr \<Rightarrow> (u8 list \<times> cptr) option" where
  "skip_elem path name =
     (let path = dropWhile (\<lambda>c. c = SLASH) path in
      if path = [] then None else
      let s = takeWhile (\<lambda>c. c \<noteq> SLASH) path;
          rest = dropWhile (\<lambda>c. c \<noteq> SLASH) path;
          len = length s;
          name = (if len \<ge> DIR_SIZE then put_bytes 0 (take DIR_SIZE s) name
                  else (put_bytes 0 s name)(len := 0))
      in Some (dropWhile (\<lambda>c. c = SLASH) rest, name))"

fun lookup_loop :: "nat \<Rightarrow> bool \<Rightarrow> u8 list \<Rightarrow> cptr \<Rightarrow> nat \<Rightarrow> ('z kino_scheme, nat option \<times> cptr) kernel" where
  "lookup_loop 0 parent path name i = (\<lambda>s. NoFuel)"
| "lookup_loop (Suc fuel) parent path name i =
     (case skip_elem path name of
        None \<Rightarrow>
          if parent then thenK (iput i) (retK (None, name)) else retK (Some i, name)
      | Some (path, name) \<Rightarrow>
          thenK (ilock i) (
          bindK (the_inode i) (\<lambda>n.
          if i_type n \<noteq> FT_DIR then thenK (iunlock i) (thenK (iput i) (retK (None, name)))
          else if parent \<and> path = [] then thenK (iunlock i) (retK (Some i, name))
          else bindK (dir_lookup i name) (\<lambda>next.
            case next of
              None \<Rightarrow> thenK (iunlock i) (thenK (iput i) (retK (None, name)))
            | Some (j, _) \<Rightarrow>
                thenK (iunlock i) (thenK (iput i) (lookup_loop fuel parent path name j))))))"

definition lookup :: "u8 list \<Rightarrow> bool \<Rightarrow> cptr \<Rightarrow> ('z kino_scheme, nat option \<times> cptr) kernel" where
  "lookup path parent name =
     bindK (if path \<noteq> [] \<and> hd path = SLASH then iget (ucast ROOT_DEV) ROOT_INO
            else bindK current_proc (\<lambda>p.
                 bindK (getK (\<lambda>s. p_cwd (procs s p))) (\<lambda>cwd.
                 case cwd of None \<Rightarrow> panicK ''kernel trap'' | Some i \<Rightarrow> idup i)))
       (lookup_loop (length path + 1) parent path name)"

definition namei :: "u8 list \<Rightarrow> ('z kino_scheme, nat option) kernel" where
  "namei path = bindK (lookup path False (\<lambda>_. 0)) (\<lambda>(i, _). retK i)"

definition parenti :: "u8 list \<Rightarrow> ('z kino_scheme, nat option \<times> cptr) kernel" where
  "parenti path = lookup path True (\<lambda>_. 0)"

section \<open>Frame\<close>

lemma itable_frame [simp, quiet_simps]:
  "hart_ok (itable_update f s) = hart_ok s"
  "avail (itable_update f s) L = avail s L"
  "holds (itable_update f s) L = holds s L"
  "quiet (itable_update f s) = quiet s"
  "procs_avail (itable_update f s) = procs_avail s"
  "cur_proc (itable_update f s) = cur_proc s"
  "no_sleeper (itable_update f s) = no_sleeper s"
  "calm (itable_update f s) = calm s"
  "n_off (current_cpu (itable_update f s)) = n_off (current_cpu s)"
  "intr_ena (current_cpu (itable_update f s)) = intr_ena (current_cpu s)"
  "grab L (itable_update f s) = itable_update f (grab L s)"
  "ungrab L (itable_update f s) = itable_update f (ungrab L s)"
  "setp c (itable_update f s) = itable_update f (setp c s)"
  "itable (grab L s) = itable s" "itable (ungrab L s) = itable s" "itable (setp c s) = itable s"
  "pool (itable_update f s) ps = pool s ps"
  by (simp_all add: procs_avail_def avail_def holds_def quiet_def cur_proc_def lock_free_def calm_def
      spin_lock_holding_def grab_def ungrab_def setp_def hart_defs no_sleeper_def pool_def fun_eq_iff Let_def)

lemma itable_swap [simp]:
  "procs_update gpr (itable_update f s) = itable_update f (procs_update gpr s)"
  "sleeps_update gsl (itable_update f s) = itable_update f (sleeps_update gsl s)"
  "mem_update gme (itable_update f s) = itable_update f (mem_update gme s)"
  "free_head_update gfr (itable_update f s) = itable_update f (free_head_update gfr s)"
  "bc_update gbc (itable_update f s) = itable_update f (bc_update gbc s)"
  "lg_update glg (itable_update f s) = itable_update f (lg_update glg s)"
  "sb_update gsb (itable_update f s) = itable_update f (sb_update gsb s)"
  by (cases s; simp)+

text \<open>A state with an empty inode table.\<close>

definition blank_inode :: m_inode where
  "blank_inode = \<lparr>i_dev = 0, i_ino = 0, i_refcnt = 0, i_valid = False, i_type = 0, i_major = 0, i_minor = 0,
     i_nlink = 0, i_size = 0, i_addrs = \<lambda>_. 0\<rparr>"

definition ino_ready :: kino where
  "ino_ready = klog.extend log_ready (kino.fields (\<lambda>_. blank_inode))"

lemma ino_ready_ok: "calm ino_ready 0" "itable ino_ready = (\<lambda>_. blank_inode)"
  by (simp_all add: ino_ready_def start_defs kino.defs)

end
