(* ===== verification/Ring.thy ===== *)
theory Ring
  imports Prelude
begin

text \<open>
  Ring buffers. The pipe, the console input and the serial output each keep a character
  array and two indices that move round it; one slot stays empty to tell a full buffer from
  an empty one. This theory has the queue such a buffer stands for, and the interface
  \<open>fifo\<close> with what its clients may rely on.
\<close>

section \<open>The contents of a ring\<close>

definition ring_len :: "nat \<Rightarrow> u32 \<Rightarrow> u32 \<Rightarrow> nat" where
  "ring_len N r w = (unat w + N - unat r) mod N"

definition ring_list :: "nat \<Rightarrow> (nat \<Rightarrow> 'a) \<Rightarrow> u32 \<Rightarrow> u32 \<Rightarrow> 'a list" where
  "ring_list N d r w = map (\<lambda>k. d ((unat r + k) mod N)) [0..<ring_len N r w]"

definition ring_ok :: "nat \<Rightarrow> u32 \<Rightarrow> u32 \<Rightarrow> bool" where
  "ring_ok N r w \<longleftrightarrow> 1 < N \<and> N < 2 ^ 31 \<and> unat r < N \<and> unat w < N"

lemma ring_len_eq:
  assumes "ring_ok N r w"
  shows "ring_len N r w = (if unat r \<le> unat w then unat w - unat r else unat w + N - unat r)"
proof (cases "unat r \<le> unat w")
  case True
  then have e: "unat w + N - unat r = (unat w - unat r) + N" by simp
  have "unat w - unat r < N" using assms unfolding ring_ok_def by linarith
  then show ?thesis using True unfolding ring_len_def e mod_add_self2 by simp
next
  case False
  then have "unat w + N - unat r < N" using assms unfolding ring_ok_def by linarith
  then show ?thesis using False by (simp add: ring_len_def)
qed

lemma ring_next:
  assumes "1 < N" "N < 2 ^ 31" "unat x < N"
  shows "unat ((x + 1) mod of_nat N :: u32) = (if unat x + 1 = N then 0 else unat x + 1)"
proof -
  have u: "unat (x + 1 :: u32) = unat x + 1" using assms by (simp add: unat_word_ariths)
  have n: "unat (of_nat N :: u32) = N" using assms by (simp add: unat_of_nat take_bit_nat_eq_self)
  show ?thesis using assms by (simp add: unat_mod u n)
qed

lemma ring_next_ok:
  assumes "ring_ok N r w"
  shows "ring_ok N r ((w + 1) mod of_nat N)" "ring_ok N ((r + 1) mod of_nat N) w"
  using assms by (auto simp: ring_ok_def ring_next)

lemma ring_len_less: "ring_ok N r w \<Longrightarrow> ring_len N r w < N"
  by (simp add: ring_len_def ring_ok_def)

lemma length_ring_list [simp]: "length (ring_list N d r w) = ring_len N r w"
  by (simp add: ring_list_def)

lemma ring_empty:
  assumes "ring_ok N r w"
  shows "ring_list N d r w = [] \<longleftrightarrow> r = w"
  using assms by (auto simp: ring_list_def ring_len_eq word_unat_eq_iff ring_ok_def split: if_splits)

lemma ring_full:
  assumes "ring_ok N r w"
  shows "(w + 1) mod of_nat N = r \<longleftrightarrow> ring_len N r w = N - 1"
  using assms ring_next [of N w]
  by (auto simp: ring_len_eq word_unat_eq_iff ring_ok_def split: if_splits)

lemma ring_put_len:
  assumes "ring_ok N r w" "(w + 1) mod of_nat N \<noteq> r"
  shows "ring_len N r ((w + 1) mod of_nat N) = Suc (ring_len N r w)"
  using assms ring_next [of N w] ring_next_ok(1) [OF assms(1)]
  by (auto simp: ring_len_eq word_unat_eq_iff ring_ok_def split: if_splits)

lemma ring_take_len:
  assumes "ring_ok N r w" "r \<noteq> w"
  shows "ring_len N r w = Suc (ring_len N ((r + 1) mod of_nat N) w)"
  using assms ring_next [of N r] ring_next_ok(2) [OF assms(1)]
  by (auto simp: ring_len_eq word_unat_eq_iff ring_ok_def split: if_splits)

lemma ring_at_end: "ring_ok N r w \<Longrightarrow> (unat r + ring_len N r w) mod N = unat w"
  by (auto simp: ring_len_eq ring_ok_def)

lemma ring_at_inside:
  assumes "ring_ok N r w" "k < ring_len N r w"
  shows "(unat r + k) mod N \<noteq> unat w"
proof (cases "unat r + k < N")
  case True
  then show ?thesis using assms by (auto simp: ring_len_eq ring_ok_def split: if_splits)
next
  case False
  then have "(unat r + k) mod N = unat r + k - N"
    using assms by (subst mod_if) (auto simp: ring_len_eq ring_ok_def split: if_splits)
  then show ?thesis using False assms by (auto simp: ring_len_eq ring_ok_def split: if_splits)
qed

lemma ring_put:
  assumes "ring_ok N r w" "(w + 1) mod of_nat N \<noteq> r"
  shows "ring_list N (d(unat w := c)) r ((w + 1) mod of_nat N) = ring_list N d r w @ [c]"
  using ring_at_end [OF assms(1)] ring_at_inside [OF assms(1)]
  by (simp add: ring_list_def ring_put_len [OF assms])

lemma ring_take:
  assumes "ring_ok N r w" "r \<noteq> w"
  shows "ring_list N d r w = d (unat r) # ring_list N d ((r + 1) mod of_nat N) w"
proof -
  have n: "1 < N" "N < 2 ^ 31" "unat r < N" using assms(1) by (auto simp: ring_ok_def)
  have e: "(unat r + Suc k) mod N = (unat ((r + 1) mod of_nat N :: u32) + k) mod N" for k
  proof (cases "unat r + 1 = N")
    case True
    then have "unat r + Suc k = k + N" by simp
    then have "(unat r + Suc k) mod N = k mod N" by (simp only: mod_add_self2)
    then show ?thesis using True ring_next [OF n] by simp
  qed (use ring_next [OF n] in simp)
  have "ring_list N d r w = d (unat r mod N) # map (\<lambda>k. d ((unat r + Suc k) mod N)) [0..<ring_len N ((r + 1) mod of_nat N) w]"
    by (simp add: ring_list_def ring_take_len [OF assms] upt_conv_Cons map_Suc_upt [symmetric] del: upt_Suc)
  then show ?thesis using n unfolding e by (simp add: ring_list_def)
qed

section \<open>First in, first out\<close>

text \<open>
  What a bounded queue promises: \<open>put\<close> appends while there is room, \<open>get\<close> removes the
  oldest item while there is one.
\<close>

locale fifo =
  fixes wf :: "'q \<Rightarrow> bool"
    and items :: "'q \<Rightarrow> 'a list"
    and cap :: nat
    and full :: "'q \<Rightarrow> bool"
    and empty :: "'q \<Rightarrow> bool"
    and put :: "'a \<Rightarrow> 'q \<Rightarrow> 'q"
    and get :: "'q \<Rightarrow> 'a"
    and drop_one :: "'q \<Rightarrow> 'q"
  assumes wf_cap: "wf q \<Longrightarrow> length (items q) \<le> cap"
    and full_iff: "wf q \<Longrightarrow> full q \<longleftrightarrow> length (items q) = cap"
    and empty_iff: "wf q \<Longrightarrow> empty q \<longleftrightarrow> items q = []"
    and put_ok: "wf q \<Longrightarrow> \<not> full q \<Longrightarrow> wf (put c q) \<and> items (put c q) = items q @ [c]"
    and get_ok: "wf q \<Longrightarrow> \<not> empty q \<Longrightarrow> wf (drop_one q) \<and> items q = get q # items (drop_one q)"
begin

text \<open>\<open>Some c\<close> puts \<open>c\<close> (nothing happens on a full queue), \<open>None\<close> takes an item (nothing from an empty one).\<close>

fun run :: "'a option list \<Rightarrow> 'q \<Rightarrow> 'a list \<times> 'a list \<times> 'q" where
  "run [] q = ([], [], q)"
| "run (Some c # os) q =
     (if full q then run os q else let (ins, outs, q') = run os (put c q) in (c # ins, outs, q'))"
| "run (None # os) q =
     (if empty q then run os q else let (ins, outs, q') = run os (drop_one q) in (ins, get q # outs, q'))"

lemma run_fifo:
  "wf q \<Longrightarrow> run os q = (ins, outs, q') \<Longrightarrow> wf q' \<and> items q @ ins = outs @ items q'"
proof (induction os q arbitrary: ins outs q' rule: run.induct)
  case (2 c os q)
  then show ?case using put_ok [of q c] by (auto split: if_splits prod.splits)
next
  case (3 os q)
  then show ?case using get_ok [of q] by (auto split: if_splits prod.splits)
qed auto

lemma takes_all:
  assumes "wf q"
  shows "\<exists>q'. run (replicate (length (items q)) None) q = ([], items q, q') \<and> items q' = []"
  using assms
proof (induction "items q" arbitrary: q)
  case Nil
  then show ?case by (metis length_0_conv list.size(3) replicate_0 run.simps(1))
next
  case (Cons x xs)
  then have ne: "\<not> empty q" using empty_iff by auto
  note g = get_ok [OF Cons.prems ne]
  then have xs: "items (drop_one q) = xs" "get q = x" using Cons.hyps(2) by auto
  then obtain q' where q': "run (replicate (length xs) None) (drop_one q) = ([], xs, q')" "items q' = []"
    using Cons.hyps(1) [of "drop_one q"] g by auto
  have "run (replicate (length (items q)) None) q = ([], items q, q')"
    unfolding Cons.hyps(2) [symmetric] using ne xs q' by simp
  then show ?case using q'(2) by blast
qed

end

end
