(* ===== verification/Uart.thy ===== *)
theory Uart
  imports Inode Ring
begin

text \<open>
  The serial port \<^verbatim>\<open>kernel/dev/uart.c\<close> and the kernel's formatted output
  \<^verbatim>\<open>kernel/printk.c\<close>.

  The device is a model of the 16550 registers the driver uses: a byte written to
  \<^verbatim>\<open>THR\<close> is appended to what was sent, the transmitter accepts \<open>u_room\<close> more bytes
  before \<^verbatim>\<open>LSR_TX_IDLE\<close> goes off, and the bytes received wait in \<open>u_in\<close>. The
  busy-wait of \<^verbatim>\<open>uart_putc_sync\<close> ends because the transmitter drains. A routine
  that finds \<^verbatim>\<open>panicked\<close> set never returns (outcome \<open>Spin\<close>). The arguments of
  \<^verbatim>\<open>printk\<close> are a list; taking one that is missing or of the wrong kind is undefined in
  C and gives \<open>None\<close>.
\<close>

section \<open>Definitions\<close>

definition IER_RX_ENABLE :: u8 where "IER_RX_ENABLE = 1"
definition IER_TX_ENABLE :: u8 where "IER_TX_ENABLE = 2"
definition FCR_FIFO_ENABLE :: u8 where "FCR_FIFO_ENABLE = 1"
definition FCR_FIFO_CLEAR :: u8 where "FCR_FIFO_CLEAR = 6"
definition LCR_EIGHT_BITS :: u8 where "LCR_EIGHT_BITS = 3"
definition LCR_BAUD_LATCH :: u8 where "LCR_BAUD_LATCH = 0x80"
definition LSR_RX_READY :: u8 where "LSR_RX_READY = 1"
definition LSR_TX_IDLE :: u8 where "LSR_TX_IDLE = 0x20"
definition UART_TX_BUF_SIZE :: nat where "UART_TX_BUF_SIZE = 32"
definition INPUT_SIZE :: nat where "INPUT_SIZE = 128"
definition BACKSPACE :: int where "BACKSPACE = 0x100"

record uart_dev =
  u_ier :: u8
  u_fcr :: u8
  u_lcr :: u8
  u_dll :: u8
  u_dlm :: u8
  u_in :: "u8 list"
  u_out :: "u8 list"
  u_room :: nat

record uart_tx =
  tx_r :: u32
  tx_w :: u32
  tx_buf :: "nat \<Rightarrow> u8"

record console =
  cons_buf :: "nat \<Rightarrow> u8"
  cons_r :: u32
  cons_w :: u32
  cons_e :: u32

record kdev = kino +
  uart :: uart_dev
  tx :: uart_tx
  cons :: console
  panicked :: bool
  ticks :: u64
  mtime :: u64
  timer_cmp :: "nat \<Rightarrow> u64"

subsection \<open>Registers\<close>

definition dlab :: "uart_dev \<Rightarrow> bool" where
  "dlab u \<longleftrightarrow> u_lcr u AND LCR_BAUD_LATCH \<noteq> 0"

definition uart_write_reg :: "nat \<Rightarrow> u8 \<Rightarrow> ('z kdev_scheme, unit) kernel" where
  "uart_write_reg r v = modK (\<lambda>s. s\<lparr>uart := (let u = uart s in
     if r = 0 then (if dlab u then u\<lparr>u_dll := v\<rparr> else u\<lparr>u_out := u_out u @ [v], u_room := u_room u - 1\<rparr>)
     else if r = 1 then (if dlab u then u\<lparr>u_dlm := v\<rparr> else u\<lparr>u_ier := v\<rparr>)
     else if r = 2 then u\<lparr>u_fcr := v\<rparr>
     else if r = 3 then u\<lparr>u_lcr := v\<rparr>
     else u)\<rparr>)"

definition uart_lsr :: "uart_dev \<Rightarrow> u8" where
  "uart_lsr u = (if u_in u \<noteq> [] then LSR_RX_READY else 0) OR (if 0 < u_room u then LSR_TX_IDLE else 0)"

definition upd_tx :: "(uart_tx \<Rightarrow> uart_tx) \<Rightarrow> ('z kdev_scheme, unit) kernel" where
  "upd_tx f = modK (\<lambda>s. s\<lparr>tx := f (tx s)\<rparr>)"

subsection \<open>The transmit buffer\<close>

definition tx_full :: "uart_tx \<Rightarrow> bool" where
  "tx_full t \<longleftrightarrow> (tx_w t + 1) mod of_nat UART_TX_BUF_SIZE = tx_r t"

definition tx_empty :: "uart_tx \<Rightarrow> bool" where
  "tx_empty t \<longleftrightarrow> tx_w t = tx_r t"

definition tx_put :: "u8 \<Rightarrow> uart_tx \<Rightarrow> uart_tx" where
  "tx_put c t = t\<lparr>tx_buf := (tx_buf t)(unat (tx_w t) := c), tx_w := (tx_w t + 1) mod of_nat UART_TX_BUF_SIZE\<rparr>"

definition tx_get :: "uart_tx \<Rightarrow> u8" where
  "tx_get t = tx_buf t (unat (tx_r t))"

definition tx_drop :: "uart_tx \<Rightarrow> uart_tx" where
  "tx_drop t = t\<lparr>tx_r := (tx_r t + 1) mod of_nat UART_TX_BUF_SIZE\<rparr>"

fun uart_start :: "nat \<Rightarrow> ('z kdev_scheme, unit) kernel" where
  "uart_start 0 = (\<lambda>s. NoFuel)"
| "uart_start (Suc fuel) =
     bindK (getK (\<lambda>s. (tx s, uart_lsr (uart s)))) (\<lambda>(t, lsr).
     if tx_empty t then retK ()
     else if lsr AND LSR_TX_IDLE = 0 then retK ()
     else seqK [
       upd_tx tx_drop,
       wake_up Ch_tx_r,
       uart_write_reg 0 (tx_get t),
       uart_start fuel])"

definition uart_init :: "('z kdev_scheme, unit) kernel" where
  "uart_init = seqK [
     uart_write_reg 1 0,
     uart_write_reg 3 LCR_BAUD_LATCH,
     uart_write_reg 0 3,
     uart_write_reg 1 0,
     uart_write_reg 3 LCR_EIGHT_BITS,
     uart_write_reg 2 (FCR_FIFO_CLEAR OR FCR_FIFO_ENABLE),
     uart_write_reg 1 (LSR_RX_READY OR LSR_TX_IDLE),
     spin_lock_init L_tx ''uart'']"

definition uart_drain :: "('z kdev_scheme, unit) kernel" where
  "uart_drain = modK (\<lambda>s. s\<lparr>uart := (uart s)\<lparr>u_room := max 1 (u_room (uart s))\<rparr>\<rparr>)"

definition uart_putc_sync :: "int \<Rightarrow> ('z kdev_scheme, unit) kernel" where
  "uart_putc_sync c =
     thenK push_off (
     bindK (getK panicked) (\<lambda>p.
     if p then (\<lambda>s. Spin) else seqK [
       uart_drain,
       uart_write_reg 0 (of_int c),
       pop_off]))"

definition uart_putc :: "int \<Rightarrow> ('z kdev_scheme, unit) kernel" where
  "uart_putc c =
     thenK (spin_lock_acquire L_tx) (
     bindK (getK (\<lambda>s. (panicked s, tx s))) (\<lambda>(p, t).
     if p then (\<lambda>s. Spin)
     else if tx_full t then sleep_on Ch_tx_r L_tx
     else seqK [
       upd_tx (tx_put (of_int c)),
       uart_start UART_TX_BUF_SIZE,
       spin_lock_release L_tx]))"

definition uart_getc :: "('z kdev_scheme, int) kernel" where
  "uart_getc =
     bindK (getK uart) (\<lambda>u.
     if uart_lsr u AND LSR_RX_READY \<noteq> 0
     then thenK (modK (\<lambda>s. s\<lparr>uart := u\<lparr>u_in := tl (u_in u)\<rparr>\<rparr>)) (retK (uint (hd (u_in u))))
     else retK (-1))"

subsection \<open>Characters and numbers\<close>

definition console_putc :: "int \<Rightarrow> ('z kdev_scheme, unit) kernel" where
  "console_putc c =
     (if c = BACKSPACE then seqK [uart_putc_sync 8, uart_putc_sync 32, uart_putc_sync 8]
      else uart_putc_sync c)"

definition console_puts :: "u8 list \<Rightarrow> ('z kdev_scheme, unit) kernel" where
  "console_puts str = forK (map uint str) console_putc"

definition digits :: "nat \<Rightarrow> u8" where
  "digits d = of_nat (if d < 10 then 48 + d else 87 + d)"

text \<open>
  The \<^verbatim>\<open>do\<close> loop of \<^verbatim>\<open>print_int\<close> and \<^verbatim>\<open>print_ptr\<close>: fill \<open>buf\<close> downwards
  from \<open>pos\<close>; \<open>None\<close> when the number does not fit.
\<close>

fun print_digits :: "nat \<Rightarrow> nat \<Rightarrow> nat \<Rightarrow> (nat \<Rightarrow> u8) \<Rightarrow> (nat \<times> (nat \<Rightarrow> u8)) option" where
  "print_digits base x 0 buf = None"
| "print_digits base x (Suc pos) buf =
     (let buf = buf(pos := digits (x mod base)); x = x div base in
      if x > 0 then print_digits base x pos buf else Some (pos, buf))"

definition digits_out :: "nat \<Rightarrow> nat \<Rightarrow> u8 list option" where
  "digits_out base x =
     map_option (\<lambda>(pos, buf). map buf [pos..<32]) (print_digits base x 32 (\<lambda>_. 0))"

definition print_ptr :: "u64 \<Rightarrow> u8 list option" where
  "print_ptr x = map_option (\<lambda>ds. [48, 120] @ ds) (digits_out 16 (unat x))"

definition print_int :: "u64 \<Rightarrow> nat \<Rightarrow> bool \<Rightarrow> u8 list option" where
  "print_int x base sg =
     (let is_negative = (sg \<and> sint x < 0);
          x = (if is_negative then - x else x) in
      map_option (\<lambda>ds. (if is_negative then [45] else []) @ ds) (digits_out base (unat x)))"

subsection \<open>Formatted output\<close>

datatype parg = P_int u64 | P_str "u8 list option"

text \<open>
  The inner loop: skip the \<^verbatim>\<open>l\<close> modifiers (counting them) and give the conversion
  character and the rest of the format, or \<open>None\<close> when there is no valid one.
\<close>

fun fmt_spec :: "nat \<Rightarrow> u8 list \<Rightarrow> (u8 \<times> nat \<times> u8 list) option" where
  "fmt_spec l [] = None"
| "fmt_spec l (c # cs) =
     (if c = 108 then fmt_spec (l + 1) cs
      else if c \<in> {100, 117, 120, 112, 115, 99, 37} then Some (c, l, cs)
      else None)"

definition int_arg :: "u8 \<Rightarrow> nat \<Rightarrow> u64 \<Rightarrow> u64" where
  "int_arg c l x =
     (if l > 0 then x else if c = 100 then scast (ucast x :: u32) else ucast (ucast x :: u32))"

definition fmt_conv :: "u8 \<Rightarrow> nat \<Rightarrow> parg list \<Rightarrow> (int list \<times> parg list) option" where
  "fmt_conv c l args =
     (if c = 37 then Some ([37], args) else
      case args of
        P_int x # rest \<Rightarrow>
          if c = 115 then None
          else if c = 99 then Some ([sint (ucast x :: u32)], rest)
          else if c = 112 then map_option (\<lambda>ds. (map uint ds, rest)) (print_ptr x)
          else map_option (\<lambda>ds. (map uint ds, rest)) (print_int (int_arg c l x) (if c = 120 then 16 else 10) (c = 100))
      | P_str str # rest \<Rightarrow>
          if c = 115 then Some (map uint (case str of None \<Rightarrow> [40, 110, 117, 108, 108, 41] | Some cs \<Rightarrow> cs), rest)
          else None
      | [] \<Rightarrow> None)"

lemma fmt_spec_length: "fmt_spec l cs = Some (c, l', rest) \<Longrightarrow> length rest < length cs"
  by (induction l cs rule: fmt_spec.induct) (auto split: if_splits)

function printk_out :: "u8 list \<Rightarrow> parg list \<Rightarrow> int list option" where
  "printk_out [] args = Some []"
| "printk_out (c # cs) args =
     (if c \<noteq> 37 then map_option ((#) (uint c)) (printk_out cs args) else
      case fmt_spec 0 cs of
        None \<Rightarrow> map_option ((#) 37) (printk_out cs args)
      | Some (d, l, rest) \<Rightarrow>
          (case fmt_conv d l args of
             None \<Rightarrow> None
           | Some (ds, args) \<Rightarrow> map_option ((@) ds) (printk_out rest args)))"
  by pat_completeness auto
termination
  by (relation "measure (\<lambda>(fmt, _). length fmt)") (auto dest: fmt_spec_length)

definition printk_init :: "('z kdev_scheme, unit) kernel" where
  "printk_init = spin_lock_init L_printk ''printk''"

definition printk :: "u8 list \<Rightarrow> parg list \<Rightarrow> ('z kdev_scheme, unit) kernel" where
  "printk fmt args =
     (case printk_out fmt args of
        None \<Rightarrow> panicK ''va_arg''
      | Some cs \<Rightarrow> seqK [
          spin_lock_acquire L_printk,
          forK cs console_putc,
          spin_lock_release L_printk])"

section \<open>Frame\<close>

lemma uart_frame [simp, quiet_simps]:
  "hart_ok (uart_update f s) = hart_ok s"
  "avail (uart_update f s) L = avail s L"
  "holds (uart_update f s) L = holds s L"
  "quiet (uart_update f s) = quiet s"
  "procs_avail (uart_update f s) = procs_avail s"
  "cur_proc (uart_update f s) = cur_proc s"
  "no_sleeper (uart_update f s) = no_sleeper s"
  "calm (uart_update f s) = calm s"
  "n_off (current_cpu (uart_update f s)) = n_off (current_cpu s)"
  "intr_ena (current_cpu (uart_update f s)) = intr_ena (current_cpu s)"
  "grab L (uart_update f s) = uart_update f (grab L s)"
  "ungrab L (uart_update f s) = uart_update f (ungrab L s)"
  "setp c (uart_update f s) = uart_update f (setp c s)"
  "uart (grab L s) = uart s" "uart (ungrab L s) = uart s" "uart (setp c s) = uart s"
  "pool (uart_update f s) ps = pool s ps"
  by (simp_all add: procs_avail_def avail_def holds_def quiet_def cur_proc_def lock_free_def calm_def
      spin_lock_holding_def grab_def ungrab_def setp_def hart_defs no_sleeper_def pool_def fun_eq_iff Let_def)

lemma uart_swap [simp]:
  "procs_update gpr (uart_update f s) = uart_update f (procs_update gpr s)"
  "sleeps_update gsl (uart_update f s) = uart_update f (sleeps_update gsl s)"
  "mem_update gme (uart_update f s) = uart_update f (mem_update gme s)"
  "free_head_update gfr (uart_update f s) = uart_update f (free_head_update gfr s)"
  "bc_update gbc (uart_update f s) = uart_update f (bc_update gbc s)"
  "lg_update glg (uart_update f s) = uart_update f (lg_update glg s)"
  "sb_update gsb (uart_update f s) = uart_update f (sb_update gsb s)"
  "itable_update git (uart_update f s) = uart_update f (itable_update git s)"
  by (cases s; simp)+

lemma tx_frame [simp, quiet_simps]:
  "hart_ok (tx_update f s) = hart_ok s"
  "avail (tx_update f s) L = avail s L"
  "holds (tx_update f s) L = holds s L"
  "quiet (tx_update f s) = quiet s"
  "procs_avail (tx_update f s) = procs_avail s"
  "cur_proc (tx_update f s) = cur_proc s"
  "no_sleeper (tx_update f s) = no_sleeper s"
  "calm (tx_update f s) = calm s"
  "n_off (current_cpu (tx_update f s)) = n_off (current_cpu s)"
  "intr_ena (current_cpu (tx_update f s)) = intr_ena (current_cpu s)"
  "grab L (tx_update f s) = tx_update f (grab L s)"
  "ungrab L (tx_update f s) = tx_update f (ungrab L s)"
  "setp c (tx_update f s) = tx_update f (setp c s)"
  "tx (grab L s) = tx s" "tx (ungrab L s) = tx s" "tx (setp c s) = tx s"
  "pool (tx_update f s) ps = pool s ps"
  by (simp_all add: procs_avail_def avail_def holds_def quiet_def cur_proc_def lock_free_def calm_def
      spin_lock_holding_def grab_def ungrab_def setp_def hart_defs no_sleeper_def pool_def fun_eq_iff Let_def)

lemma tx_swap [simp]:
  "procs_update gpr (tx_update f s) = tx_update f (procs_update gpr s)"
  "sleeps_update gsl (tx_update f s) = tx_update f (sleeps_update gsl s)"
  "mem_update gme (tx_update f s) = tx_update f (mem_update gme s)"
  "free_head_update gfr (tx_update f s) = tx_update f (free_head_update gfr s)"
  "bc_update gbc (tx_update f s) = tx_update f (bc_update gbc s)"
  "lg_update glg (tx_update f s) = tx_update f (lg_update glg s)"
  "sb_update gsb (tx_update f s) = tx_update f (sb_update gsb s)"
  "itable_update git (tx_update f s) = tx_update f (itable_update git s)"
  "uart_update gua (tx_update f s) = tx_update f (uart_update gua s)"
  by (cases s; simp)+

lemma cons_frame [simp, quiet_simps]:
  "hart_ok (cons_update f s) = hart_ok s"
  "avail (cons_update f s) L = avail s L"
  "holds (cons_update f s) L = holds s L"
  "quiet (cons_update f s) = quiet s"
  "procs_avail (cons_update f s) = procs_avail s"
  "cur_proc (cons_update f s) = cur_proc s"
  "no_sleeper (cons_update f s) = no_sleeper s"
  "calm (cons_update f s) = calm s"
  "n_off (current_cpu (cons_update f s)) = n_off (current_cpu s)"
  "intr_ena (current_cpu (cons_update f s)) = intr_ena (current_cpu s)"
  "grab L (cons_update f s) = cons_update f (grab L s)"
  "ungrab L (cons_update f s) = cons_update f (ungrab L s)"
  "setp c (cons_update f s) = cons_update f (setp c s)"
  "cons (grab L s) = cons s" "cons (ungrab L s) = cons s" "cons (setp c s) = cons s"
  "pool (cons_update f s) ps = pool s ps"
  by (simp_all add: procs_avail_def avail_def holds_def quiet_def cur_proc_def lock_free_def calm_def
      spin_lock_holding_def grab_def ungrab_def setp_def hart_defs no_sleeper_def pool_def fun_eq_iff Let_def)

lemma cons_swap [simp]:
  "procs_update gpr (cons_update f s) = cons_update f (procs_update gpr s)"
  "sleeps_update gsl (cons_update f s) = cons_update f (sleeps_update gsl s)"
  "mem_update gme (cons_update f s) = cons_update f (mem_update gme s)"
  "free_head_update gfr (cons_update f s) = cons_update f (free_head_update gfr s)"
  "bc_update gbc (cons_update f s) = cons_update f (bc_update gbc s)"
  "lg_update glg (cons_update f s) = cons_update f (lg_update glg s)"
  "sb_update gsb (cons_update f s) = cons_update f (sb_update gsb s)"
  "itable_update git (cons_update f s) = cons_update f (itable_update git s)"
  "uart_update gua (cons_update f s) = cons_update f (uart_update gua s)"
  "tx_update gtx (cons_update f s) = cons_update f (tx_update gtx s)"
  by (cases s; simp)+

lemma panicked_frame [simp, quiet_simps]:
  "hart_ok (panicked_update f s) = hart_ok s"
  "avail (panicked_update f s) L = avail s L"
  "holds (panicked_update f s) L = holds s L"
  "quiet (panicked_update f s) = quiet s"
  "procs_avail (panicked_update f s) = procs_avail s"
  "cur_proc (panicked_update f s) = cur_proc s"
  "no_sleeper (panicked_update f s) = no_sleeper s"
  "calm (panicked_update f s) = calm s"
  "n_off (current_cpu (panicked_update f s)) = n_off (current_cpu s)"
  "intr_ena (current_cpu (panicked_update f s)) = intr_ena (current_cpu s)"
  "grab L (panicked_update f s) = panicked_update f (grab L s)"
  "ungrab L (panicked_update f s) = panicked_update f (ungrab L s)"
  "setp c (panicked_update f s) = panicked_update f (setp c s)"
  "panicked (grab L s) = panicked s" "panicked (ungrab L s) = panicked s" "panicked (setp c s) = panicked s"
  "pool (panicked_update f s) ps = pool s ps"
  by (simp_all add: procs_avail_def avail_def holds_def quiet_def cur_proc_def lock_free_def calm_def
      spin_lock_holding_def grab_def ungrab_def setp_def hart_defs no_sleeper_def pool_def fun_eq_iff Let_def)

lemma panicked_swap [simp]:
  "procs_update gpr (panicked_update f s) = panicked_update f (procs_update gpr s)"
  "sleeps_update gsl (panicked_update f s) = panicked_update f (sleeps_update gsl s)"
  "mem_update gme (panicked_update f s) = panicked_update f (mem_update gme s)"
  "free_head_update gfr (panicked_update f s) = panicked_update f (free_head_update gfr s)"
  "bc_update gbc (panicked_update f s) = panicked_update f (bc_update gbc s)"
  "lg_update glg (panicked_update f s) = panicked_update f (lg_update glg s)"
  "sb_update gsb (panicked_update f s) = panicked_update f (sb_update gsb s)"
  "itable_update git (panicked_update f s) = panicked_update f (itable_update git s)"
  "uart_update gua (panicked_update f s) = panicked_update f (uart_update gua s)"
  "tx_update gtx (panicked_update f s) = panicked_update f (tx_update gtx s)"
  "cons_update gco (panicked_update f s) = panicked_update f (cons_update gco s)"
  by (cases s; simp)+

lemma ticks_frame [simp, quiet_simps]:
  "hart_ok (ticks_update f s) = hart_ok s"
  "avail (ticks_update f s) L = avail s L"
  "holds (ticks_update f s) L = holds s L"
  "quiet (ticks_update f s) = quiet s"
  "procs_avail (ticks_update f s) = procs_avail s"
  "cur_proc (ticks_update f s) = cur_proc s"
  "no_sleeper (ticks_update f s) = no_sleeper s"
  "calm (ticks_update f s) = calm s"
  "n_off (current_cpu (ticks_update f s)) = n_off (current_cpu s)"
  "intr_ena (current_cpu (ticks_update f s)) = intr_ena (current_cpu s)"
  "grab L (ticks_update f s) = ticks_update f (grab L s)"
  "ungrab L (ticks_update f s) = ticks_update f (ungrab L s)"
  "setp c (ticks_update f s) = ticks_update f (setp c s)"
  "ticks (grab L s) = ticks s" "ticks (ungrab L s) = ticks s" "ticks (setp c s) = ticks s"
  "pool (ticks_update f s) ps = pool s ps"
  by (simp_all add: procs_avail_def avail_def holds_def quiet_def cur_proc_def lock_free_def calm_def
      spin_lock_holding_def grab_def ungrab_def setp_def hart_defs no_sleeper_def pool_def fun_eq_iff Let_def)

lemma ticks_swap [simp]:
  "procs_update gpr (ticks_update f s) = ticks_update f (procs_update gpr s)"
  "sleeps_update gsl (ticks_update f s) = ticks_update f (sleeps_update gsl s)"
  "mem_update gme (ticks_update f s) = ticks_update f (mem_update gme s)"
  "free_head_update gfr (ticks_update f s) = ticks_update f (free_head_update gfr s)"
  "bc_update gbc (ticks_update f s) = ticks_update f (bc_update gbc s)"
  "lg_update glg (ticks_update f s) = ticks_update f (lg_update glg s)"
  "sb_update gsb (ticks_update f s) = ticks_update f (sb_update gsb s)"
  "itable_update git (ticks_update f s) = ticks_update f (itable_update git s)"
  "uart_update gua (ticks_update f s) = ticks_update f (uart_update gua s)"
  "tx_update gtx (ticks_update f s) = ticks_update f (tx_update gtx s)"
  "cons_update gco (ticks_update f s) = ticks_update f (cons_update gco s)"
  "panicked_update gpa (ticks_update f s) = ticks_update f (panicked_update gpa s)"
  by (cases s; simp)+

section \<open>The transmit queue\<close>

definition tx_ok :: "uart_tx \<Rightarrow> bool" where
  "tx_ok t \<longleftrightarrow> ring_ok UART_TX_BUF_SIZE (tx_r t) (tx_w t)"

definition tx_items :: "uart_tx \<Rightarrow> u8 list" where
  "tx_items t = ring_list UART_TX_BUF_SIZE (tx_buf t) (tx_r t) (tx_w t)"

interpretation txq: fifo tx_ok tx_items "UART_TX_BUF_SIZE - 1" tx_full tx_empty tx_put tx_get tx_drop
proof (unfold_locales, goal_cases)
  case (1 q)
  then show ?case using ring_len_less [of UART_TX_BUF_SIZE "tx_r q" "tx_w q"] by (simp add: tx_ok_def tx_items_def)
next
  case (2 q) then show ?case by (simp add: tx_ok_def tx_items_def tx_full_def ring_full)
next
  case (3 q) then show ?case by (auto simp: tx_ok_def tx_items_def tx_empty_def ring_empty)
next
  case (4 q c)
  then show ?case
    by (simp add: tx_ok_def tx_items_def tx_put_def tx_full_def ring_next_ok ring_put)
next
  case (5 q)
  then have "tx_r q \<noteq> tx_w q" by (simp add: tx_empty_def)
  then show ?case using 5(1) ring_take [of UART_TX_BUF_SIZE "tx_r q" "tx_w q" "tx_buf q"]
    by (simp add: tx_ok_def tx_items_def tx_get_def tx_drop_def ring_next_ok)
qed

lemma lsr_bits: "(uart_lsr u AND LSR_TX_IDLE = 0) = (u_room u = 0)" "(uart_lsr u AND LSR_RX_READY = 0) = (u_in u = [])"
  by (simp_all add: uart_lsr_def LSR_RX_READY_def LSR_TX_IDLE_def)

lemma upd_tx_apply [simp]: "upd_tx f s = Ret () (s\<lparr>tx := f (tx s)\<rparr>)"
  by (simp add: upd_tx_def)

text \<open>What a call of \<^verbatim>\<open>uart_start\<close> does to the device: send the first \<open>k\<close> bytes of the queue.\<close>

definition sent :: "u8 list \<Rightarrow> uart_dev \<Rightarrow> uart_dev" where
  "sent cs u = u\<lparr>u_out := u_out u @ cs, u_room := u_room u - length cs\<rparr>"

lemma sent_simps [simp]: "sent [] u = u" "sent ds (sent cs u) = sent (cs @ ds) u" "u_out (sent cs u) = u_out u @ cs"
  "dlab (sent cs u) = dlab u" "u_room (sent cs u) = u_room u - length cs"
  by (cases u; simp add: sent_def dlab_def)+

lemma woken_twice [simp]: "woken rp ch (woken rp ch ps) = woken rp ch ps"
  by (auto simp: woken_def fun_eq_iff)

definition tx_step :: "'z kdev_scheme \<Rightarrow> 'z kdev_scheme \<Rightarrow> bool" where
  "tx_step s t \<longleftrightarrow> (\<exists>ps cs q. t = s\<lparr>procs := ps, uart := sent cs (uart s), tx := q\<rparr> \<and>
     (ps = procs s \<or> ps = woken (cur_proc s) Ch_tx_r (procs s)))"

lemma uart_start_ok:
  assumes "procs_avail s" "tx_ok (tx s)" "\<not> dlab (uart s)" "length (tx_items (tx s)) < fuel"
  shows "\<exists>ps q k. uart_start fuel s = Ret () (s\<lparr>procs := ps, uart := sent (take k (tx_items (tx s))) (uart s), tx := q\<rparr>) \<and>
    k = u_room (uart s) \<and> tx_ok q \<and> tx_items q = drop k (tx_items (tx s)) \<and>
    (ps = procs s \<or> ps = woken (cur_proc s) Ch_tx_r (procs s))"
  using assms
proof (induction fuel arbitrary: s)
  case (Suc fuel)
  show ?case
  proof (cases "tx_empty (tx s) \<or> u_room (uart s) = 0")
    case True
    let ?k = "u_room (uart s)" and ?i = "tx_items (tx s)"
    have st: "uart_start (Suc fuel) s = Ret () s" using True by (auto simp: lsr_bits)
    have id: "s\<lparr>procs := procs s, uart := uart s, tx := tx s\<rparr> = s" by (cases s) simp
    have tk: "take ?k ?i = []" "drop ?k ?i = ?i" using True txq.empty_iff [OF Suc.prems(2)] by auto
    have "uart_start (Suc fuel) s = Ret () (s\<lparr>procs := procs s, uart := sent (take ?k ?i) (uart s), tx := tx s\<rparr>)"
      by (simp only: st tk id sent_simps)
    then show ?thesis using Suc.prems(2) tk(2)
      by (intro exI [of _ "procs s"] exI [of _ "tx s"] exI [of _ ?k] conjI disjI1) (simp_all only:)
  next
    case False
    let ?c = "tx_get (tx s)" and ?q = "tx_drop (tx s)" and ?w = "woken (cur_proc s) Ch_tx_r (procs s)"
    define s1 where "s1 = s\<lparr>procs := ?w, uart := sent [?c] (uart s), tx := ?q\<rparr>"
    have q: "tx_ok ?q" "tx_items (tx s) = ?c # tx_items ?q" using txq.get_ok [OF Suc.prems(2)] False by auto
    have st: "uart_start (Suc fuel) s = uart_start fuel s1"
      using False Suc.prems(1,3) by (simp add: lsr_bits uart_write_reg_def Let_def s1_def sent_def)
    obtain ps r k where r: "uart_start fuel s1 = Ret () (s1\<lparr>procs := ps, uart := sent (take k (tx_items (tx s1))) (uart s1), tx := r\<rparr>)"
      "k = u_room (uart s1)" "tx_ok r" "tx_items r = drop k (tx_items (tx s1))"
      "ps = procs s1 \<or> ps = woken (cur_proc s1) Ch_tx_r (procs s1)"
      using Suc.IH [of s1] Suc.prems q by (simp add: s1_def) blast
    have k: "Suc k = u_room (uart s)" using r(2) False by (simp add: s1_def)
    have e: "s1\<lparr>procs := ps, uart := sent (take k (tx_items (tx s1))) (uart s1), tx := r\<rparr> =
      s\<lparr>procs := ps, uart := sent (take (Suc k) (tx_items (tx s))) (uart s), tx := r\<rparr>"
      by (simp add: s1_def q(2))
    have "tx_items r = drop (Suc k) (tx_items (tx s))" using r(4) by (simp add: q(2) s1_def)
    moreover have "ps = procs s \<or> ps = ?w" using r(5) by (simp add: s1_def)
    ultimately show ?thesis using st r(1,3) k unfolding e
      by (intro exI [of _ ps] exI [of _ r] exI [of _ "Suc k"] conjI) (simp_all only:)
  qed
qed simp

lemma uart_putc_room:
  assumes "avail s L_tx" "procs_avail s" "\<not> panicked s" "\<not> dlab (uart s)" "tx_ok (tx s)" "\<not> tx_full (tx s)"
  shows "\<exists>t. uart_putc c s = Ret () t \<and> tx_step s t \<and> tx_ok (tx t) \<and>
    u_out (uart t) @ tx_items (tx t) = u_out (uart s) @ tx_items (tx s) @ [of_int c] \<and>
    (u_room (uart s) = 0 \<or> length (tx_items (tx t)) < length (tx_items (tx s)) + 1)"
proof -
  let ?q = "tx_put (of_int c) (tx s)" and ?g = "(grab L_tx s)\<lparr>tx := tx_put (of_int c) (tx s)\<rparr>"
  note q = txq.put_ok [OF assms(5,6), of "of_int c"]
  have "length (tx_items ?q) < UART_TX_BUF_SIZE"
    using txq.wf_cap [of ?q] q by (simp add: UART_TX_BUF_SIZE_def)
  then obtain ps r k where r: "uart_start UART_TX_BUF_SIZE ?g = Ret () (?g\<lparr>procs := ps, uart := sent (take k (tx_items ?q)) (uart s), tx := r\<rparr>)"
    "k = u_room (uart s)" "tx_ok r" "tx_items r = drop k (tx_items ?q)"
    "ps = procs s \<or> ps = woken (cur_proc s) Ch_tx_r (procs s)"
    using uart_start_ok [of ?g UART_TX_BUF_SIZE] assms q by auto
  define t where "t = s\<lparr>procs := ps, uart := sent (take k (tx_items ?q)) (uart s), tx := r\<rparr>"
  have "uart_putc c s = Ret () t"
    using assms(1,3,6) r(1) by (simp add: uart_putc_def t_def)
  moreover have "tx_step s t" using r(5) unfolding tx_step_def t_def by blast
  moreover have i: "tx_items (tx t) = drop k (tx_items (tx s) @ [of_int c])" "tx_ok (tx t)"
    "u_out (uart t) = u_out (uart s) @ take k (tx_items (tx s) @ [of_int c])"
    using r(3,4) q by (simp_all add: t_def del: take_append drop_append)
  moreover have "u_out (uart t) @ tx_items (tx t) = u_out (uart s) @ tx_items (tx s) @ [of_int c]"
    unfolding i by (simp only: append_assoc append_take_drop_id)
  moreover have "u_room (uart s) = 0 \<or> length (tx_items (tx t)) < length (tx_items (tx s)) + 1"
    unfolding i r(2) by auto
  ultimately show ?thesis by blast
qed

lemma uart_putc_full:
  assumes "avail s L_tx" "avail s (L_proc p)" "cur_proc s = Some p" "\<not> panicked s" "tx_full (tx s)"
  shows "uart_putc c s =
    (if n_off (current_cpu s) = 0
     then Switch ((grab (L_proc p) s)\<lparr>procs := (procs s)(p := (procs s p)\<lparr>p_chan := Some Ch_tx_r, p_state := PROC_SLEEPING\<rparr>)\<rparr>)
     else Panic ''locked during scheduling'')"
proof -
  have "uart_putc c s = sleep_on Ch_tx_r L_tx (grab L_tx s)"
    using assms(1,4,5) by (simp add: uart_putc_def)
  also have "\<dots> = (if n_off (current_cpu (grab L_tx s)) = 1
     then Switch ((ungrab L_tx (grab (L_proc p) (grab L_tx s)))\<lparr>procs := (procs (grab L_tx s))(p := (procs (grab L_tx s) p)\<lparr>p_chan := Some Ch_tx_r, p_state := PROC_SLEEPING\<rparr>)\<rparr>)
     else Panic ''locked during scheduling'')"
    using assms by (intro sleep_on_ok) simp_all
  finally show ?thesis using ungrab_grab_other [OF assms(1), of "L_proc p"] by simp
qed

section \<open>Numbers\<close>

definition dval :: "u8 \<Rightarrow> nat" where
  "dval c = (if unat c < 58 then unat c - 48 else unat c - 87)"

definition num :: "nat \<Rightarrow> u8 list \<Rightarrow> nat" where
  "num base ds = foldl (\<lambda>a c. base * a + dval c) 0 ds"

lemma dval_digits: "d < 16 \<Longrightarrow> dval (digits d) = d"
  by (auto simp: dval_def digits_def unat_of_nat take_bit_nat_eq_self)

lemma num_snoc [simp]: "num base (ds @ [c]) = base * num base ds + dval c"
  by (simp add: num_def)

lemma print_digits_ok:
  assumes "2 \<le> base" "base \<le> 16" "x < base ^ pos" "0 < pos"
  shows "\<exists>q b. print_digits base x pos buf = Some (q, b) \<and> q < pos \<and> num base (map b [q..<pos]) = x \<and>
    (\<forall>j\<ge>pos. b j = buf j) \<and> (dval (b q) = 0 \<longrightarrow> x = 0 \<and> q + 1 = pos)"
  using assms(3,4)
proof (induction pos arbitrary: x buf)
  case (Suc pos)
  let ?b = "buf(pos := digits (x mod base))"
  have d: "dval (digits (x mod base)) = x mod base" using assms(1,2) mod_less_divisor [of base x] by (intro dval_digits) linarith
  show ?case
  proof (cases "x div base = 0")
    case True
    then have "x mod base = x" using assms(1) by (simp add: div_eq_0_iff)
    then show ?thesis using True d by (intro exI [of _ pos] exI [of _ ?b]) (auto simp: num_def)
  next
    case False
    then have "pos \<noteq> 0" using Suc.prems(1) by (cases pos) auto
    moreover have "x div base < base ^ pos" using Suc.prems(1) assms(1) by (simp add: less_mult_imp_div_less mult.commute)
    ultimately obtain q b where q: "print_digits base (x div base) pos ?b = Some (q, b)" "q < pos"
      "num base (map b [q..<pos]) = x div base" "\<forall>j\<ge>pos. b j = ?b j" "dval (b q) \<noteq> 0"
      using Suc.IH [of "x div base" ?b] False by (auto simp del: fun_upd_apply)
    have "num base (map b [q..<Suc pos]) = x" using q(2,3,4) d by simp
    then show ?thesis using q False by (intro exI [of _ q] exI [of _ b]) auto
  qed
qed simp

lemma digits_out_ok:
  assumes "2 \<le> base" "base \<le> 16" "x < 2 ^ 64" "2 ^ 64 \<le> base ^ n" "n < 32"
  shows "\<exists>ds. digits_out base x = Some ds \<and> ds \<noteq> [] \<and> length ds \<le> 32 \<and> num base ds = x \<and> (dval (hd ds) = 0 \<longrightarrow> x = 0 \<and> length ds = 1)"
proof -
  have "base ^ n \<le> base ^ 32" using assms by (intro power_increasing) auto
  then have "x < base ^ 32" using assms(3,4) by linarith
  then obtain q b where q: "print_digits base x 32 (\<lambda>_. 0) = Some (q, b)" "q < 32" "num base (map b [q..<32]) = x"
    "dval (b q) = 0 \<longrightarrow> x = 0 \<and> q + 1 = 32"
    using print_digits_ok [OF assms(1,2), of x 32 "\<lambda>_. 0"] by auto
  then show ?thesis by (intro exI [of _ "map b [q..<32]"]) (auto simp: digits_out_def hd_map)
qed

lemma sint_cases: "sint (x :: u64) = uint x - (if sint x < 0 then 2 ^ 64 else 0)"
proof -
  have "sint x = signed_take_bit 63 (uint x)" by (simp add: sint_uint)
  also have "\<dots> = take_bit 64 (uint x) - 2 ^ 64 * of_bool (bit (uint x) 63)"
    by (simp add: signed_take_bit_eq_take_bit_minus)
  also have "take_bit 64 (uint x) = uint x" using uint_bounded [of x] by (intro take_bit_int_eq_self) auto
  finally show ?thesis using bit_last_iff [of x] by (simp add: bit_uint_iff)
qed

lemma unat_neg:
  assumes "sint (x :: u64) < 0"
  shows "int (unat (- x)) = - sint x"
proof -
  have e: "sint x = uint x - 2 ^ 64" using sint_cases [of x] assms by simp
  have "uint x \<noteq> 0" using assms by (auto simp: uint_0_iff)
  then have "uint (- x) = 2 ^ 64 - uint x"
    using uint_nonnegative [of x] uint_bounded [of x] by (simp add: uint_word_ariths zmod_zminus1_eq_if)
  then show ?thesis using e by simp
qed

lemma sint_pos: "\<not> sint (x :: u64) < 0 \<Longrightarrow> int (unat x) = sint x"
  using sint_cases [of x] by simp

text \<open>A state with a quiet serial port and a console buffer that is empty at index \<open>k\<close>.\<close>

definition dev_ready :: "u32 \<Rightarrow> kdev" where
  "dev_ready k = kino.extend ino_ready (kdev.fields
     \<lparr>u_ier = 0, u_fcr = 0, u_lcr = 0, u_dll = 0, u_dlm = 0, u_in = [], u_out = [], u_room = 1\<rparr>
     \<lparr>tx_r = 0, tx_w = 0, tx_buf = \<lambda>_. 0\<rparr>
     \<lparr>cons_buf = \<lambda>_. 0, cons_r = k, cons_w = k, cons_e = k\<rparr> False 0 0 (\<lambda>_. 0))"

lemmas dev_start_defs = dev_ready_def ino_ready_def start_defs kino.defs kdev.defs

lemma dev_ready_ok: "calm (dev_ready k) 0" "tx (dev_ready k) = \<lparr>tx_r = 0, tx_w = 0, tx_buf = \<lambda>_. 0\<rparr>" "\<not> panicked (dev_ready k)"
  "cons (dev_ready k) = \<lparr>cons_buf = \<lambda>_. 0, cons_r = k, cons_w = k, cons_e = k\<rparr>"
  "uart (dev_ready k) = \<lparr>u_ier = 0, u_fcr = 0, u_lcr = 0, u_dll = 0, u_dlm = 0, u_in = [], u_out = [], u_room = 1\<rparr>"
  by (simp_all add: dev_start_defs)

section \<open>Properties\<close>



text \<open>
  C35. Numbers are printed in full. For both bases \<^verbatim>\<open>print_int\<close> fits its 32-byte
  buffer for every 64-bit value, including the most negative one, and the digits it prints
  stand for the value, with a sign and no leading zero.
\<close>

theorem print_int_value:
  assumes "base = 10 \<or> base = 16"
  shows "\<exists>ds. print_int x base sg = Some ((if sg \<and> sint x < 0 then [45] else []) @ ds) \<and> length ds \<le> 32 \<and>
    int (num base ds) = (if sg then \<bar>sint x\<bar> else uint x) \<and> (dval (hd ds) = 0 \<longrightarrow> x = 0 \<and> length ds = 1)"
proof -
  define y where "y = (if sg \<and> sint x < 0 then - x else x)"
  have y: "int (unat y) = (if sg then \<bar>sint x\<bar> else uint x)"
    using unat_neg [of x] sint_pos [of x] by (auto simp: y_def)
  have b: "2 \<le> base" "base \<le> 16" using assms by auto
  have p: "2 ^ 64 \<le> base ^ 20" using assms by auto
  have yl: "unat y < 2 ^ 64" using unsigned_less [of y] by simp
  obtain ds where ds: "digits_out base (unat y) = Some ds" "length ds \<le> 32" "num base ds = unat y"
    "dval (hd ds) = 0 \<longrightarrow> unat y = 0 \<and> length ds = 1"
    using digits_out_ok [OF b _ p, of "unat y"] yl by auto
  have "x = 0" if "unat y = 0" using that by (auto simp: y_def unat_eq_zero split: if_splits)
  then show ?thesis using ds y by (intro exI [of _ ds]) (auto simp: print_int_def Let_def y_def)
qed

theorem print_int_value_witness:
  "\<exists>ds. print_int (- 42) 10 True = Some ([45] @ ds) \<and> num 10 ds = 42"
proof -
  have "sint (- 42 :: u64) = - 42" by simp
  then show ?thesis using print_int_value [of 10 "- 42" True] by auto
qed

end
