(* ===== verification/Console.thy ===== *)
theory Console
  imports Uart
begin

text \<open>
  The console \<^verbatim>\<open>kernel/dev/console.c\<close>, the process listing and the receive interrupt of
  the serial port.

  A reader that has to wait leaves its routine at \<^verbatim>\<open>sleep_on\<close> (outcome \<open>Switch\<close>).
\<close>

section \<open>Definitions\<close>

definition upd_cons :: "(console \<Rightarrow> console) \<Rightarrow> ('z kdev_scheme, unit) kernel" where
  "upd_cons f = modK (\<lambda>s. s\<lparr>cons := f (cons s)\<rparr>)"

text \<open>The texts of \<^verbatim>\<open>proc_dump\<close>.\<close>

fun state_text :: "proc_state \<Rightarrow> u8 list" where
  "state_text PROC_USED = map (of_nat \<circ> of_char) ''used    ''"
| "state_text PROC_RUNNABLE = map (of_nat \<circ> of_char) ''runnable''"
| "state_text PROC_RUNNING = map (of_nat \<circ> of_char) ''running ''"
| "state_text PROC_SLEEPING = map (of_nat \<circ> of_char) ''sleeping''"
| "state_text PROC_ZOMBIE = map (of_nat \<circ> of_char) ''zombie  ''"
| "state_text PROC_UNUSED = map (of_nat \<circ> of_char) ''???     ''"

definition proc_name :: "process \<Rightarrow> u8 list" where
  "proc_name p = takeWhile (\<lambda>c. c \<noteq> 0) (map (p_name p) [0..<20])"

definition proc_dump :: "('z kdev_scheme, unit) kernel" where
  "proc_dump = thenK (printk [10] []) (forK [0..<N_PROC] (\<lambda>p.
     bindK (getK (\<lambda>s. procs s p)) (\<lambda>q.
     whenK (p_state q \<noteq> PROC_UNUSED)
       (printk (map (of_nat \<circ> of_char) ''%s %d %s'' @ [10])
          [P_str (Some (state_text (p_state q))), P_int (of_int (p_pid q)), P_str (Some (proc_name q))]))))"

definition console_intr :: "int \<Rightarrow> ('z kdev_scheme, unit) kernel" where
  "console_intr c =
     thenK (spin_lock_acquire L_cons) (
     thenK (
       if c = 16 then proc_dump
       else if c = 0x7f then
         bindK (getK cons) (\<lambda>k.
         whenK (cons_e k \<noteq> cons_w k) (seqK [
           upd_cons (\<lambda>k. k\<lparr>cons_e := cons_e k - 1\<rparr>),
           console_putc BACKSPACE]))
       else
         bindK (getK cons) (\<lambda>k.
         whenK (c \<noteq> 0 \<and> (cons_e k + 1) mod of_nat INPUT_SIZE \<noteq> cons_r k) (
           let c = (if c = 13 then 10 else c) in
           thenK (console_putc c) (
           thenK (upd_cons (\<lambda>k. k\<lparr>cons_buf := (cons_buf k)(unat (cons_e k) := of_int c)\<rparr>)) (
           thenK (upd_cons (\<lambda>k. k\<lparr>cons_e := (cons_e k + 1) mod of_nat INPUT_SIZE\<rparr>)) (
           bindK (getK cons) (\<lambda>k.
           whenK (c = 10 \<or> c = 4 \<or> (cons_e k + 1) mod of_nat INPUT_SIZE = cons_r k) (seqK [
             upd_cons (\<lambda>k. k\<lparr>cons_w := cons_e k\<rparr>),
             wake_up Ch_cons_r]))))))))
     (spin_lock_release L_cons))"

text \<open>
  The loop of \<^verbatim>\<open>console_read\<close> with \<open>n\<close> bytes still to read of \<open>target\<close>: \<open>None\<close> when the process
  was killed (the lock is released then), otherwise the final \<open>n\<close> and the bytes copied through
  a kernel pointer.
\<close>

fun console_read_loop :: "nat \<Rightarrow> dst_ptr \<Rightarrow> nat \<Rightarrow> ('z kdev_scheme, (nat \<times> u8 list) option) kernel" where
  "console_read_loop target dst 0 = retK (Some (0, []))"
| "console_read_loop target dst (Suc n) =
     bindK (getK cons) (\<lambda>k.
     if cons_r k = cons_w k then
       bindK current_proc (\<lambda>p.
       bindK (killed p) (\<lambda>dead.
       if dead then thenK (spin_lock_release L_cons) (retK None)
       else thenK (sleep_on Ch_cons_r L_cons) (retK None)))
     else
       let c = cons_buf k (unat (cons_r k)) in
       thenK (upd_cons (\<lambda>k. k\<lparr>cons_r := (cons_r k + 1) mod of_nat INPUT_SIZE\<rparr>)) (
       if c = 4 then
         thenK (whenK (Suc n < target) (upd_cons (\<lambda>k. k\<lparr>cons_r := cons_r k - 1\<rparr>))) (retK (Some (Suc n, [])))
       else
         bindK (either_copy_out dst [c]) (\<lambda>(r, bs).
         if r \<noteq> 0 then retK (Some (Suc n, [])) else
         bindK (console_read_loop target (dst_add dst 1) n) (\<lambda>res.
         retK (map_option (\<lambda>(m, bs'). (m, bs @ bs')) res)))))"

definition console_read :: "dst_ptr \<Rightarrow> u64 \<Rightarrow> ('z kdev_scheme, int \<times> u8 list) kernel" where
  "console_read dst n =
     thenK (spin_lock_acquire L_cons) (
     bindK (console_read_loop (unat n) dst (unat n)) (\<lambda>res.
     case res of
       None \<Rightarrow> retK (-1, [])
     | Some (m, bs) \<Rightarrow>
         thenK (spin_lock_release L_cons) (retK (int (unat n - m), bs))))"

fun console_write_loop :: "src_ptr \<Rightarrow> nat \<Rightarrow> ('z kdev_scheme, nat) kernel" where
  "console_write_loop src 0 = retK 0"
| "console_write_loop src (Suc n) =
     bindK (either_copy_in src 1) (\<lambda>(r, bs).
     if r \<noteq> 0 then retK 0 else
     thenK (uart_putc (uint (hd bs))) (
     bindK (console_write_loop (src_add src 1) n) (\<lambda>k. retK (k + 1))))"

definition console_write :: "src_ptr \<Rightarrow> u64 \<Rightarrow> ('z kdev_scheme, int) kernel" where
  "console_write src n =
     thenK (spin_lock_acquire L_cons) (
     bindK (console_write_loop src (unat n)) (\<lambda>i.
     thenK (spin_lock_release L_cons) (retK (int i))))"

text \<open>The receive loop of \<^verbatim>\<open>uart_intr\<close> takes as many rounds as bytes are waiting, and one more.\<close>

fun uart_rx_loop :: "nat \<Rightarrow> ('z kdev_scheme, unit) kernel" where
  "uart_rx_loop 0 = (\<lambda>s. NoFuel)"
| "uart_rx_loop (Suc fuel) =
     bindK uart_getc (\<lambda>c.
     if c = -1 then retK () else thenK (console_intr c) (uart_rx_loop fuel))"

definition uart_intr :: "('z kdev_scheme, unit) kernel" where
  "uart_intr =
     bindK (getK (\<lambda>s. length (u_in (uart s)))) (\<lambda>n. seqK [
       uart_rx_loop (n + 1),
       spin_lock_acquire L_tx,
       uart_start UART_TX_BUF_SIZE,
       spin_lock_release L_tx])"

section \<open>Echo\<close>

definition echoed :: "u8 list \<Rightarrow> uart_dev \<Rightarrow> uart_dev" where
  "echoed cs u = u\<lparr>u_out := u_out u @ cs, u_room := max 1 (u_room u) - 1\<rparr>"

lemma intr_bit_uart [simp]: "intr_bit (uart_update f s) = intr_bit s"
  by (simp add: intr_bit_def)

lemma uart_putc_sync_ok:
  assumes "hart_ok s" "\<not> panicked s" "\<not> dlab (uart s)"
  shows "uart_putc_sync c s = Ret () (s\<lparr>uart := echoed [of_int c] (uart s)\<rparr>)"
proof -
  have f: "panicked (pushed s) = panicked s" "uart (pushed s) = uart s"
    "\<And>f. popped (uart_update f (pushed s)) = uart_update f (popped (pushed s))"
    "\<not> intr_bit (pushed s)" "\<not> n_off (current_cpu (pushed s)) < 1"
    using assms(1) by (auto simp: hart_defs Let_def)
  show ?thesis
    using assms f popped_pushed [OF hart_ok_wf [OF assms(1)]] settle_id [OF assms(1)]
    by (simp add: uart_putc_sync_def push_off_eq pop_off_eq uart_drain_def uart_write_reg_def Let_def echoed_def dlab_def)
qed

text \<open>The bytes the console holds, and those of them a reader may take.\<close>

definition cons_all :: "console \<Rightarrow> u8 list" where
  "cons_all k = ring_list INPUT_SIZE (cons_buf k) (cons_r k) (cons_e k)"

definition cons_ready :: "console \<Rightarrow> u8 list" where
  "cons_ready k = ring_list INPUT_SIZE (cons_buf k) (cons_r k) (cons_w k)"

definition cons_ok :: "console \<Rightarrow> bool" where
  "cons_ok k \<longleftrightarrow> ring_ok INPUT_SIZE (cons_r k) (cons_e k) \<and> ring_ok INPUT_SIZE (cons_r k) (cons_w k) \<and>
     ring_len INPUT_SIZE (cons_r k) (cons_w k) \<le> ring_len INPUT_SIZE (cons_r k) (cons_e k)"

lemma cons_ready_prefix:
  assumes "cons_ok k"
  shows "cons_ready k = take (length (cons_ready k)) (cons_all k)"
  using assms by (simp add: cons_ready_def cons_all_def cons_ok_def ring_list_def take_map)

lemma upd_cons_apply [simp]: "upd_cons f s = Ret () (s\<lparr>cons := f (cons s)\<rparr>)"
  by (simp add: upd_cons_def)

definition typed :: "u8 \<Rightarrow> console \<Rightarrow> console" where
  "typed c k = k\<lparr>cons_buf := (cons_buf k)(unat (cons_e k) := c), cons_e := (cons_e k + 1) mod of_nat INPUT_SIZE\<rparr>"

lemma typed_ok:
  assumes "cons_ok k" "(cons_e k + 1) mod of_nat INPUT_SIZE \<noteq> cons_r k"
  shows "cons_all (typed c k) = cons_all k @ [c]" "cons_ready (typed c k) = cons_ready k" "cons_ok (typed c k)"
proof -
  have r: "ring_ok INPUT_SIZE (cons_r k) (cons_e k)" using assms(1) by (simp add: cons_ok_def)
  show a: "cons_all (typed c k) = cons_all k @ [c]"
    using ring_put [OF r assms(2)] by (simp add: cons_all_def typed_def)
  show o: "cons_ok (typed c k)"
    using assms(1) ring_next_ok(1) [OF r] ring_put_len [OF r assms(2)] by (simp add: cons_ok_def typed_def)
  have "length (cons_ready k) = length (cons_ready (typed c k))" "length (cons_ready k) \<le> length (cons_all k)"
    using assms(1) by (simp_all add: cons_ready_def typed_def cons_ok_def cons_all_def)
  then show "cons_ready (typed c k) = cons_ready k"
    using cons_ready_prefix [OF assms(1)] cons_ready_prefix [OF o] a by simp
qed

lemma published_ok:
  assumes "cons_ok k"
  shows "cons_ok (k\<lparr>cons_w := cons_e k\<rparr>)" "cons_all (k\<lparr>cons_w := cons_e k\<rparr>) = cons_all k"
    "cons_ready (k\<lparr>cons_w := cons_e k\<rparr>) = cons_all k"
  using assms by (simp_all add: cons_ok_def cons_all_def cons_ready_def)

lemma console_intr_char:
  assumes s: "quiet s" "\<not> panicked s" "\<not> dlab (uart s)" "cons_ok (cons s)"
    and c: "0 < c" "c < 256" "c \<noteq> 16" "c \<noteq> 0x7f" and d: "d = (if c = 13 then 10 else c)"
    and l: "length (cons_all (cons s)) < INPUT_SIZE - 1"
  shows "\<exists>t. console_intr c s = Ret () t \<and> cons_ok (cons t) \<and> cons_all (cons t) = cons_all (cons s) @ [of_int d] \<and>
    u_out (uart t) = u_out (uart s) @ [of_int d] \<and>
    cons_ready (cons t) =
      (if d = 10 \<or> d = 4 \<or> length (cons_all (cons s)) + 1 = INPUT_SIZE - 1 then cons_all (cons s) @ [of_int d]
       else cons_ready (cons s))"
proof -
  let ?k = "cons s" and ?d = "of_int d :: u8"
  let ?t = "typed ?d ?k" and ?u = "s\<lparr>uart := echoed [?d] (uart s)\<rparr>"
  have r: "ring_ok INPUT_SIZE (cons_r ?k) (cons_e ?k)" using s(4) by (simp add: cons_ok_def)
  have nf: "(cons_e ?k + 1) mod of_nat INPUT_SIZE \<noteq> cons_r ?k"
    using ring_full [OF r] l by (simp add: cons_all_def)
  note ty = typed_ok [OF s(4) nf, of ?d]
  have "ring_ok INPUT_SIZE (cons_r ?t) (cons_e ?t)" using ty(3) by (simp add: cons_ok_def)
  then have fu: "(cons_e ?t + 1) mod of_nat INPUT_SIZE = cons_r ?t \<longleftrightarrow> length (cons_all ?k) + 1 = INPUT_SIZE - 1"
    using ring_full [of INPUT_SIZE "cons_r ?t" "cons_e ?t"] arg_cong [OF ty(1), of length] by (simp add: cons_all_def)
  define pub where "pub \<longleftrightarrow> d = 10 \<or> d = 4 \<or> length (cons_all ?k) + 1 = INPUT_SIZE - 1"
  define t where "t = (if pub then s\<lparr>procs := woken (cur_proc s) Ch_cons_r (procs s), uart := echoed [?d] (uart s), cons := ?t\<lparr>cons_w := cons_e ?t\<rparr>\<rparr>
    else s\<lparr>uart := echoed [?d] (uart s), cons := ?t\<rparr>)"
  have e: "console_putc d (grab L_cons s) = Ret () ((grab L_cons s)\<lparr>uart := echoed [?d] (uart s)\<rparr>)"
    using s c d uart_putc_sync_ok [of "grab L_cons s" d] by (simp add: console_putc_def BACKSPACE_def)
  have "console_intr c s = Ret () t"
    using s(1) c nf e fu unfolding console_intr_def d [symmetric] t_def pub_def
    by (simp add: Let_def typed_def whenK_apply)
  then show ?thesis using ty published_ok [OF ty(3)]
    by (intro exI [of _ t]) (auto simp: t_def pub_def echoed_def)
qed

lemma ring_len_inj:
  assumes "ring_ok N r w" "ring_ok N r e" "ring_len N r w = ring_len N r e"
  shows "w = e"
  using ring_at_end [OF assms(1)] ring_at_end [OF assms(2)] assms(3) by (simp add: word_unat_eq_iff)

lemma erased_ok:
  assumes "cons_ok k" "cons_e k \<noteq> cons_w k" "cons_e k \<noteq> 0"
  shows "cons_ok (k\<lparr>cons_e := cons_e k - 1\<rparr>) \<and> cons_all (k\<lparr>cons_e := cons_e k - 1\<rparr>) = butlast (cons_all k) \<and>
    cons_ready (k\<lparr>cons_e := cons_e k - 1\<rparr>) = cons_ready k"
proof -
  let ?e = "cons_e k - 1" and ?d = "cons_buf k"
  have r: "ring_ok INPUT_SIZE (cons_r k) (cons_e k)" "ring_ok INPUT_SIZE (cons_r k) (cons_w k)"
    and le: "ring_len INPUT_SIZE (cons_r k) (cons_w k) \<le> ring_len INPUT_SIZE (cons_r k) (cons_e k)"
    using assms(1) by (simp_all add: cons_ok_def)
  have u: "unat ?e = unat (cons_e k) - 1" by (rule unat_minus_one [OF assms(3)])
  have b: "unat (cons_e k) < INPUT_SIZE" using r(1) by (simp add: ring_ok_def)
  have re: "ring_ok INPUT_SIZE (cons_r k) ?e" using r(1) u by (auto simp: ring_ok_def)
  have nx: "(?e + 1) mod of_nat INPUT_SIZE = cons_e k"
    using b by (simp add: word_unat_eq_iff unat_mod INPUT_SIZE_def)
  have lt: "ring_len INPUT_SIZE (cons_r k) (cons_w k) < ring_len INPUT_SIZE (cons_r k) (cons_e k)"
    using le ring_len_inj [OF r(2,1)] assms(2) by (metis le_neq_implies_less)
  have nr: "cons_e k \<noteq> cons_r k" using lt r(1) by (auto simp: ring_len_eq)
  have p: "ring_list INPUT_SIZE ?d (cons_r k) (cons_e k) = ring_list INPUT_SIZE ?d (cons_r k) ?e @ [?d (unat ?e)]"
    using ring_put [OF re, of ?d "?d (unat ?e)"] nr unfolding nx by simp
  have "Suc (ring_len INPUT_SIZE (cons_r k) ?e) = ring_len INPUT_SIZE (cons_r k) (cons_e k)"
    using ring_put_len [OF re] nr unfolding nx by simp
  then show ?thesis using re r(2) lt p by (simp add: cons_ok_def cons_all_def cons_ready_def)
qed

lemma console_intr_delete:
  assumes "quiet s" "\<not> panicked s" "\<not> dlab (uart s)"
  shows "\<exists>u. console_intr 0x7f s = Ret () (s\<lparr>uart := u, cons :=
    (if cons_e (cons s) \<noteq> cons_w (cons s) then (cons s)\<lparr>cons_e := cons_e (cons s) - 1\<rparr> else cons s)\<rparr>)"
proof (cases "cons_e (cons s) = cons_w (cons s)")
  case True
  have i: "s\<lparr>uart := uart s, cons := cons s\<rparr> = s" by (cases s) simp
  have "console_intr 0x7f s = Ret () s" using True assms(1) by (simp add: console_intr_def)
  then have "console_intr 0x7f s = Ret () (s\<lparr>uart := uart s, cons := cons s\<rparr>)" by (simp only: i)
  then show ?thesis using True by (intro exI [of _ "uart s"]) (simp only: if_False simp_thms)
next
  case False
  have d: "\<not> dlab (echoed cs u)" if "\<not> dlab u" for cs u using that by (simp add: echoed_def dlab_def)
  show ?thesis using False assms
    by (simp add: console_intr_def console_putc_def BACKSPACE_def uart_putc_sync_ok d)
      (intro exI [of _ "echoed [8] (echoed [32] (echoed [8] (uart s)))"], simp)
qed

lemma console_write_full:
  assumes "quiet s" "cur_proc s = Some p" "n_off (current_cpu s) = 0" "\<not> panicked s" "tx_full (tx s)" "bs \<noteq> []" "0 < n"
  shows "console_write (From_kernel bs) n s = Panic ''locked during scheduling''"
proof -
  have a: "avail (grab L_cons s) L_tx" "avail (grab L_cons s) (L_proc p)" using assms(1) by simp_all
  have "uart_putc c (grab L_cons s) = Panic ''locked during scheduling''" for c
    using uart_putc_full [OF a, of c] assms by simp
  moreover obtain m where "unat n = Suc m" using assms(7) by (metis gr0_implies_Suc unat_gt_0 word_gt_0)
  ultimately show ?thesis using assms(1,6)
    by (simp add: console_write_def either_copy_in_def thenK_def bindK_def take_Suc)
qed

section \<open>Properties\<close>

text \<open>
  C36. Console input. An ordinary character is echoed and appended to what the console holds,
  carriage return as newline; readers see the line when a newline or an end-of-file character ends it or
  when the buffer is full. A character that does not fit is dropped.
\<close>

theorem console_input:
  assumes "quiet s" "\<not> panicked s" "\<not> dlab (uart s)" "cons_ok (cons s)"
    and "0 < c" "c < 256" "c \<noteq> 16" "c \<noteq> 0x7f" "d = (if c = 13 then 10 else c)"
  shows "\<exists>t. console_intr c s = Ret () t \<and> cons_ok (cons t) \<and>
    (if length (cons_all (cons s)) < INPUT_SIZE - 1
     then cons_all (cons t) = cons_all (cons s) @ [of_int d] \<and> u_out (uart t) = u_out (uart s) @ [of_int d] \<and>
       cons_ready (cons t) = (if d = 10 \<or> d = 4 \<or> length (cons_all (cons s)) + 1 = INPUT_SIZE - 1
         then cons_all (cons t) else cons_ready (cons s))
     else t = s)"
proof (cases "length (cons_all (cons s)) < INPUT_SIZE - 1")
  case True
  then show ?thesis using console_intr_char [OF assms True] by auto
next
  case False
  have r: "ring_ok INPUT_SIZE (cons_r (cons s)) (cons_e (cons s))" using assms(4) by (simp add: cons_ok_def)
  then have "(cons_e (cons s) + 1) mod of_nat INPUT_SIZE = cons_r (cons s)"
    using False ring_len_less [OF r] ring_full [OF r] by (simp add: cons_all_def)
  then have "console_intr c s = Ret () s" using assms(1,5-8) by (simp add: console_intr_def)
  then show ?thesis using False assms(4) by simp
qed

theorem console_input_witness:
  "\<exists>t. console_intr 13 (dev_ready 5) = Ret () t \<and> cons_ready (cons t) = [10]"
proof -
  note d = dev_ready_ok [of 5] and c = calmD(1) [OF dev_ready_ok(1) [of 5]]
  have "cons_ok (cons (dev_ready 5))" "cons_all (cons (dev_ready 5)) = []"
    by (simp_all add: d cons_ok_def cons_all_def ring_ok_def ring_list_def ring_len_def INPUT_SIZE_def)
  then show ?thesis
    using console_input [of "dev_ready 5" 13 10] c d(3) by (auto simp: d(5) dlab_def INPUT_SIZE_def)
qed

text \<open>
  C37. Erasing. The delete key removes the last character that is not yet visible to readers, except when
  the line continues past the end of the buffer: the edit index is decremented without the wrap-around and
  leaves the buffer.
\<close>

theorem console_erase:
  assumes "quiet s" "\<not> panicked s" "\<not> dlab (uart s)" "cons_ok (cons s)" "cons_e (cons s) \<noteq> cons_w (cons s)"
  shows "\<exists>t. console_intr 0x7f s = Ret () t \<and>
    (if cons_e (cons s) \<noteq> 0
     then cons_ok (cons t) \<and> cons_all (cons t) = butlast (cons_all (cons s)) \<and> cons_ready (cons t) = cons_ready (cons s)
     else unat (cons_e (cons t)) = 2 ^ 32 - 1)"
proof -
  obtain u where u: "console_intr 0x7f s = Ret () (s\<lparr>uart := u, cons := (cons s)\<lparr>cons_e := cons_e (cons s) - 1\<rparr>\<rparr>)"
    using console_intr_delete [OF assms(1-3)] assms(5) by auto
  have "unat (0 - 1 :: u32) = 2 ^ 32 - 1" by (simp add: unsigned_minus_1_eq_mask mask_eq_exp_minus_1)
  then show ?thesis using u erased_ok [OF assms(4,5)] by auto
qed

theorem console_erase_witness:
  "\<exists>s t. cons_ok (cons s) \<and> console_intr 0x7f s = Ret () (t :: kdev) \<and> \<not> unat (cons_e (cons t)) < INPUT_SIZE"
proof -
  define s where "s = (dev_ready 127)\<lparr>cons := \<lparr>cons_buf = \<lambda>_. 0, cons_r = 127, cons_w = 127, cons_e = 0\<rparr>\<rparr>"
  note d = dev_ready_ok [of 127] and c = calmD(1) [OF dev_ready_ok(1) [of 127]]
  have o: "cons_ok (cons s)" by (simp add: s_def cons_ok_def ring_ok_def ring_len_def INPUT_SIZE_def)
  have "quiet s" "\<not> panicked s" "\<not> dlab (uart s)" using c d(3) by (simp_all add: s_def d(5) dlab_def)
  then obtain t where "console_intr 0x7f s = Ret () t" "unat (cons_e (cons t)) = 2 ^ 32 - 1"
    using console_erase [of s] o by (auto simp: s_def)
  then show ?thesis using o by (intro exI [of _ s] exI [of _ t]) (simp add: INPUT_SIZE_def)
qed



end
