(* ===== verification/File.thy ===== *)
theory File
  imports Console
begin

text \<open>
  Pipes and open files: \<^verbatim>\<open>kernel/fs/pipe.c\<close> and \<^verbatim>\<open>kernel/fs/file.c\<close>.

  A \<^verbatim>\<open>struct file\<close> pointer is the index of its slot in \<^verbatim>\<open>ftable.files\<close>. A pipe lives in a
  physical page; \<open>pipes\<close> maps the address of the page to the structure in it. A function pointer of
  \<^verbatim>\<open>devlist\<close> is a tag: the console's is the only one the kernel installs. The padding bytes of a
  \<^verbatim>\<open>struct stat\<close> are 0.
\<close>

section \<open>Definitions\<close>

definition PIPE_SIZE :: nat where "PIPE_SIZE = 1024"
definition N_FILE :: nat where "N_FILE = 100"
definition N_DEV :: nat where "N_DEV = 10"
definition CONSOLE :: nat where "CONSOLE = 1"

record pipe =
  pi_r :: u32
  pi_w :: u32
  pi_read_open :: bool
  pi_write_open :: bool
  pi_data :: "nat \<Rightarrow> u8"

datatype fd_type = FD_NONE | FD_INODE | FD_DEVICE | FD_PIPE

record "file" =
  f_type :: fd_type
  f_readable :: bool
  f_writable :: bool
  f_refcnt :: u32
  f_inode :: "nat option"
  f_pi :: u64
  f_off :: u32
  f_major :: u16

datatype dev_fn = Null_fn | Console_fn

record device =
  dev_read :: dev_fn
  dev_write :: dev_fn

record kfile = kdev +
  files :: "nat \<Rightarrow> file"
  pipes :: "u64 \<Rightarrow> pipe"
  devlist :: "nat \<Rightarrow> device"

definition upd_file :: "nat \<Rightarrow> (file \<Rightarrow> file) \<Rightarrow> ('z kfile_scheme, unit) kernel" where
  "upd_file f g = modK (\<lambda>s. s\<lparr>files := (files s)(f := g (files s f))\<rparr>)"

definition upd_pipe :: "u64 \<Rightarrow> (pipe \<Rightarrow> pipe) \<Rightarrow> ('z kfile_scheme, unit) kernel" where
  "upd_pipe a g = modK (\<lambda>s. s\<lparr>pipes := (pipes s)(a := g (pipes s a))\<rparr>)"

definition the_file :: "nat \<Rightarrow> ('z kfile_scheme, file) kernel" where
  "the_file f = getK (\<lambda>s. files s f)"

definition the_pipe :: "u64 \<Rightarrow> ('z kfile_scheme, pipe) kernel" where
  "the_pipe a = getK (\<lambda>s. pipes s a)"

definition deref :: "'a option \<Rightarrow> ('a \<Rightarrow> ('s, 'b) kernel) \<Rightarrow> ('s, 'b) kernel" where
  "deref x m = (case x of None \<Rightarrow> panicK ''kernel trap'' | Some i \<Rightarrow> m i)"

definition console_init :: "('z kfile_scheme, unit) kernel" where
  "console_init = seqK [
     spin_lock_init L_cons ''console'',
     uart_init,
     modK (\<lambda>s. s\<lparr>devlist := (devlist s)(CONSOLE := (devlist s CONSOLE)\<lparr>dev_read := Console_fn\<rparr>)\<rparr>),
     modK (\<lambda>s. s\<lparr>devlist := (devlist s)(CONSOLE := (devlist s CONSOLE)\<lparr>dev_write := Console_fn\<rparr>)\<rparr>)]"

subsection \<open>Pipes\<close>

definition pipe_empty :: "pipe \<Rightarrow> bool" where
  "pipe_empty q \<longleftrightarrow> pi_r q = pi_w q"

definition pipe_full :: "pipe \<Rightarrow> bool" where
  "pipe_full q \<longleftrightarrow> (pi_w q + 1) mod of_nat PIPE_SIZE = pi_r q"

definition pipe_put :: "u8 \<Rightarrow> pipe \<Rightarrow> pipe" where
  "pipe_put c q = q\<lparr>pi_data := (pi_data q)(unat (pi_w q) := c), pi_w := (pi_w q + 1) mod of_nat PIPE_SIZE\<rparr>"

definition pipe_get :: "pipe \<Rightarrow> u8" where
  "pipe_get q = pi_data q (unat (pi_r q))"

definition pipe_drop :: "pipe \<Rightarrow> pipe" where
  "pipe_drop q = q\<lparr>pi_r := (pi_r q + 1) mod of_nat PIPE_SIZE\<rparr>"

definition pipe_close :: "u64 \<Rightarrow> bool \<Rightarrow> ('z kfile_scheme, unit) kernel" where
  "pipe_close pi writable =
     thenK (spin_lock_acquire (L_pipe pi)) (
     thenK (if writable
       then thenK (upd_pipe pi (\<lambda>q. q\<lparr>pi_write_open := False\<rparr>)) (wake_up (Ch_pipe_r pi))
       else thenK (upd_pipe pi (\<lambda>q. q\<lparr>pi_read_open := False\<rparr>)) (wake_up (Ch_pipe_w pi))) (
     bindK (the_pipe pi) (\<lambda>q.
     if \<not> pi_read_open q \<and> \<not> pi_write_open q
     then thenK (spin_lock_release (L_pipe pi)) (pm_free pi)
     else spin_lock_release (L_pipe pi))))"

fun pipe_read_loop :: "u64 \<Rightarrow> u64 \<Rightarrow> u64 \<Rightarrow> nat \<Rightarrow> ('z kfile_scheme, nat) kernel" where
  "pipe_read_loop pi pt dst 0 = retK 0"
| "pipe_read_loop pi pt dst (Suc n) =
     bindK (the_pipe pi) (\<lambda>q.
     if pipe_empty q then retK 0 else
     let c = pipe_get q in
     thenK (upd_pipe pi pipe_drop) (
     bindK (copy_out pt dst [c]) (\<lambda>r.
     if r \<noteq> 0 then retK 0 else
     bindK (pipe_read_loop pi pt (dst + 1) n) (\<lambda>i. retK (i + 1)))))"

definition pipe_read :: "u64 \<Rightarrow> u64 \<Rightarrow> u64 \<Rightarrow> ('z kfile_scheme, int) kernel" where
  "pipe_read pi dst n =
     bindK current_proc (\<lambda>p.
     thenK (spin_lock_acquire (L_pipe pi)) (
     bindK (the_pipe pi) (\<lambda>q.
     if pipe_empty q \<and> pi_write_open q then
       bindK (killed p) (\<lambda>dead.
       if dead then thenK (spin_lock_release (L_pipe pi)) (retK (-1))
       else thenK (sleep_on (Ch_pipe_r pi) (L_pipe pi)) (retK (-1)))
     else
       bindK (getK (\<lambda>s. p_page_table (procs s p))) (\<lambda>pt.
       bindK (pipe_read_loop pi pt dst (unat n)) (\<lambda>i.
       thenK (wake_up (Ch_pipe_w pi)) (
       thenK (spin_lock_release (L_pipe pi)) (
       retK (int i))))))))"

fun pipe_write_loop :: "u64 \<Rightarrow> nat \<Rightarrow> u64 \<Rightarrow> nat \<Rightarrow> ('z kfile_scheme, nat option) kernel" where
  "pipe_write_loop pi p src 0 = retK (Some 0)"
| "pipe_write_loop pi p src (Suc n) =
     bindK (the_pipe pi) (\<lambda>q.
     bindK (if \<not> pi_read_open q then retK True else killed p) (\<lambda>stop.
     if stop then thenK (spin_lock_release (L_pipe pi)) (retK None)
     else if pipe_full q then
       thenK (wake_up (Ch_pipe_r pi)) (thenK (sleep_on (Ch_pipe_w pi) (L_pipe pi)) (retK None))
     else
       bindK (getK (\<lambda>s. p_page_table (procs s p))) (\<lambda>pt.
       bindK (copy_in pt src 1) (\<lambda>(r, bs).
       if r \<noteq> 0 then retK (Some 0) else
       thenK (upd_pipe pi (pipe_put (hd bs))) (
       bindK (pipe_write_loop pi p (src + 1) n) (\<lambda>i. retK (map_option Suc i)))))))"

definition pipe_write :: "u64 \<Rightarrow> u64 \<Rightarrow> u64 \<Rightarrow> ('z kfile_scheme, int) kernel" where
  "pipe_write pi src n =
     bindK current_proc (\<lambda>p.
     thenK (spin_lock_acquire (L_pipe pi)) (
     bindK (pipe_write_loop pi p src (unat n)) (\<lambda>i.
     case i of
       None \<Rightarrow> retK (-1)
     | Some i \<Rightarrow>
         thenK (wake_up (Ch_pipe_r pi)) (
         thenK (spin_lock_release (L_pipe pi)) (
         retK (int i))))))"

subsection \<open>The file table\<close>

definition file_init :: "('z kfile_scheme, unit) kernel" where
  "file_init = spin_lock_init L_ftable ''ftable''"

definition file_alloc :: "('z kfile_scheme, nat option) kernel" where
  "file_alloc =
     thenK (spin_lock_acquire L_ftable) (
     bindK (getK files) (\<lambda>t.
     case find (\<lambda>f. f_refcnt (t f) = 0) [0..<N_FILE] of
       Some f \<Rightarrow>
         thenK (upd_file f (\<lambda>x. x\<lparr>f_refcnt := 1\<rparr>)) (
         thenK (spin_lock_release L_ftable) (retK (Some f)))
     | None \<Rightarrow> thenK (spin_lock_release L_ftable) (retK None)))"

definition file_close :: "nat \<Rightarrow> ('z kfile_scheme, unit) kernel" where
  "file_close f =
     thenK (spin_lock_acquire L_ftable) (
     bindK (the_file f) (\<lambda>x.
     if f_refcnt x < 1 then panicK ''close an invalid file'' else
     thenK (upd_file f (\<lambda>x. x\<lparr>f_refcnt := f_refcnt x - 1\<rparr>)) (
     bindK (the_file f) (\<lambda>x. seqK [
       whenK (f_refcnt x = 0) (seqK [
         if f_type x = FD_PIPE then pipe_close (f_pi x) (f_writable x) else deref (f_inode x) iput,
         upd_file f (\<lambda>x. x\<lparr>f_type := FD_NONE\<rparr>)]),
       spin_lock_release L_ftable]))))"

definition file_dup :: "nat \<Rightarrow> ('z kfile_scheme, nat) kernel" where
  "file_dup f =
     thenK (spin_lock_acquire L_ftable) (
     bindK (the_file f) (\<lambda>x.
     if f_refcnt x < 1 then panicK ''duplicate an invalid file'' else
     thenK (upd_file f (\<lambda>x. x\<lparr>f_refcnt := f_refcnt x + 1\<rparr>)) (
     thenK (spin_lock_release L_ftable) (retK f))))"

definition stat_bytes :: "stat \<Rightarrow> u8 list" where
  "stat_bytes st = map (st32 (st16 (st16 (st16 (\<lambda>_. 0) 0 (st_type st)) 2 (st_ino st)) 4 (st_nlink st)) 8 (st_size st)) [0..<12]"

definition file_stat :: "nat \<Rightarrow> u64 \<Rightarrow> ('z kfile_scheme, int) kernel" where
  "file_stat f pstat =
     bindK (the_file f) (\<lambda>x.
     if f_type x = FD_INODE \<or> f_type x = FD_DEVICE then
       deref (f_inode x) (\<lambda>i.
       thenK (ilock i) (
       bindK (stati i) (\<lambda>st.
       thenK (iunlock i) (
       bindK current_proc (\<lambda>p.
       bindK (getK (\<lambda>s. p_page_table (procs s p))) (\<lambda>pt.
       copy_out pt pstat (stat_bytes st)))))))
     else retK (-1))"

definition file_lseek :: "nat \<Rightarrow> int \<Rightarrow> int \<Rightarrow> ('z kfile_scheme, int) kernel" where
  "file_lseek f offset whence =
     bindK (the_file f) (\<lambda>x.
     if f_type x \<noteq> FD_INODE then retK (-1) else
     bindK (if whence = 0 then deref (f_inode x) (\<lambda>i. lseeki i offset)
            else if whence = 1 then deref (f_inode x) (\<lambda>i. lseeki i (uint (f_off x) + offset))
            else if whence = 2 then deref (f_inode x) (\<lambda>i.
              bindK (the_inode i) (\<lambda>n. lseeki i (uint (i_size n) + offset)))
            else retK (-1)) (\<lambda>ret.
     thenK (whenK (ret \<noteq> -1) (upd_file f (\<lambda>x. x\<lparr>f_off := of_int ret\<rparr>))) (retK ret)))"

definition file_read :: "nat \<Rightarrow> u64 \<Rightarrow> u64 \<Rightarrow> ('z kfile_scheme, int) kernel" where
  "file_read f dst n =
     bindK (the_file f) (\<lambda>x.
     if \<not> f_readable x then retK (-1) else
     case f_type x of
       FD_DEVICE \<Rightarrow>
         bindK (getK devlist) (\<lambda>dl.
         if unat (f_major x) \<ge> N_DEV \<or> dev_read (dl (unat (f_major x))) = Null_fn then retK (-1)
         else bindK (console_read (To_user dst) n) (\<lambda>(r, _). retK r))
     | FD_INODE \<Rightarrow>
         deref (f_inode x) (\<lambda>i.
         thenK (ilock i) (
         bindK (readi i (To_user dst) (ucast (f_off x)) n) (\<lambda>(ret, _).
         thenK (whenK (ret > 0) (upd_file f (\<lambda>x. x\<lparr>f_off := f_off x + of_int ret\<rparr>))) (
         thenK (iunlock i) (retK ret)))))
     | FD_PIPE \<Rightarrow> pipe_read (f_pi x) dst n
     | FD_NONE \<Rightarrow> panicK ''unknown file descriptor type'')"

definition MAX_WRITE :: nat where "MAX_WRITE = ((MAX_OP_BLKS - 1 - 1 - 2) div 2) * BLOCK_SIZE"

text \<open>The values \<^verbatim>\<open>len\<close> takes while the loop of \<^verbatim>\<open>file_write\<close> goes on.\<close>

function write_lens :: "nat \<Rightarrow> nat list" where
  "write_lens n = (if n = 0 then [] else min n MAX_WRITE # write_lens (n - min n MAX_WRITE))"
  by auto
termination by (relation "measure id") (auto simp: MAX_WRITE_def MAX_OP_BLKS_def BLOCK_SIZE_def)

declare write_lens.simps [simp del]

fun file_write_loop :: "nat \<Rightarrow> nat \<Rightarrow> u64 \<Rightarrow> u64 \<Rightarrow> nat list \<Rightarrow> ('z kfile_scheme, nat) kernel" where
  "file_write_loop f i src n [] = retK 0"
| "file_write_loop f i src n (len # ls) =
     thenK begin_op (
     thenK (ilock i) (
     bindK (the_file f) (\<lambda>x.
     bindK (writei i (From_user src) (ucast (f_off x)) n) (\<lambda>ret.
     thenK (whenK (ret > 0) (upd_file f (\<lambda>x. x\<lparr>f_off := f_off x + of_int ret\<rparr>))) (
     thenK (iunlock i) (
     thenK end_op (
     if ret \<noteq> int len then retK 0
     else bindK (file_write_loop f i src n ls) (\<lambda>k. retK (len + k)))))))))"

definition file_write :: "nat \<Rightarrow> u64 \<Rightarrow> u64 \<Rightarrow> ('z kfile_scheme, int) kernel" where
  "file_write f src n =
     bindK (the_file f) (\<lambda>x.
     if \<not> f_writable x then retK (-1) else
     case f_type x of
       FD_DEVICE \<Rightarrow>
         bindK (getK devlist) (\<lambda>dl.
         if unat (f_major x) \<ge> N_DEV \<or> dev_write (dl (unat (f_major x))) = Null_fn then retK (-1)
         else console_write (From_user src) n)
     | FD_INODE \<Rightarrow>
         (if n = 0 then retK 0 else
          deref (f_inode x) (\<lambda>i.
          bindK (file_write_loop f i src n (write_lens (unat n))) (\<lambda>k.
          retK (if k = unat n then int k else -1))))
     | FD_PIPE \<Rightarrow> pipe_write (f_pi x) src n
     | FD_NONE \<Rightarrow> panicK ''unknown file descriptor type'')"

subsection \<open>Creating a pipe\<close>

text \<open>
  \<open>w\<close> is the value of \<^verbatim>\<open>*wfile\<close> before the call: the cleanup reads it when the first
  \<^verbatim>\<open>file_alloc\<close> fails. The result is the return value with the two file pointers.
\<close>

definition pipe_alloc_bad :: "u64 \<Rightarrow> nat option \<Rightarrow> nat option \<Rightarrow> ('z kfile_scheme, int \<times> nat option \<times> nat option) kernel" where
  "pipe_alloc_bad pi r w =
     thenK (whenK (pi \<noteq> 0) (pm_free pi)) (
     thenK (case r of None \<Rightarrow> retK () | Some f \<Rightarrow> file_close f) (
     thenK (case w of None \<Rightarrow> retK () | Some f \<Rightarrow> file_close f) (
     retK (-1, None, None))))"

definition pipe_alloc :: "nat option \<Rightarrow> ('z kfile_scheme, int \<times> nat option \<times> nat option) kernel" where
  "pipe_alloc w =
     bindK file_alloc (\<lambda>r.
     case r of None \<Rightarrow> pipe_alloc_bad 0 None w | Some rfile \<Rightarrow>
     bindK file_alloc (\<lambda>w.
     case w of None \<Rightarrow> pipe_alloc_bad 0 r None | Some wfile \<Rightarrow>
     bindK pm_alloc (\<lambda>pi.
     if pi = 0 then pipe_alloc_bad 0 r w else
     thenK (upd_pipe pi (\<lambda>q. q\<lparr>pi_read_open := True, pi_write_open := True, pi_w := 0, pi_r := 0\<rparr>)) (
     thenK (spin_lock_init (L_pipe pi) ''pipe'') (
     thenK (upd_file rfile (\<lambda>x. x\<lparr>f_type := FD_PIPE, f_readable := True, f_writable := False, f_pi := pi\<rparr>)) (
     thenK (upd_file wfile (\<lambda>x. x\<lparr>f_type := FD_PIPE, f_readable := False, f_writable := True, f_pi := pi\<rparr>)) (
     retK (0, r, w))))))))"

section \<open>Frame\<close>

lemma files_frame [simp, quiet_simps]:
  "hart_ok (files_update f s) = hart_ok s"
  "avail (files_update f s) L = avail s L"
  "holds (files_update f s) L = holds s L"
  "quiet (files_update f s) = quiet s"
  "procs_avail (files_update f s) = procs_avail s"
  "cur_proc (files_update f s) = cur_proc s"
  "no_sleeper (files_update f s) = no_sleeper s"
  "calm (files_update f s) = calm s"
  "n_off (current_cpu (files_update f s)) = n_off (current_cpu s)"
  "intr_ena (current_cpu (files_update f s)) = intr_ena (current_cpu s)"
  "grab L (files_update f s) = files_update f (grab L s)"
  "ungrab L (files_update f s) = files_update f (ungrab L s)"
  "setp c (files_update f s) = files_update f (setp c s)"
  "files (grab L s) = files s" "files (ungrab L s) = files s" "files (setp c s) = files s"
  "pool (files_update f s) ps = pool s ps"
  by (simp_all add: procs_avail_def avail_def holds_def quiet_def cur_proc_def lock_free_def calm_def
      spin_lock_holding_def grab_def ungrab_def setp_def hart_defs no_sleeper_def pool_def fun_eq_iff Let_def)

lemma files_swap [simp]:
  "procs_update gpr (files_update f s) = files_update f (procs_update gpr s)"
  "sleeps_update gsl (files_update f s) = files_update f (sleeps_update gsl s)"
  "mem_update gme (files_update f s) = files_update f (mem_update gme s)"
  "free_head_update gfr (files_update f s) = files_update f (free_head_update gfr s)"
  "bc_update gbc (files_update f s) = files_update f (bc_update gbc s)"
  "lg_update glg (files_update f s) = files_update f (lg_update glg s)"
  "sb_update gsb (files_update f s) = files_update f (sb_update gsb s)"
  "itable_update git (files_update f s) = files_update f (itable_update git s)"
  by (cases s; simp)+

lemma pipes_frame [simp, quiet_simps]:
  "hart_ok (pipes_update f s) = hart_ok s"
  "avail (pipes_update f s) L = avail s L"
  "holds (pipes_update f s) L = holds s L"
  "quiet (pipes_update f s) = quiet s"
  "procs_avail (pipes_update f s) = procs_avail s"
  "cur_proc (pipes_update f s) = cur_proc s"
  "no_sleeper (pipes_update f s) = no_sleeper s"
  "calm (pipes_update f s) = calm s"
  "n_off (current_cpu (pipes_update f s)) = n_off (current_cpu s)"
  "intr_ena (current_cpu (pipes_update f s)) = intr_ena (current_cpu s)"
  "grab L (pipes_update f s) = pipes_update f (grab L s)"
  "ungrab L (pipes_update f s) = pipes_update f (ungrab L s)"
  "setp c (pipes_update f s) = pipes_update f (setp c s)"
  "pipes (grab L s) = pipes s" "pipes (ungrab L s) = pipes s" "pipes (setp c s) = pipes s"
  "pool (pipes_update f s) ps = pool s ps"
  by (simp_all add: procs_avail_def avail_def holds_def quiet_def cur_proc_def lock_free_def calm_def
      spin_lock_holding_def grab_def ungrab_def setp_def hart_defs no_sleeper_def pool_def fun_eq_iff Let_def)

lemma pipes_swap [simp]:
  "procs_update gpr (pipes_update f s) = pipes_update f (procs_update gpr s)"
  "sleeps_update gsl (pipes_update f s) = pipes_update f (sleeps_update gsl s)"
  "mem_update gme (pipes_update f s) = pipes_update f (mem_update gme s)"
  "free_head_update gfr (pipes_update f s) = pipes_update f (free_head_update gfr s)"
  "bc_update gbc (pipes_update f s) = pipes_update f (bc_update gbc s)"
  "lg_update glg (pipes_update f s) = pipes_update f (lg_update glg s)"
  "sb_update gsb (pipes_update f s) = pipes_update f (sb_update gsb s)"
  "itable_update git (pipes_update f s) = pipes_update f (itable_update git s)"
  "files_update gfi (pipes_update f s) = pipes_update f (files_update gfi s)"
  by (cases s; simp)+

lemma file_pipe_apply [simp]:
  "upd_file f g s = Ret () (s\<lparr>files := (files s)(f := g (files s f))\<rparr>)"
  "upd_pipe a h s = Ret () (s\<lparr>pipes := (pipes s)(a := h (pipes s a))\<rparr>)"
  "the_file f s = Ret (files s f) s" "the_pipe a s = Ret (pipes s a) s"
  by (simp_all add: upd_file_def upd_pipe_def the_file_def the_pipe_def)

section \<open>The pipe as a queue\<close>

definition pipe_ok :: "pipe \<Rightarrow> bool" where
  "pipe_ok q \<longleftrightarrow> ring_ok PIPE_SIZE (pi_r q) (pi_w q)"

definition pipe_items :: "pipe \<Rightarrow> u8 list" where
  "pipe_items q = ring_list PIPE_SIZE (pi_data q) (pi_r q) (pi_w q)"

interpretation pipeq: fifo pipe_ok pipe_items "PIPE_SIZE - 1" pipe_full pipe_empty pipe_put pipe_get pipe_drop
proof (unfold_locales, goal_cases)
  case (1 q)
  then show ?case using ring_len_less [of PIPE_SIZE "pi_r q" "pi_w q"] by (simp add: pipe_ok_def pipe_items_def)
next
  case (2 q) then show ?case by (simp add: pipe_ok_def pipe_items_def pipe_full_def ring_full)
next
  case (3 q) then show ?case by (auto simp: pipe_ok_def pipe_items_def pipe_empty_def ring_empty)
next
  case (4 q c)
  then show ?case
    by (simp add: pipe_ok_def pipe_items_def pipe_put_def pipe_full_def ring_next_ok ring_put)
next
  case (5 q)
  then have "pi_r q \<noteq> pi_w q" by (simp add: pipe_empty_def)
  then show ?case using 5(1) ring_take [of PIPE_SIZE "pi_r q" "pi_w q" "pi_data q"]
    by (simp add: pipe_ok_def pipe_items_def pipe_get_def pipe_drop_def ring_next_ok)
qed

text \<open>The ends of the pipe stay as they are while bytes go through it.\<close>

definition same_ends :: "pipe \<Rightarrow> pipe \<Rightarrow> bool" where
  "same_ends q r \<longleftrightarrow> pi_read_open r = pi_read_open q \<and> pi_write_open r = pi_write_open q"

lemma same_ends_simps [simp]: "same_ends q q" "same_ends q (pipe_put c q)" "same_ends q (pipe_drop q)"
  by (simp_all add: same_ends_def pipe_put_def pipe_drop_def)

lemma same_ends_trans: "same_ends q r \<Longrightarrow> same_ends r t \<Longrightarrow> same_ends q t"
  by (simp add: same_ends_def)

section \<open>User buffers, one byte at a time\<close>

lemma ubytes_Suc: "ubytes m root a (Suc n) = m (uaddr m root a) # ubytes m root (a + 1) n"
  by (simp add: ubytes_def upt_conv_Cons map_Suc_upt [symmetric] add.assoc del: upt_Suc)

lemma ubuf_Suc:
  assumes "ubuf m root a (Suc n)"
  shows "ubuf m root a 1" "ubuf m root (a + 1) n"
proof -
  have "unat (a + of_nat 1) = unat a + 1" using assms by (intro unat_add_of_nat) (simp add: ubuf_def)
  then have u: "unat (a + 1) = unat a + 1" by simp
  have e: "a + 1 + of_nat i = a + of_nat (Suc i)" for i by (simp add: add.assoc)
  have "\<forall>i<n. user_page m root (a + of_nat (Suc i)) \<and> PTE2PA (pmap m root (a + of_nat (Suc i))) \<in> pages - pt_tables m 2 root"
    using assms unfolding ubuf_def by blast
  then show "ubuf m root (a + 1) n" using assms unfolding ubuf_def e u by simp
  show "ubuf m root a 1" using assms by (auto simp: ubuf_def)
qed

lemma uwritable_Suc:
  assumes "uwritable m root a (Suc n)"
  shows "uwritable m root a 1" "uwritable m root (a + 1) n"
    "i < n \<Longrightarrow> uaddr m root (a + 1 + of_nat i) \<noteq> uaddr m root a"
proof -
  have e: "a + 1 + of_nat i = a + of_nat (Suc i)" for i by (simp add: add.assoc)
  have inj: "inj_on (\<lambda>i. uaddr m root (a + of_nat i)) {..<Suc n}" using assms by (simp add: uwritable_def)
  show "uwritable m root a 1" using assms by (auto simp: uwritable_def inj_on_def dest: spec [of _ 0])
  have "inj_on (\<lambda>i. uaddr m root (a + of_nat (Suc i))) {..<n}"
    using inj by (auto simp: inj_on_def simp del: of_nat_Suc)
  then show "uwritable m root (a + 1) n" using assms unfolding uwritable_def e by auto
  show "uaddr m root (a + 1 + of_nat i) \<noteq> uaddr m root a" if "i < n"
    using inj_onD [OF inj, of "Suc i" 0] that unfolding e by (auto simp del: of_nat_Suc)
qed

lemma pipe_write_loop_ok:
  assumes "avail s (L_proc p)" "\<not> p_killed (procs s p)" "pi_read_open (pipes s pi)" "pipe_ok (pipes s pi)"
    and "ubuf (mem s) (p_page_table (procs s p)) src n" "length (pipe_items (pipes s pi)) + n < PIPE_SIZE"
  shows "\<exists>q. pipe_write_loop pi p src n s = Ret (Some n) (s\<lparr>pipes := (pipes s)(pi := q)\<rparr>) \<and> pipe_ok q \<and>
    same_ends (pipes s pi) q \<and>
    pipe_items q = pipe_items (pipes s pi) @ ubytes (mem s) (p_page_table (procs s p)) src n"
  using assms
proof (induction n arbitrary: s src)
  case 0
  have "s\<lparr>pipes := (pipes s)(pi := pipes s pi)\<rparr> = s" by simp
  then show ?case using 0 by (intro exI [of _ "pipes s pi"]) (simp add: ubytes_def)
next
  case (Suc n)
  let ?pt = "p_page_table (procs s p)" and ?q = "pipes s pi"
  let ?c = "mem s (uaddr (mem s) ?pt src)"
  define s1 where "s1 = s\<lparr>pipes := (pipes s)(pi := pipe_put ?c ?q)\<rparr>"
  note u = ubuf_Suc [OF Suc.prems(5)]
  have nf: "\<not> pipe_full ?q" using pipeq.full_iff [OF Suc.prems(4)] Suc.prems(6) by simp
  note p = pipeq.put_ok [OF Suc.prems(4) nf, of ?c]
  have "copy_in ?pt src (Suc 0) s = Ret (0, [?c]) s"
    using copy_in_ok [of s ?pt src 1] u(1) by (simp add: ubytes_def)
  then have st: "pipe_write_loop pi p src (Suc n) s = bindK (pipe_write_loop pi p (src + 1) n) (\<lambda>i. retK (map_option Suc i)) s1"
    using Suc.prems(1-3) nf by (simp add: s1_def)
  have s1: "pipes s1 pi = pipe_put ?c ?q" "mem s1 = mem s" "procs s1 = procs s" "avail s1 L = avail s L" for L
    by (simp_all add: s1_def)
  have "pi_read_open (pipe_put ?c ?q)" using Suc.prems(3) by (simp add: pipe_put_def)
  then obtain q where q: "pipe_write_loop pi p (src + 1) n s1 = Ret (Some n) (s1\<lparr>pipes := (pipes s1)(pi := q)\<rparr>)" "pipe_ok q"
    "same_ends (pipe_put ?c ?q) q"
    "pipe_items q = pipe_items (pipe_put ?c ?q) @ ubytes (mem s) ?pt (src + 1) n"
    using Suc.IH [of s1 "src + 1"] Suc.prems p u(2) unfolding s1 by (auto simp del: fun_upd_apply)
  have e: "s1\<lparr>pipes := (pipes s1)(pi := q)\<rparr> = s\<lparr>pipes := (pipes s)(pi := q)\<rparr>" by (simp add: s1_def)
  have "same_ends ?q q" using q(3) by (simp add: same_ends_def pipe_put_def)
  then show ?case using st q p unfolding e
    by (intro exI [of _ q]) (simp add: ubytes_Suc del: fun_upd_apply pipe_write_loop.simps)
qed

lemma pipe_read_loop_ok:
  assumes "pipe_ok (pipes s pi)" "ubuf (mem s) pt dst n" "uwritable (mem s) pt dst n"
    and k: "k = min n (length (pipe_items (pipes s pi)))"
  shows "\<exists>q m. pipe_read_loop pi pt dst n s = Ret k (s\<lparr>mem := m, pipes := (pipes s)(pi := q)\<rparr>) \<and> pipe_ok q \<and>
    same_ends (pipes s pi) q \<and> pipe_items q = drop k (pipe_items (pipes s pi)) \<and>
    pmap m pt = pmap (mem s) pt \<and> ubytes m pt dst k = take k (pipe_items (pipes s pi)) \<and>
    (\<forall>x. (\<forall>i<n. x \<noteq> uaddr (mem s) pt (dst + of_nat i)) \<longrightarrow> m x = mem s x)"
  using assms
proof (induction n arbitrary: s dst k)
  case 0
  have "s\<lparr>mem := mem s, pipes := (pipes s)(pi := pipes s pi)\<rparr> = s" by (cases s) simp
  then show ?case using 0 by (intro exI [of _ "pipes s pi"] exI [of _ "mem s"]) (simp add: ubytes_def)
next
  case (Suc n)
  let ?q = "pipes s pi"
  show ?case
  proof (cases "pipe_empty ?q")
    case True
    have "s\<lparr>mem := mem s, pipes := (pipes s)(pi := ?q)\<rparr> = s" by (cases s) simp
    moreover have "k = 0" "pipe_items ?q = []" using Suc.prems True pipeq.empty_iff by auto
    ultimately show ?thesis
      using True Suc.prems by (intro exI [of _ ?q] exI [of _ "mem s"]) (simp add: ubytes_def)
  next
    case False
    note g = pipeq.get_ok [OF Suc.prems(1) False]
    note u = ubuf_Suc [OF Suc.prems(2)] and w = uwritable_Suc [OF Suc.prems(3)]
    define s0 where "s0 = s\<lparr>pipes := (pipes s)(pi := pipe_drop ?q)\<rparr>"
    obtain m1 where m1: "copy_out pt dst [pipe_get ?q] s0 = Ret 0 (s0\<lparr>mem := m1\<rparr>)" "pt_tree m1 2 pt"
      "pt_tables m1 2 pt = pt_tables (mem s) 2 pt" "pmap m1 pt = pmap (mem s) pt"
      "m1 (uaddr (mem s) pt dst) = pipe_get ?q" "\<And>x. x \<noteq> uaddr (mem s) pt dst \<Longrightarrow> m1 x = mem s x"
      using copy_out_ok [of s0 pt dst "[pipe_get ?q]"] u(1) w(1) by (auto simp: s0_def)
    define s1 where "s1 = s\<lparr>mem := m1, pipes := (pipes s)(pi := pipe_drop ?q)\<rparr>"
    have s1: "pipes s1 pi = pipe_drop ?q" "mem s1 = m1" by (simp_all add: s1_def)
    have ua: "uaddr m1 pt = uaddr (mem s) pt" using m1(4) by (simp add: uaddr_def fun_eq_iff)
    have st: "pipe_read_loop pi pt dst (Suc n) s = bindK (pipe_read_loop pi pt (dst + 1) n) (\<lambda>i. retK (i + 1)) s1"
      using False m1(1) by (simp add: s0_def s1_def)
    have uw: "ubuf m1 pt (dst + 1) n" "uwritable m1 pt (dst + 1) n"
      using u(2) w(2) m1(2-4) ua by (simp_all add: ubuf_def user_page_def uwritable_def)
    define k' where "k' = min n (length (pipe_items (pipe_drop ?q)))"
    have k: "k = Suc k'" using Suc.prems(4) g by (simp add: k'_def)
    obtain q m where m: "pipe_read_loop pi pt (dst + 1) n s1 = Ret k' (s1\<lparr>mem := m, pipes := (pipes s1)(pi := q)\<rparr>)" "pipe_ok q"
      "same_ends (pipe_drop ?q) q" "pipe_items q = drop k' (pipe_items (pipe_drop ?q))" "pmap m pt = pmap m1 pt"
      "ubytes m pt (dst + 1) k' = take k' (pipe_items (pipe_drop ?q))"
      "\<forall>x. (\<forall>i<n. x \<noteq> uaddr m1 pt (dst + 1 + of_nat i)) \<longrightarrow> m x = m1 x"
      using Suc.IH [of s1 "dst + 1" k'] g uw k'_def unfolding s1 by blast
    have um: "uaddr m pt = uaddr (mem s) pt" using m(5) m1(4) by (simp add: uaddr_def fun_eq_iff)
    have "m (uaddr (mem s) pt dst) = m1 (uaddr (mem s) pt dst)"
      using w(3) by (intro m(7) [rule_format]) (simp add: ua not_sym)
    then have ub: "ubytes m pt dst k = take k (pipe_items ?q)" using m(6) m1(5) g k um by (simp add: ubytes_Suc)
    have "m x = mem s x" if "\<forall>i<Suc n. x \<noteq> uaddr (mem s) pt (dst + of_nat i)" for x
    proof -
      have "x \<noteq> uaddr (mem s) pt dst" using that [rule_format, of 0] by simp
      moreover have "x \<noteq> uaddr m1 pt (dst + 1 + of_nat i)" if "i < n" for i
        using \<open>\<forall>i<Suc n. _\<close> [rule_format, of "Suc i"] that by (simp add: ua add.assoc)
      ultimately show ?thesis using m(7) m1(6) by simp
    qed
    moreover have "s1\<lparr>mem := m, pipes := (pipes s1)(pi := q)\<rparr> = s\<lparr>mem := m, pipes := (pipes s)(pi := q)\<rparr>" by (simp add: s1_def)
    moreover have "same_ends ?q q" using m(3) by (simp add: same_ends_def pipe_drop_def)
    moreover have "pipe_items q = drop k (pipe_items ?q)" using m(4) g k by simp
    ultimately show ?thesis using st m(1,2,5) ub m1(4) k
      by (intro exI [of _ q] exI [of _ m]) (simp del: fun_upd_apply pipe_read_loop.simps)
  qed
qed

lemma woken_same [simp]:
  "p_page_table (woken rp ch ps i) = p_page_table (ps i)" "p_killed (woken rp ch ps i) = p_killed (ps i)"
  by (simp_all add: woken_def)

lemma pipe_write_ok:
  assumes s: "quiet s" "cur_proc s = Some p" "\<not> p_killed (procs s p)"
    and q: "pi_read_open (pipes s pi)" "pipe_ok (pipes s pi)" "length (pipe_items (pipes s pi)) + unat n < PIPE_SIZE"
    and u: "ubuf (mem s) (p_page_table (procs s p)) src (unat n)"
  shows "\<exists>q. pipe_write pi src n s =
      Ret (int (unat n)) (s\<lparr>procs := woken (Some p) (Ch_pipe_r pi) (procs s), pipes := (pipes s)(pi := q)\<rparr>) \<and>
    pipe_ok q \<and> same_ends (pipes s pi) q \<and>
    pipe_items q = pipe_items (pipes s pi) @ ubytes (mem s) (p_page_table (procs s p)) src (unat n)"
proof -
  let ?g = "grab (L_pipe pi) s"
  have a: "avail ?g (L_proc p)" using s(1) by simp
  obtain q where q: "pipe_write_loop pi p src (unat n) ?g = Ret (Some (unat n)) (?g\<lparr>pipes := (pipes s)(pi := q)\<rparr>)"
    "pipe_ok q" "same_ends (pipes s pi) q"
    "pipe_items q = pipe_items (pipes s pi) @ ubytes (mem s) (p_page_table (procs s p)) src (unat n)"
    using pipe_write_loop_ok [OF a, of pi src "unat n"] s q u by (auto simp del: fun_upd_apply)
  have "pipe_write pi src n s =
      Ret (int (unat n)) (s\<lparr>procs := woken (Some p) (Ch_pipe_r pi) (procs s), pipes := (pipes s)(pi := q)\<rparr>)"
    unfolding pipe_write_def using s q(1) avail_hart_ok [OF quiet_avail [OF s(1)]]
    by (simp del: fun_upd_apply)
  then show ?thesis using q by blast
qed

lemma pipe_read_ok:
  assumes s: "quiet s" "cur_proc s = Some p" and q: "pipe_ok (pipes s pi)" "\<not> pipe_empty (pipes s pi) \<or> \<not> pi_write_open (pipes s pi)"
    and u: "ubuf (mem s) (p_page_table (procs s p)) dst (unat n)" "uwritable (mem s) (p_page_table (procs s p)) dst (unat n)"
    and k: "k = min (unat n) (length (pipe_items (pipes s pi)))"
  shows "\<exists>q m. pipe_read pi dst n s =
      Ret (int k) (s\<lparr>procs := woken (Some p) (Ch_pipe_w pi) (procs s), mem := m, pipes := (pipes s)(pi := q)\<rparr>) \<and>
    pipe_ok q \<and> same_ends (pipes s pi) q \<and> pipe_items q = drop k (pipe_items (pipes s pi)) \<and>
    ubytes m (p_page_table (procs s p)) dst k = take k (pipe_items (pipes s pi))"
proof -
  let ?g = "grab (L_pipe pi) s" and ?pt = "p_page_table (procs s p)"
  have ne: "(pipe_empty (pipes s pi) \<and> pi_write_open (pipes s pi)) = False" using assms(4) by blast
  obtain q m where q: "pipe_read_loop pi ?pt dst (unat n) ?g = Ret k (?g\<lparr>mem := m, pipes := (pipes s)(pi := q)\<rparr>)"
    "pipe_ok q" "same_ends (pipes s pi) q" "pipe_items q = drop k (pipe_items (pipes s pi))"
    "ubytes m ?pt dst k = take k (pipe_items (pipes s pi))"
    using pipe_read_loop_ok [of ?g pi ?pt dst "unat n" k] assms by (auto simp del: fun_upd_apply)
  have "pipe_read pi dst n s =
      Ret (int k) (s\<lparr>procs := woken (Some p) (Ch_pipe_w pi) (procs s), mem := m, pipes := (pipes s)(pi := q)\<rparr>)"
    unfolding pipe_read_def using s q(1) avail_hart_ok [OF quiet_avail [OF s(1)]]
    by (simp add: ne del: fun_upd_apply)
  then show ?thesis using q by blast
qed

text \<open>A state with one process whose page table maps one user page at address 0, and an empty pipe.\<close>

definition file_ready :: kfile where
  "file_ready = (kdev.extend (dev_ready 0) (kfile.fields
     (\<lambda>_. \<lparr>f_type = FD_NONE, f_readable = False, f_writable = False, f_refcnt = 0, f_inode = None, f_pi = 0, f_off = 0, f_major = 0\<rparr>)
     (\<lambda>_. \<lparr>pi_r = 1020, pi_w = 1020, pi_read_open = True, pi_write_open = True, pi_data = \<lambda>_. 0\<rparr>)
     (\<lambda>_. \<lparr>dev_read = Null_fn, dev_write = Null_fn\<rparr>)))
     \<lparr>mem := mem one_page, procs := \<lambda>i. (procs (dev_ready 0) i)\<lparr>p_page_table := 0x1000\<rparr>\<rparr>"

lemma file_ready_ok:
  "calm file_ready 0" "mem file_ready = mem one_page" "p_page_table (procs file_ready 0) = 0x1000"
  "\<not> p_killed (procs file_ready 0)"
  "pipes file_ready pi = \<lparr>pi_r = 1020, pi_w = 1020, pi_read_open = True, pi_write_open = True, pi_data = \<lambda>_. 0\<rparr>"
  by (simp_all add: file_ready_def dev_start_defs kfile.defs)

section \<open>Properties\<close>

text \<open>
  C6. A pipe is a byte queue between user buffers. A write that fits appends the bytes of the
  writer's buffer and returns their number; a read takes the oldest bytes, as many as there are
  up to the number asked for, and leaves them in the reader's buffer in order.
\<close>

theorem pipe_fifo:
  assumes "quiet s" "cur_proc s = Some p" "\<not> p_killed (procs s p)" "pipe_ok (pipes s pi)"
    and "ubuf (mem s) (p_page_table (procs s p)) a (unat n)"
  shows "(pi_read_open (pipes s pi) \<and> length (pipe_items (pipes s pi)) + unat n < PIPE_SIZE \<longrightarrow>
      (\<exists>t. pipe_write pi a n s = Ret (int (unat n)) t \<and> pipe_ok (pipes t pi) \<and>
        pipe_items (pipes t pi) = pipe_items (pipes s pi) @ ubytes (mem s) (p_page_table (procs s p)) a (unat n))) \<and>
    (pipe_items (pipes s pi) \<noteq> [] \<and> uwritable (mem s) (p_page_table (procs s p)) a (unat n) \<longrightarrow>
      (\<exists>t k. pipe_read pi a n s = Ret (int k) t \<and> k = min (unat n) (length (pipe_items (pipes s pi))) \<and>
        pipe_ok (pipes t pi) \<and> pipe_items (pipes t pi) = drop k (pipe_items (pipes s pi)) \<and>
        ubytes (mem t) (p_page_table (procs s p)) a k = take k (pipe_items (pipes s pi))))"
proof (intro conjI impI)
  assume "pi_read_open (pipes s pi) \<and> length (pipe_items (pipes s pi)) + unat n < PIPE_SIZE"
  then show "\<exists>t. pipe_write pi a n s = Ret (int (unat n)) t \<and> pipe_ok (pipes t pi) \<and>
        pipe_items (pipes t pi) = pipe_items (pipes s pi) @ ubytes (mem s) (p_page_table (procs s p)) a (unat n)"
    using pipe_write_ok [OF assms(1,2,3) _ assms(4) _ assms(5)] by fastforce
next
  assume "pipe_items (pipes s pi) \<noteq> [] \<and> uwritable (mem s) (p_page_table (procs s p)) a (unat n)"
  then show "\<exists>t k. pipe_read pi a n s = Ret (int k) t \<and> k = min (unat n) (length (pipe_items (pipes s pi))) \<and>
        pipe_ok (pipes t pi) \<and> pipe_items (pipes t pi) = drop k (pipe_items (pipes s pi)) \<and>
        ubytes (mem t) (p_page_table (procs s p)) a k = take k (pipe_items (pipes s pi))"
    using pipe_read_ok [OF assms(1,2,4) _ assms(5) _ refl] pipeq.empty_iff [OF assms(4)] by fastforce
qed

theorem pipe_fifo_witness:
  "\<exists>t. pipe_write 0x5000 0 10 file_ready = Ret 10 t \<and> length (pipe_items (pipes t 0x5000)) = 10"
proof -
  note f = file_ready_ok and c = calmD(1,4) [OF file_ready_ok(1)]
  have o: "pipe_ok (pipes file_ready 0x5000)" "pipe_items (pipes file_ready 0x5000) = []"
    by (simp_all add: f pipe_ok_def pipe_items_def ring_ok_def ring_list_def ring_len_def PIPE_SIZE_def)
  have u: "ubuf (mem file_ready) (p_page_table (procs file_ready 0)) 0 (unat (10 :: u64))"
    unfolding f(2,3) by (rule one_page_buf) simp
  have "pi_read_open (pipes file_ready 0x5000)" by (simp add: f(5))
  then show ?thesis
    using pipe_fifo [OF c f(4) o(1) u, THEN conjunct1] by (auto simp: o(2) PIPE_SIZE_def ubytes_def)
qed

end
