(* ===== verification/Ifile.thy ===== *)
theory Ifile
  imports Inode
begin

text \<open>
  What the operations on inodes do to the contents of files, over the contract of the log:
  \<open>txn s L D W H\<close> says that \<open>L\<close> gives the contents of every block as the running transaction sees
  them. \<open>file_block\<close> is the block map of an inode, direct and indirect, and \<open>fbyte\<close> the byte of a
  file at an offset.
\<close>

section \<open>The block map\<close>

definition file_block :: "(u32 \<Rightarrow> blk) \<Rightarrow> m_inode \<Rightarrow> nat \<Rightarrow> u32" where
  "file_block L n k =
     (if k < N_DIRECT then i_addrs n k
      else if k - N_DIRECT < N_INDIRECT * APB then
        (let a = i_addrs n (N_DIRECT + (k - N_DIRECT) div APB) in
         if a = 0 then 0 else ld32 (L a) (4 * ((k - N_DIRECT) mod APB)))
      else 0)"

definition fbyte :: "(u32 \<Rightarrow> blk) \<Rightarrow> m_inode \<Rightarrow> nat \<Rightarrow> u8" where
  "fbyte L n off = L (file_block L n (off div BLOCK_SIZE)) (off mod BLOCK_SIZE)"

text \<open>The indirect blocks of an inode, and a file whose blocks are its own.\<close>

definition indirect :: "m_inode \<Rightarrow> u32 set" where
  "indirect n = i_addrs n ` {N_DIRECT..<N_DIRECT + N_INDIRECT} - {0}"

definition file_ok :: "log_state \<Rightarrow> (u32 \<Rightarrow> blk) \<Rightarrow> m_inode \<Rightarrow> bool" where
  "file_ok g L n \<longleftrightarrow> i_dev n = ROOT_DEV \<and> (\<forall>a\<in>indirect n. home g a) \<and>
     (\<forall>k. file_block L n k \<noteq> 0 \<longrightarrow> home g (file_block L n k) \<and> file_block L n k \<notin> indirect n \<and>
        (\<forall>j. file_block L n j = file_block L n k \<longrightarrow> j = k))"

lemma file_okD:
  assumes "file_ok g L n"
  shows "i_dev n = ROOT_DEV" "a \<in> indirect n \<Longrightarrow> home g a"
    "file_block L n k \<noteq> 0 \<Longrightarrow> home g (file_block L n k)"
    "file_block L n k \<noteq> 0 \<Longrightarrow> file_block L n k \<notin> indirect n"
    "file_block L n k \<noteq> 0 \<Longrightarrow> file_block L n j = file_block L n k \<Longrightarrow> j = k"
  using assms by (auto simp: file_ok_def)

lemma file_block_cong:
  assumes "\<And>a. a \<in> indirect n \<Longrightarrow> L' a = L a" "i_addrs n' = i_addrs n"
  shows "file_block L' n' = file_block L n"
proof
  fix k
  have "(k - N_DIRECT) div APB < N_INDIRECT" if "k - N_DIRECT < N_INDIRECT * APB"
    using that by (simp add: less_mult_imp_div_less)
  then show "file_block L' n' k = file_block L n k"
    using assms by (auto simp: file_block_def Let_def indirect_def)
qed

lemma file_ok_cong:
  assumes "file_ok g L n" "\<And>a. a \<in> indirect n \<Longrightarrow> L' a = L a" "i_addrs n' = i_addrs n" "i_dev n' = i_dev n" "home g' = home g"
  shows "file_ok g' L' n'"
  using assms(1,4,5) file_block_cong [OF assms(2,3)] assms(3) by (simp add: file_ok_def indirect_def)

lemma log_step_itable: "log_step s t \<Longrightarrow> itable t = itable s"
  by (auto simp: log_step_def)

lemma home_bno: "home g a \<Longrightarrow> bno_ok a"
  by (simp add: home_def)

lemma txn_room: "txn s L D W H \<Longrightarrow> unat (lh_n (lg s)) < N_BUF"
  by (intro log_n_bound txnD)

lemma txn_peek:
  assumes c: "calm s p" and t: "txn s L D W H" and n: "bno_ok n" "H n = None"
    and r: "finite (dom H)" "unat (lh_n (lg s)) + card (dom H) < N_BUF"
  shows "\<exists>b u v. bread ROOT_DEV n s = Ret b u \<and> b_data (bufs (bc u) b) = L n \<and> brelse b u = Ret () v \<and>
    blk_step s v \<and> txn v L D W H"
proof -
  obtain b u where 1: "bread ROOT_DEV n s = Ret b u" "blk_step s u" "txn u L D W (H(n \<mapsto> b))"
    using txn_read [OF c t n r] by blast
  have h: "(H(n \<mapsto> b)) n = Some b" by simp
  have c1: "calm u p" using c 1(2) by (simp add: blk_stepD)
  have cl: "pins (lg u) n = 0 \<longrightarrow> L n = D n"
    using bcacheD(7) [OF txnD(3) [OF t] n(1)] n(2) blk_step_log(1) [OF 1(2)] by (simp add: refs_def)
  have e: "(H(n \<mapsto> b))(n := None) = H" using n(2) by auto
  obtain v where 2: "brelse b u = Ret () v" "blk_step u v" "txn v L D W H"
    using txn_release [OF c1 1(3) h cl] unfolding e by blast
  then show ?thesis using 1(1) txn_held(1) [OF 1(3) h] blk_step_trans [OF 1(2) 2(2)] by blast
qed

lemma bmap_mapped:
  assumes c: "calm s p" and t: "txn s L D W Map.empty" and f: "file_ok (lg s) L (itable s i)"
    and a: "a = file_block L (itable s i) (unat k)" "a \<noteq> 0"
  shows "\<exists>t. bmap i k s = Ret a t \<and> blk_step s t \<and> txn t L D W Map.empty"
proof (cases "unat k < N_DIRECT")
  case True
  then have "bmap i k s = Ret a s"
    using a by (simp add: bmap_def bmap_addr_def the_inode_def file_block_def)
  then show ?thesis using t blk_step_refl by blast
next
  case False
  define j where "j = unat k - N_DIRECT"
  let ?b = "i_addrs (itable s i) (N_DIRECT + j div APB)"
  have j: "j < N_INDIRECT * APB" "?b \<noteq> 0" "a = ld32 (L ?b) (4 * (j mod APB))"
    using False a by (auto simp: file_block_def Let_def j_def split: if_splits)
  have "j div APB < N_INDIRECT" using j(1) by (simp add: less_mult_imp_div_less)
  then have "?b \<in> indirect (itable s i)" using j(2) by (auto simp: indirect_def)
  then have b: "bno_ok ?b" using home_bno file_okD(2) [OF f] by blast
  obtain bf u v where u: "bread ROOT_DEV ?b s = Ret bf u" "b_data (bufs (bc u) bf) = L ?b" "brelse bf u = Ret () v"
    "blk_step s v" "txn v L D W Map.empty"
    using txn_peek [OF c t b] txn_room [OF t] by auto
  have "bmap i k s = Ret a v"
    using False j a(2) u(1-3) file_okD(1) [OF f]
    by (simp add: bmap_def bmap_addr_def the_inode_def buf_data_def Let_def flip: j_def)
  then show ?thesis using u(4,5) by blast
qed

section \<open>Reading\<close>

lemma chunk_len:
  assumes "0 < n" "len = min (BLOCK_SIZE - off mod BLOCK_SIZE) n"
  shows "0 < len" "len \<le> n" "off mod BLOCK_SIZE + len \<le> BLOCK_SIZE"
    "k < len \<Longrightarrow> (off + k) div BLOCK_SIZE = off div BLOCK_SIZE"
    "k < len \<Longrightarrow> (off + k) mod BLOCK_SIZE = off mod BLOCK_SIZE + k"
proof -
  have m: "off mod BLOCK_SIZE < BLOCK_SIZE" by (simp add: BLOCK_SIZE_def)
  then show l: "0 < len" "len \<le> n" "off mod BLOCK_SIZE + len \<le> BLOCK_SIZE" using assms by auto
  assume "k < len"
  then have k: "off mod BLOCK_SIZE + k < BLOCK_SIZE" using l(3) by linarith
  have e: "off + k = off mod BLOCK_SIZE + k + off div BLOCK_SIZE * BLOCK_SIZE" by simp
  show "(off + k) div BLOCK_SIZE = off div BLOCK_SIZE"
    unfolding e using k by (subst div_mult_self1) auto
  show "(off + k) mod BLOCK_SIZE = off mod BLOCK_SIZE + k"
    unfolding e using k by (subst mod_mult_self1) auto
qed

lemma fbyte_chunk:
  assumes "0 < n" "len = min (BLOCK_SIZE - off mod BLOCK_SIZE) n"
  shows "map (L (file_block L m (off div BLOCK_SIZE))) [off mod BLOCK_SIZE..<off mod BLOCK_SIZE + len] =
    map (fbyte L m) [off..<off + len]"
  by (rule nth_equalityI) (simp_all add: fbyte_def chunk_len(4,5) [OF assms])

lemma file_block_bound: "file_block L n k \<noteq> 0 \<Longrightarrow> k < N_DIRECT + N_INDIRECT * APB"
  by (auto simp: file_block_def split: if_splits)

lemma unat_block: "file_block L n k \<noteq> 0 \<Longrightarrow> unat (of_nat k :: u32) = k"
  using file_block_bound [of L n k]
  by (simp add: unat_of_nat take_bit_nat_eq_self N_DIRECT_def N_INDIRECT_def APB_def BLOCK_SIZE_def)

lemma readi_loop_ok:
  assumes "calm s p" "txn s L D W Map.empty" "file_ok (lg s) L (itable s i)"
    and "\<And>k. k < n \<Longrightarrow> file_block L (itable s i) ((off + k) div BLOCK_SIZE) \<noteq> 0"
  shows "\<exists>t. readi_loop i To_kernel (chunks off n) s = Ret (n, map (fbyte L (itable s i)) [off..<off + n]) t \<and>
    blk_step s t \<and> txn t L D W Map.empty"
  using assms
proof (induction off n arbitrary: s rule: chunks.induct)
  case (1 off n)
  show ?case
  proof (cases "n = 0")
    case True
    then show ?thesis using "1.prems"(2) blk_step_refl by (auto simp: chunks.simps)
  next
    case False
    define len where "len = min (BLOCK_SIZE - off mod BLOCK_SIZE) n"
    let ?n = "itable s i"
    let ?a = "file_block L ?n (off div BLOCK_SIZE)"
    note ck = chunk_len [OF _ len_def]
    have a: "?a \<noteq> 0" using "1.prems"(4) [of 0] False by simp
    obtain u where u: "bmap i (of_nat (off div BLOCK_SIZE)) s = Ret ?a u" "blk_step s u" "txn u L D W Map.empty"
      using bmap_mapped [OF "1.prems"(1-3), of ?a "of_nat (off div BLOCK_SIZE)"] a by (auto simp: unat_block [OF a])
    have cu: "calm u p" and iu: "itable u = itable s" "lg u = lg s"
      using "1.prems"(1) u(2) by (simp_all add: blk_stepD log_step_itable [OF log_step_blk] blk_step_log)
    obtain b v w where b: "bread ROOT_DEV ?a u = Ret b v" "b_data (bufs (bc v) b) = L ?a" "brelse b v = Ret () w"
      "blk_step u w" "txn w L D W Map.empty"
      using txn_peek [OF cu u(3) home_bno [OF file_okD(3) [OF "1.prems"(3) a]]] txn_room [OF u(3)] by auto
    have sw: "blk_step s w" using blk_step_trans [OF u(2) b(4)] .
    have cw: "calm w p" and iw: "itable w = itable s" "lg w = lg s"
      using "1.prems"(1) sw by (simp_all add: blk_stepD log_step_itable [OF log_step_blk] blk_step_log)
    obtain t where t: "readi_loop i To_kernel (chunks (off + len) (n - len)) w =
        Ret (n - len, map (fbyte L ?n) [off + len..<off + len + (n - len)]) t" "blk_step w t" "txn t L D W Map.empty"
      using "1.IH" [OF False len_def cw b(5)] "1.prems"(3,4) ck(2) False unfolding iw
      by (auto simp: add.assoc)
    have split: "[off..<off + n] = [off..<off + len] @ [off + len..<off + len + (n - len)]"
      using ck(2) False upt_add_eq_append [of off "off + len" "n - len"] by simp
    have "readi_loop i To_kernel (chunks off n) s = Ret (n, map (fbyte L ?n) [off..<off + n]) t"
      using u(1) b(1-3) t(1) ck(2) False file_okD(1) [OF "1.prems"(3)] a
      by (subst chunks.simps)
         (simp add: Let_def flip: len_def, simp add: the_inode_def iu buf_data_def either_copy_out_def dst_add_def
           fbyte_chunk [OF _ len_def] split)
    then show ?thesis using t(3) blk_step_trans [OF sw t(2)] by blast
  qed
qed

lemma unat_u32_u64: "unat (ucast (z :: u32) :: u64) = unat z"
proof -
  have "unat z < 2 ^ LENGTH(32)" by (rule unsigned_less)
  then show ?thesis by (simp add: unsigned_ucast_eq take_bit_nat_eq_self)
qed

lemma readi_ok:
  assumes "calm s p" "txn s L D W Map.empty" "file_ok (lg s) L (itable s i)"
    and off: "unat off \<le> unat (i_size (itable s i))" "unat off + unat n < 2 ^ 64"
    and m: "m = min (unat n) (unat (i_size (itable s i)) - unat off)"
    and "\<And>k. k < m \<Longrightarrow> file_block L (itable s i) ((unat off + k) div BLOCK_SIZE) \<noteq> 0"
  shows "\<exists>t. readi i To_kernel off n s = Ret (int m, map (fbyte L (itable s i)) [unat off..<unat off + m]) t \<and>
    blk_step s t \<and> txn t L D W Map.empty"
proof -
  let ?z = "i_size (itable s i)"
  have "unat (off + n) = unat off + unat n" using off(2) by (simp add: unat_word_ariths)
  moreover have "unat ((ucast ?z :: u64) - off) = unat ?z - unat off"
    using off(1) by (subst unat_sub) (simp_all add: word_le_nat_alt unat_u32_u64)
  ultimately have "unat (if unat (off + n) > unat ?z then ucast ?z - off else n) = m"
    using off(1) m by auto
  moreover have "\<not> unat off > unat ?z" using off(1) by simp
  ultimately show ?thesis
    using readi_loop_ok [OF assms(1-3), of m "unat off"] assms(7)
    by (auto simp: readi_def the_inode_def Let_def)
qed

section \<open>Writing\<close>

lemma txn_frame [simp]: "txn (itable_update f s) = txn s"
  by (simp add: fun_eq_iff txn_def bcache_def cached_def locks_ok_def mine_def)

lemma put_chunk:
  assumes ok: "file_ok g L n" and o: "file_block L n (ofs div BLOCK_SIZE) \<noteq> 0"
    and len: "0 < m" "len = min (BLOCK_SIZE - off mod BLOCK_SIZE) m" "length bs = len"
    and a: "a = file_block L n (off div BLOCK_SIZE)" "a \<noteq> 0"
    and L': "L' = L(a := put_bytes (off mod BLOCK_SIZE) bs (L a))"
  shows "fbyte L' n ofs = (if off \<le> ofs \<and> ofs < off + len then bs ! (ofs - off) else fbyte L n ofs)"
proof -
  have "a \<notin> indirect n" using file_okD(4) [OF ok] a by simp
  then have fb: "file_block L' n = file_block L n" by (intro file_block_cong) (auto simp: L')
  show ?thesis
  proof (cases "ofs div BLOCK_SIZE = off div BLOCK_SIZE")
    case True
    have d: "off = off div BLOCK_SIZE * BLOCK_SIZE + off mod BLOCK_SIZE" "ofs = off div BLOCK_SIZE * BLOCK_SIZE + ofs mod BLOCK_SIZE"
      using True by (metis div_mult_mod_eq)+
    then have "off mod BLOCK_SIZE \<le> ofs mod BLOCK_SIZE \<longleftrightarrow> off \<le> ofs"
      "ofs mod BLOCK_SIZE < off mod BLOCK_SIZE + len \<longleftrightarrow> ofs < off + len"
      "off \<le> ofs \<Longrightarrow> ofs mod BLOCK_SIZE - off mod BLOCK_SIZE = ofs - off"
      by linarith+
    then show ?thesis using True a len(3) unfolding fbyte_def fb by (auto simp: L' put_bytes_def)
  next
    case False
    then have "file_block L n (ofs div BLOCK_SIZE) \<noteq> a" using file_okD(5) [OF ok o] a(1) by metis
    moreover have "\<not> (off \<le> ofs \<and> ofs < off + len)"
      using False chunk_len(4) [OF len(1,2), of "ofs - off"] by (cases "ofs - off < len") auto
    ultimately show ?thesis unfolding fbyte_def fb by (auto simp: L')
  qed
qed

lemma session_then:
  "bindK m (\<lambda>b. thenK (f b) (thenK (g b) (thenK (h b) r))) = thenK (bindK m (\<lambda>b. thenK (f b) (thenK (g b) (h b)))) r"
  by (simp add: thenK_def bindK_def fun_eq_iff split: res.split)

lemma ret_bind: "bindK (retK x) f = f x"
  by (simp add: bindK_def retK_def fun_eq_iff)

lemma write_block_ok:
  assumes c: "calm s p" and t: "txn s L D W Map.empty" and f: "file_ok (lg s) L (itable s i)"
    and a: "a = file_block L (itable s i) (unat k)" "a \<noteq> 0"
    and r: "unat (lh_n (lg s)) + 1 < unat (lg_size (lg s))" "0 < lg_outstanding (lg s)"
  shows "\<exists>u w. bmap i k s = Ret a u \<and> itable u = itable s \<and>
    bindK (bread ROOT_DEV a) (\<lambda>b. thenK (set_data b h) (thenK (log_write b) (brelse b))) u = Ret () w \<and>
    txn w (L(a := h (L a))) D W Map.empty \<and> lg w = log_add a (lg s) \<and> log_step s w \<and>
    unat (lh_n (lg w)) \<le> unat (lh_n (lg s)) + 1"
proof -
  obtain u where u: "bmap i k s = Ret a u" "blk_step s u" "txn u L D W Map.empty"
    using bmap_mapped [OF c t f a] by blast
  have cu: "calm u p" and iu: "itable u = itable s" "lg u = lg s"
    using c u(2) by (simp_all add: blk_stepD log_step_itable [OF log_step_blk] blk_step_log)
  have ha: "home (lg u) a" using file_okD(3) [OF f] a by (simp add: iu)
  obtain w where w: "bindK (bread ROOT_DEV a) (\<lambda>b. thenK (set_data b h) (thenK (log_write b) (brelse b))) u = Ret () w"
    "log_step u w" "txn w (L(a := h (L a))) D W Map.empty" "lg w = log_add a (lg s)"
    using log_session [OF cu u(3) ha, of h] txn_room [OF u(3)] r by (auto simp: iu)
  have "unat (lh_n (lg w)) \<le> unat (lh_n (lg s)) + 1"
    unfolding w(4) using log_add_ok(3) [OF txnD(1,2) [OF t]] ha r by (simp add: iu)
  then show ?thesis
    using u(1) iu(1) w log_step_trans [OF log_step_blk [OF u(2)] w(2)] by blast
qed

lemma thenK_assoc: "thenK (thenK a b) c = thenK a (thenK b c)"
  by (simp add: thenK_def bindK_def fun_eq_iff split: res.split)

lemma writei_loop_ok:
  assumes "calm s p" "txn s L D W Map.empty" "file_ok (lg s) L (itable s i)" "length bs = n"
    and "\<And>k. k < n \<Longrightarrow> file_block L (itable s i) ((off + k) div BLOCK_SIZE) \<noteq> 0"
    and "unat (lh_n (lg s)) + length (chunks off n) < unat (lg_size (lg s))" "0 < lg_outstanding (lg s)"
  shows "\<exists>t L'. writei_loop i (From_kernel bs) (chunks off n) s = Ret n t \<and> log_step s t \<and> txn t L' D W Map.empty \<and>
    unat (lh_n (lg t)) \<le> unat (lh_n (lg s)) + length (chunks off n) \<and>
    (\<forall>ofs. file_block L (itable s i) (ofs div BLOCK_SIZE) \<noteq> 0 \<longrightarrow>
       fbyte L' (itable s i) ofs = (if off \<le> ofs \<and> ofs < off + n then bs ! (ofs - off) else fbyte L (itable s i) ofs)) \<and>
    (\<forall>a. (\<forall>k<n. a \<noteq> file_block L (itable s i) ((off + k) div BLOCK_SIZE)) \<longrightarrow> L' a = L a)"
  using assms
proof (induction off n arbitrary: s L bs rule: chunks.induct)
  case (1 off n)
  note pr = "1.prems"
  show ?case
  proof (cases "n = 0")
    case True
    then have "chunks off n = []" by (simp add: chunks.simps)
    then show ?thesis using True pr(2) by (intro exI [of _ s] exI [of _ L]) auto
  next
    case False
    define len where "len = min (BLOCK_SIZE - off mod BLOCK_SIZE) n"
    define N where "N = itable s i"
    define a where "a = file_block L N (off div BLOCK_SIZE)"
    define L1 where "L1 = L(a := put_bytes (off mod BLOCK_SIZE) (take len bs) (L a))"
    note ck = chunk_len [OF _ len_def]
    have n: "0 < n" using False by simp
    have cs: "chunks off n = (off, len) # chunks (off + len) (n - len)"
      using False by (subst chunks.simps) (simp add: Let_def len_def)
    have a: "a \<noteq> 0" using pr(5) [of 0] n by (simp add: a_def N_def)
    obtain u w where u: "bmap i (of_nat (off div BLOCK_SIZE)) s = Ret a u" "itable u = itable s"
      and w: "bindK (bread ROOT_DEV a) (\<lambda>b. thenK (set_data b (put_bytes (off mod BLOCK_SIZE) (take len bs)))
        (thenK (log_write b) (brelse b))) u = Ret () w" "txn w L1 D W Map.empty" "lg w = log_add a (lg s)"
      and sw: "log_step s w" and wn: "unat (lh_n (lg w)) \<le> unat (lh_n (lg s)) + 1"
      using write_block_ok [OF pr(1-3), of a "of_nat (off div BLOCK_SIZE)" "put_bytes (off mod BLOCK_SIZE) (take len bs)"] a pr(6,7)
      by (auto simp: unat_block a_def N_def cs L1_def)
    have ni: "a \<notin> indirect N" using file_okD(4) [OF pr(3)] a by (simp add: a_def N_def)
    have fb: "file_block L1 N = file_block L N" using ni by (intro file_block_cong) (auto simp: L1_def)
    have okw: "file_ok (lg w) L1 (itable w i)"
      by (rule file_ok_cong [OF pr(3)]) (use ni in \<open>auto simp: log_step_itable [OF sw] N_def L1_def w(3)\<close>)
    have IH: "\<exists>t L'. writei_loop i (From_kernel (drop len bs)) (chunks (off + len) (n - len)) w = Ret (n - len) t \<and>
       log_step w t \<and> txn t L' D W Map.empty \<and>
       unat (lh_n (lg t)) \<le> unat (lh_n (lg w)) + length (chunks (off + len) (n - len)) \<and>
       (\<forall>ofs. file_block L1 (itable w i) (ofs div BLOCK_SIZE) \<noteq> 0 \<longrightarrow>
         fbyte L' (itable w i) ofs = (if off + len \<le> ofs \<and> ofs < off + len + (n - len) then drop len bs ! (ofs - (off + len)) else fbyte L1 (itable w i) ofs)) \<and>
       (\<forall>a. (\<forall>k<n - len. a \<noteq> file_block L1 (itable w i) ((off + len + k) div BLOCK_SIZE)) \<longrightarrow> L' a = L1 a)"
    proof (rule "1.IH" [OF False len_def])
      show "calm w p" using pr(1) log_stepD(1) [OF sw] by simp
      show "file_block L1 (itable w i) ((off + len + k) div BLOCK_SIZE) \<noteq> 0" if "k < n - len" for k
        using pr(5) [of "len + k"] that by (simp add: fb log_step_itable [OF sw] add.assoc flip: N_def)
      show "unat (lh_n (lg w)) + length (chunks (off + len) (n - len)) < unat (lg_size (lg w))"
        "0 < lg_outstanding (lg w)"
        using wn pr(6,7) by (simp_all add: cs w(3))
    qed (use w(2) okw pr(4) in simp_all)
    then obtain t L' where t: "writei_loop i (From_kernel (drop len bs)) (chunks (off + len) (n - len)) w = Ret (n - len) t"
       "log_step w t" "txn t L' D W Map.empty"
       "unat (lh_n (lg t)) \<le> unat (lh_n (lg w)) + length (chunks (off + len) (n - len))"
       "\<And>ofs. file_block L N (ofs div BLOCK_SIZE) \<noteq> 0 \<Longrightarrow>
         fbyte L' N ofs = (if off + len \<le> ofs \<and> ofs < off + len + (n - len) then drop len bs ! (ofs - (off + len)) else fbyte L1 N ofs)"
       "\<And>a. (\<forall>k<n - len. a \<noteq> file_block L N ((off + len + k) div BLOCK_SIZE)) \<Longrightarrow> L' a = L1 a"
      unfolding log_step_itable [OF sw] N_def [symmetric] fb by blast
    have run: "writei_loop i (From_kernel bs) (chunks off n) s = Ret n t"
      using u(1) w(1) t(1) a ck(2) [OF n] file_okD(1) [OF pr(3)] pr(4)
      by (simp add: cs the_inode_def u(2) either_copy_in_def src_add_def ret_bind session_then)
    have bytes: "fbyte L' N ofs = (if off \<le> ofs \<and> ofs < off + n then bs ! (ofs - off) else fbyte L N ofs)"
      if o: "file_block L N (ofs div BLOCK_SIZE) \<noteq> 0" for ofs
    proof -
      have "fbyte L1 N ofs = (if off \<le> ofs \<and> ofs < off + len then take len bs ! (ofs - off) else fbyte L N ofs)"
        using pr(3,4) ck(2) [OF n] a by (intro put_chunk [OF _ o n len_def _ a_def _ L1_def]) (auto simp: N_def)
      then show ?thesis using t(5) [OF o] ck(2) [OF n] pr(4) by (auto simp: nth_drop)
    qed
    have rest: "L' b = L b" if b: "\<forall>k<n. b \<noteq> file_block L N ((off + k) div BLOCK_SIZE)" for b
    proof -
      have "\<forall>k<n - len. b \<noteq> file_block L N ((off + len + k) div BLOCK_SIZE)"
      proof (intro allI impI)
        fix k assume "k < n - len"
        then show "b \<noteq> file_block L N ((off + len + k) div BLOCK_SIZE)" using b [rule_format, of "len + k"] by (simp add: add.assoc)
      qed
      then have "L' b = L1 b" by (rule t(6))
      also have "L1 b = L b" using b [rule_format, of 0] n by (simp add: L1_def a_def)
      finally show ?thesis .
    qed
    have "unat (lh_n (lg t)) \<le> unat (lh_n (lg s)) + length (chunks off n)" using t(4) wn by (simp add: cs)
    then show ?thesis
      using run log_step_trans [OF sw t(2)] t(3) bytes rest unfolding N_def by blast
  qed
qed

lemma iupdate_ok:
  assumes c: "calm s p" and t: "txn s L D W Map.empty" and d: "i_dev (itable s i) = ROOT_DEV"
    and b: "b = IBLOCK (unat (i_ino (itable s i))) (sb s)" "home (lg s) b"
    and r: "unat (lh_n (lg s)) + 1 < unat (lg_size (lg s))" "0 < lg_outstanding (lg s)"
  shows "\<exists>t. iupdate i s = Ret () t \<and> log_step s t \<and>
    txn t (L(b := put_d_inode (L b) (64 * (unat (i_ino (itable s i)) mod IPB)) (to_d_inode (itable s i)))) D W Map.empty"
  using log_session [OF c t b(2), of "\<lambda>d. put_d_inode d (64 * (unat (i_ino (itable s i)) mod IPB)) (to_d_inode (itable s i))"]
    txn_room [OF t] r
  by (auto simp: iupdate_def the_inode_def d b(1))

text \<open>The inode after a write of \<open>n\<close> bytes at \<open>off\<close>: the file grows when the write reaches past its end.\<close>

definition grown :: "nat \<Rightarrow> m_inode \<Rightarrow> m_inode" where
  "grown e n = (if e > unat (i_size n) then n\<lparr>i_size := of_nat e\<rparr> else n)"

lemma grown_simps [simp]: "i_addrs (grown e n) = i_addrs n" "i_dev (grown e n) = i_dev n" "i_ino (grown e n) = i_ino n"
  by (simp_all add: grown_def)

lemma writei_ok:
  fixes s :: "'z kino_scheme"
  assumes c: "calm s p" and t: "txn s L D W Map.empty" and f: "file_ok (lg s) L N" and N: "N = itable s i"
    and off: "unat off \<le> unat (i_size N)" and n: "unat n = length bs"
    and m: "\<And>k. k < length bs \<Longrightarrow> file_block L N ((unat off + k) div BLOCK_SIZE) \<noteq> 0"
    and b: "b = IBLOCK (unat (i_ino N)) (sb s)" "home (lg s) b" "b \<notin> indirect N" "\<And>k. file_block L N k \<noteq> b"
    and r: "unat (lh_n (lg s)) + length (chunks (unat off) (length bs)) + 1 < unat (lg_size (lg s))" "0 < lg_outstanding (lg s)"
  shows "\<exists>t L'. writei i (From_kernel bs) off n s = Ret (int (length bs)) t \<and> calm t p \<and> txn t L' D W Map.empty \<and>
    itable t = (itable s)(i := grown (unat off + length bs) N) \<and> same_log (lg s) (lg t) \<and>
    (\<forall>a. a \<in> indirect N \<longrightarrow> L' a = L a) \<and>
    (\<forall>ofs. file_block L N (ofs div BLOCK_SIZE) \<noteq> 0 \<longrightarrow>
       fbyte L' N ofs = (if unat off \<le> ofs \<and> ofs < unat off + length bs then bs ! (ofs - unat off) else fbyte L N ofs))"
proof -
  let ?e = "unat off + length bs"
  have room: "unat (lh_n (lg s)) + length (chunks (unat off) (length bs)) < unat (lg_size (lg s))" using r(1) by linarith
  obtain u L1 where u: "writei_loop i (From_kernel bs) (chunks (unat off) (length bs)) s = Ret (length bs) u" "log_step s u"
    "txn u L1 D W Map.empty" "unat (lh_n (lg u)) \<le> unat (lh_n (lg s)) + length (chunks (unat off) (length bs))"
    "\<And>ofs. file_block L N (ofs div BLOCK_SIZE) \<noteq> 0 \<Longrightarrow>
       fbyte L1 N ofs = (if unat off \<le> ofs \<and> ofs < ?e then bs ! (ofs - unat off) else fbyte L N ofs)"
    "\<And>a. (\<forall>k<length bs. a \<noteq> file_block L N ((unat off + k) div BLOCK_SIZE)) \<Longrightarrow> L1 a = L a"
    using writei_loop_ok [OF c t f [unfolded N] refl [of "length bs"] m [unfolded N] room r(2)] unfolding N by blast
  have ind: "L1 a = L a" if "a \<in> indirect N" for a
    using that m file_okD(4) [OF f] by (intro u(6)) blast
  define v where "v = u\<lparr>itable := (itable u)(i := grown ?e N)\<rparr>"
  have grow: "whenK (unat off + length bs > unat (i_size N)) (upd_inode i (\<lambda>m. m\<lparr>i_size := of_nat ?e\<rparr>)) u = Ret () v"
    using N log_step_itable [OF u(2)] by (auto simp: v_def upd_inode_def grown_def whenK_def)
  note sl = same_logD [OF log_stepD(8) [OF u(2)]]
  obtain w where w: "iupdate i v = Ret () w" "log_step v w"
    "txn w (L1(b := put_d_inode (L1 b) (64 * (unat (i_ino N) mod IPB)) (to_d_inode (grown ?e N)))) D W Map.empty"
    using iupdate_ok [of v p L1 D W i b] c log_stepD(1,5) [OF u(2)] u(3,4) file_okD(1) [OF f] b(1,2) r sl
    by (auto simp: v_def)
  let ?L = "L1(b := put_d_inode (L1 b) (64 * (unat (i_ino N) mod IPB)) (to_d_inode (grown ?e N)))"
  have fb: "file_block ?L N = file_block L N" "file_block L1 N = file_block L N"
    using ind b(3) by (auto intro!: file_block_cong)
  have "thenK (whenK (?e > unat (i_size N)) (upd_inode i (\<lambda>m. m\<lparr>i_size := of_nat ?e\<rparr>)))
      (thenK (iupdate i) (retK (int (length bs)))) u = Ret (int (length bs)) w"
    unfolding thenK_def bindK_def grow w(1) by (simp add: w(1))
  then have "writei i (From_kernel bs) off n s = Ret (int (length bs)) w"
    using off u(1) N by (simp add: writei_def the_inode_def n log_step_itable [OF u(2)])
  moreover have "calm w p" using c log_stepD(1) [OF w(2)] log_stepD(1) [OF u(2)] by (simp add: v_def)
  moreover have "itable w = (itable s)(i := grown ?e N)"
    using log_step_itable [OF w(2)] log_step_itable [OF u(2)] by (simp add: v_def)
  moreover have "same_log (lg s) (lg w)"
    using log_stepD(8) [OF u(2)] log_stepD(8) [OF w(2)] by (simp add: v_def same_log_def)
  moreover have "\<forall>a. a \<in> indirect N \<longrightarrow> ?L a = L a" using ind b(3) by auto
  moreover have "fbyte ?L N ofs = fbyte L1 N ofs" for ofs using b(4) by (simp add: fbyte_def fb)
  ultimately show ?thesis using w(3) u(5) by (intro exI [of _ w] exI [of _ ?L]) simp
qed

section \<open>Path names\<close>

text \<open>
  A path is a list of elements: its parts between slashes, without the empty ones. \<open>elem_name\<close>
  is an element in the buffer of \<open>DIR_SIZE\<close> bytes, cut when it is longer.
\<close>

fun split_slash :: "u8 list \<Rightarrow> u8 list list" where
  "split_slash [] = [[]]"
| "split_slash (c # cs) =
     (if c = SLASH then [] # split_slash cs
      else (case split_slash cs of [] \<Rightarrow> [[c]] | e # es \<Rightarrow> (c # e) # es))"

definition path_names :: "u8 list \<Rightarrow> u8 list list" where
  "path_names path = filter (\<lambda>e. e \<noteq> []) (split_slash path)"

definition elem_name :: "u8 list \<Rightarrow> cptr \<Rightarrow> cptr" where
  "elem_name e name =
     (if length e \<ge> DIR_SIZE then put_bytes 0 (take DIR_SIZE e) name else (put_bytes 0 e name)(length e := 0))"

text \<open>The walk along a list of elements, directory by directory.\<close>

fun walk_names :: "bool \<Rightarrow> u8 list list \<Rightarrow> cptr \<Rightarrow> nat \<Rightarrow> ('z kino_scheme, nat option \<times> cptr) kernel" where
  "walk_names parent [] name i = (if parent then thenK (iput i) (retK (None, name)) else retK (Some i, name))"
| "walk_names parent (e # es) name i =
     (let name = elem_name e name in
      thenK (ilock i) (
      bindK (the_inode i) (\<lambda>n.
      if i_type n \<noteq> FT_DIR then thenK (iunlock i) (thenK (iput i) (retK (None, name)))
      else if parent \<and> es = [] then thenK (iunlock i) (retK (Some i, name))
      else bindK (dir_lookup i name) (\<lambda>r.
        case r of
          None \<Rightarrow> thenK (iunlock i) (thenK (iput i) (retK (None, name)))
        | Some (j, _) \<Rightarrow> thenK (iunlock i) (thenK (iput i) (walk_names parent es name j))))))"

lemma split_slash_ne: "split_slash p \<noteq> []"
  by (induction p) (auto split: list.split)

lemma path_names_slash [simp]: "path_names (SLASH # p) = path_names p"
  by (simp add: path_names_def)

lemma path_names_drop: "path_names (dropWhile (\<lambda>c. c = SLASH) p) = path_names p"
  by (induction p) auto

lemma path_names_elem:
  assumes "SLASH \<notin> set e" "e \<noteq> []" "q = [] \<or> hd q = SLASH"
  shows "path_names (e @ q) = e # path_names q"
proof -
  have "split_slash (e @ q) = e # tl (split_slash q)"
    using assms
  proof (induction e)
    case (Cons c e)
    show ?case
    proof (cases "e = []")
      case True
      then show ?thesis using Cons.prems by (cases q) auto
    next
      case False
      then show ?thesis using Cons by auto
    qed
  qed simp
  moreover have "path_names q = filter (\<lambda>e. e \<noteq> []) (tl (split_slash q))"
    using assms(3) by (cases q) (auto simp: path_names_def)
  ultimately show ?thesis using assms(2) by (simp add: path_names_def)
qed

lemma skip_elem_names:
  "skip_elem path name =
    (case path_names path of [] \<Rightarrow> None
     | e # es \<Rightarrow> Some (dropWhile (\<lambda>c. c = SLASH) (dropWhile (\<lambda>c. c \<noteq> SLASH) (dropWhile (\<lambda>c. c = SLASH) path)), elem_name e name))"
  (is ?skip)
  and path_names_rest:
  "path_names path = e # es \<Longrightarrow>
    path_names (dropWhile (\<lambda>c. c = SLASH) (dropWhile (\<lambda>c. c \<noteq> SLASH) (dropWhile (\<lambda>c. c = SLASH) path))) = es"
proof -
  define p where "p = dropWhile (\<lambda>c. c = SLASH) path"
  define e' where "e' = takeWhile (\<lambda>c. c \<noteq> SLASH) p"
  define q where "q = dropWhile (\<lambda>c. c \<noteq> SLASH) p"
  have nm: "path_names path = path_names p" by (simp add: p_def path_names_drop)
  have pe: "p = e' @ q" by (simp add: e'_def q_def)
  have main: "path_names path = e' # path_names q" if "p \<noteq> []"
  proof -
    have "hd p \<noteq> SLASH" using that hd_dropWhile unfolding p_def by blast
    then have "e' \<noteq> []" using that by (cases p) (auto simp: e'_def)
    moreover have "SLASH \<notin> set e'" by (auto simp: e'_def dest: set_takeWhileD)
    moreover have "q = [] \<or> hd q = SLASH" using hd_dropWhile unfolding q_def by blast
    ultimately show ?thesis unfolding nm pe by (intro path_names_elem)
  qed
  have nil: "path_names path = []" if "p = []" unfolding nm that by (simp add: path_names_def)
  show ?skip
    using main nil by (cases "p = []") (auto simp: skip_elem_def Let_def elem_name_def simp flip: p_def e'_def q_def)
  show "path_names (dropWhile (\<lambda>c. c = SLASH) (dropWhile (\<lambda>c. c \<noteq> SLASH) (dropWhile (\<lambda>c. c = SLASH) path))) = es"
    if "path_names path = e # es"
    using that main nil by (cases "p = []") (auto simp: path_names_drop simp flip: p_def q_def)
qed

lemma dropWhile_slash_nil: "path_names (dropWhile (\<lambda>c. c = SLASH) p) = [] \<longleftrightarrow> dropWhile (\<lambda>c. c = SLASH) p = []"
  using skip_elem_names [of "dropWhile (\<lambda>c. c = SLASH) p" "\<lambda>_. 0"]
  by (auto simp: skip_elem_def Let_def path_names_def split: list.splits if_splits)

lemma skip_shorter:
  assumes "dropWhile (\<lambda>c. c = SLASH) path \<noteq> []"
  shows "length (dropWhile (\<lambda>c. c = SLASH) (dropWhile (\<lambda>c. c \<noteq> SLASH) (dropWhile (\<lambda>c. c = SLASH) path))) < length path"
proof -
  obtain c p where p: "dropWhile (\<lambda>c. c = SLASH) path = c # p" using assms by (cases "dropWhile (\<lambda>c. c = SLASH) path") auto
  have "c \<noteq> SLASH" using hd_dropWhile [OF assms] by (simp add: p)
  then have "dropWhile (\<lambda>c. c \<noteq> SLASH) (c # p) = dropWhile (\<lambda>c. c \<noteq> SLASH) p" by simp
  moreover have "length (dropWhile (\<lambda>c. c = SLASH) (dropWhile (\<lambda>c. c \<noteq> SLASH) p)) \<le> length p"
    by (meson le_trans length_dropWhile_le)
  moreover have "length (c # p) \<le> length path" unfolding p [symmetric] by (rule length_dropWhile_le)
  ultimately show ?thesis by (simp add: p)
qed

lemma lookup_loop_walk:
  "length path < fuel \<Longrightarrow> lookup_loop fuel parent path name i = walk_names parent (path_names path) name i"
proof (induction fuel arbitrary: path name i)
  case (Suc fuel)
  show ?case
  proof (cases "path_names path")
    case Nil
    then show ?thesis by (simp add: skip_elem_names)
  next
    case (Cons e es)
    define r where "r = dropWhile (\<lambda>c. c = SLASH) (dropWhile (\<lambda>c. c \<noteq> SLASH) (dropWhile (\<lambda>c. c = SLASH) path))"
    have rest: "path_names r = es" unfolding r_def by (rule path_names_rest [OF Cons])
    have nil: "r = [] \<longleftrightarrow> es = []" using dropWhile_slash_nil rest unfolding r_def by blast
    have "path_names [] = []" by (simp add: path_names_def)
    then have "dropWhile (\<lambda>c. c = SLASH) path \<noteq> []"
      using Cons path_names_drop [of path] by (metis list.distinct(1))
    then have "length r < length path" unfolding r_def by (rule skip_shorter)
    then have "length r < fuel" using Suc.prems by simp
    note IH = Suc.IH [OF this, unfolded rest]
    show ?thesis using Cons nil by (simp add: skip_elem_names IH Let_def flip: r_def cong: if_cong option.case_cong)
  qed
qed simp

lemma lookup_loop_eq:
  "lookup_loop (length path + 1) parent path name = walk_names parent (path_names path) name"
  by (intro ext) (simp only: lookup_loop_walk less_add_one)

section \<open>The inode table\<close>

definition itable_ok :: "(nat \<Rightarrow> m_inode) \<Rightarrow> bool" where
  "itable_ok t \<longleftrightarrow> (\<forall>i<N_INODE. \<forall>j<N_INODE. 0 < i_refcnt (t i) \<and> 0 < i_refcnt (t j) \<and>
     i_dev (t i) = i_dev (t j) \<and> i_ino (t i) = i_ino (t j) \<longrightarrow> i = j)"

definition is_inode :: "u16 \<Rightarrow> u16 \<Rightarrow> m_inode \<Rightarrow> bool" where
  "is_inode dev ino n \<longleftrightarrow> 0 < i_refcnt n \<and> i_dev n = ucast dev \<and> i_ino n = ino"

lemma iget_eq:
  assumes "avail s L_itable"
  shows "iget dev ino s =
    (case find (\<lambda>i. is_inode dev ino (itable s i)) [0..<N_INODE] of
       Some i \<Rightarrow> Ret i (s\<lparr>itable := (itable s)(i := (itable s i)\<lparr>i_refcnt := i_refcnt (itable s i) + 1\<rparr>)\<rparr>)
     | None \<Rightarrow>
         (case find (\<lambda>i. i_refcnt (itable s i) = 0) [0..<N_INODE] of
            None \<Rightarrow> Panic ''no inodes''
          | Some i \<Rightarrow> Ret i (s\<lparr>itable := (itable s)(i := (itable s i)\<lparr>i_refcnt := 1, i_dev := ucast dev,
              i_ino := ino, i_valid := False\<rparr>)\<rparr>)))"
  using assms by (simp add: iget_def is_inode_def upd_inode_def split: option.split)

lemma itable_okD:
  "itable_ok t \<Longrightarrow> is_inode d o' (t i) \<Longrightarrow> is_inode d o' (t j) \<Longrightarrow> i < N_INODE \<Longrightarrow> j < N_INODE \<Longrightarrow> i = j"
  by (simp add: itable_ok_def is_inode_def)

lemma itable_ok_upd:
  assumes "itable_ok t"
    and "\<And>j. j < N_INODE \<Longrightarrow> j \<noteq> i \<Longrightarrow> 0 < i_refcnt (t j) \<Longrightarrow> i_dev (t j) = i_dev n \<Longrightarrow> i_ino (t j) = i_ino n \<Longrightarrow> False"
  shows "itable_ok (t(i := n))"
  unfolding itable_ok_def
proof (intro allI impI)
  fix a b assume ab: "a < N_INODE" "b < N_INODE" "0 < i_refcnt ((t(i := n)) a) \<and> 0 < i_refcnt ((t(i := n)) b) \<and>
    i_dev ((t(i := n)) a) = i_dev ((t(i := n)) b) \<and> i_ino ((t(i := n)) a) = i_ino ((t(i := n)) b)"
  consider "a = i" "b = i" | "a = i" "b \<noteq> i" | "a \<noteq> i" "b = i" | "a \<noteq> i" "b \<noteq> i" by blast
  then show "a = b"
  proof cases
    case 2 then show ?thesis using ab assms(2) [of b] by simp
  next
    case 3 then show ?thesis using ab assms(2) [of a] by simp
  next
    case 4 then show ?thesis using ab assms(1) unfolding itable_ok_def by simp
  qed simp
qed

lemma refcnt_Suc: "(r :: u32) \<noteq> -1 \<Longrightarrow> 0 < r + 1"
  by (metis add_eq_0_iff2 add.commute word_neq_0_conv)

section \<open>Allocation of blocks\<close>

definition blocks_used :: "blk \<Rightarrow> nat set" where
  "blocks_used d = {k. k < 8 * BLOCK_SIZE \<and> \<not> bit_free d k}"

lemma bit_free_bit: "bit_free d k \<longleftrightarrow> \<not> bit (d (k div 8)) (k mod 8)"
  by (simp add: bit_free_def push_bit_of_1 and_exp_eq_0_iff_not_bit)

lemma bit_free_set: "bit_free (bit_set k d) j \<longleftrightarrow> bit_free d j \<and> j \<noteq> k"
proof -
  have "j = k \<longleftrightarrow> j div 8 = k div 8 \<and> j mod 8 = k mod 8" by (metis div_mult_mod_eq)
  moreover have "j mod 8 < 8" by simp
  ultimately show ?thesis by (auto simp: bit_free_bit bit_set_def bit_simps)
qed

lemma bit_free_clr: "bit_free (bit_clr k d) j \<longleftrightarrow> bit_free d j \<or> j = k"
proof -
  have "j = k \<longleftrightarrow> j div 8 = k div 8 \<and> j mod 8 = k mod 8" by (metis div_mult_mod_eq)
  moreover have "j mod 8 < 8" by simp
  ultimately show ?thesis by (auto simp: bit_free_bit bit_clr_def bit_simps)
qed

lemma bzero_ok:
  assumes "calm s p" "txn s L D W Map.empty" "home (lg s) n"
    and r: "unat (lh_n (lg s)) + 1 < unat (lg_size (lg s))" "0 < lg_outstanding (lg s)"
  shows "\<exists>t. bzero ROOT_DEV n s = Ret () t \<and> log_step s t \<and> txn t (L(n := clear_bytes 0 BLOCK_SIZE (L n))) D W Map.empty"
  using log_session [OF assms(1-3), of "clear_bytes 0 BLOCK_SIZE"] txn_room [OF assms(2)] r by (auto simp: bzero_def)

lemma log_peek:
  assumes c: "calm s p" and t: "txn s L D W Map.empty" and n: "home (lg s) n"
    and r: "unat (lh_n (lg s)) + 1 < unat (lg_size (lg s))" "0 < lg_outstanding (lg s)"
  shows "\<exists>bf u v. bread ROOT_DEV n s = Ret bf u \<and> b_data (bufs (bc u) bf) = L n \<and>
    thenK (set_data bf f) (thenK (log_write bf) (brelse bf)) u = Ret () v \<and> log_step s v \<and>
    txn v (L(n := f (L n))) D W Map.empty \<and> lg v = log_add n (lg s)"
proof -
  obtain bf u where u: "bread ROOT_DEV n s = Ret bf u" "txn u L D W [n \<mapsto> bf]"
    using txn_read [OF c t home_bno [OF n]] txn_room [OF t] by auto
  have "b_data (bufs (bc u) bf) = L n" using txn_held(1) [OF u(2)] by simp
  moreover obtain v where "bindK (bread ROOT_DEV n) (\<lambda>b. thenK (set_data b f) (thenK (log_write b) (brelse b))) s = Ret () v"
    "log_step s v" "txn v (L(n := f (L n))) D W Map.empty" "lg v = log_add n (lg s)"
    using log_session [OF c t n, of f] txn_room [OF t] r by auto
  ultimately show ?thesis using u(1) by auto
qed

lemma balloc_some:
  assumes c: "calm s p" and t: "txn s L D W Map.empty" and b: "b = sb_data_bitmap_start (sb s)" "home (lg s) b"
    and k: "find (bit_free (L b)) [0..<8 * BLOCK_SIZE] = Some k"
    and n: "n = of_nat k + sb_data_start (sb s)" "home (lg s) n"
    and r: "unat (lh_n (lg s)) + 2 < unat (lg_size (lg s))" "0 < lg_outstanding (lg s)"
  shows "\<exists>t. balloc ROOT_DEV s = Ret n t \<and> log_step s t \<and>
    txn t ((L(b := bit_set k (L b)))(n := clear_bytes 0 BLOCK_SIZE ((L(b := bit_set k (L b))) n))) D W Map.empty"
proof -
  let ?L = "L(b := bit_set k (L b))"
  have room: "unat (lh_n (lg s)) + 1 < unat (lg_size (lg s))" using r(1) by simp
  obtain bf u v where u: "bread ROOT_DEV b s = Ret bf u" "b_data (bufs (bc u) bf) = L b"
    "thenK (set_data bf (bit_set k)) (thenK (log_write bf) (brelse bf)) u = Ret () v"
    "log_step s v" "txn v ?L D W Map.empty" "lg v = log_add b (lg s)"
    using log_peek [OF c t b(2) room r(2)] by blast
  have "unat (lh_n (lg v)) \<le> unat (lh_n (lg s)) + 1"
    unfolding u(6) by (rule log_add_ok(3) [OF txnD(1,2) [OF t] b(2) room])
  then have rv: "unat (lh_n (lg v)) + 1 < unat (lg_size (lg v))" "0 < lg_outstanding (lg v)" "home (lg v) n"
    using r n(2) by (simp_all add: u(6))
  have "calm v p" using c log_stepD(1) [OF u(4)] by simp
  then obtain w where w: "bzero ROOT_DEV n v = Ret () w" "log_step v w" "txn w (?L(n := clear_bytes 0 BLOCK_SIZE (?L n))) D W Map.empty"
    using bzero_ok [OF _ u(5) rv(3) rv(1,2)] by blast
  have "balloc ROOT_DEV s = thenK (thenK (set_data bf (bit_set k)) (thenK (log_write bf) (brelse bf))) (thenK (bzero ROOT_DEV n) (retK n)) u"
    using u(1,2) k by (simp add: balloc_def buf_data_def Let_def thenK_assoc flip: b(1) n(1))
  then show ?thesis using u(3) w log_step_trans [OF u(4) w(2)] by (auto simp: thenK_def)
qed

section \<open>Properties\<close>

text \<open>
  C5. A file is an array of bytes: within the allocated blocks, direct and indirect, \<^verbatim>\<open>writei\<close>
  stores the bytes at the offset and returns their number, and a later \<^verbatim>\<open>readi\<close> of any range
  returns, up to the end of the file, the bytes written where they were written and the old
  contents elsewhere.
\<close>

theorem writei_readi:
  fixes s :: "'z kino_scheme"
  assumes "calm s p" and t: "txn s L D W Map.empty" and f: "file_ok (lg s) L N" and "N = itable s i"
    and "unat off \<le> unat (i_size N)" and "unat n = length bs"
    and "\<And>k. k < length bs \<Longrightarrow> file_block L N ((unat off + k) div BLOCK_SIZE) \<noteq> 0"
    and "b = IBLOCK (unat (i_ino N)) (sb s)" "home (lg s) b" "b \<notin> indirect N" "\<And>k. file_block L N k \<noteq> b"
    and "unat (lh_n (lg s)) + length (chunks (unat off) (length bs)) + 1 < unat (lg_size (lg s))" "0 < lg_outstanding (lg s)"
    and o2: "unat off2 \<le> unat (i_size (grown (unat off + length bs) N))" "unat off2 + unat n2 < 2 ^ 64"
    and m: "m = min (unat n2) (unat (i_size (grown (unat off + length bs) N)) - unat off2)"
      "\<And>k. k < m \<Longrightarrow> file_block L N ((unat off2 + k) div BLOCK_SIZE) \<noteq> 0"
  shows "\<exists>t u. writei i (From_kernel bs) off n s = Ret (int (length bs)) t \<and>
    readi i To_kernel off2 n2 t = Ret (int m, map (\<lambda>ofs.
      if unat off \<le> ofs \<and> ofs < unat off + length bs then bs ! (ofs - unat off) else fbyte L N ofs) [unat off2..<unat off2 + m]) u"
proof -
  let ?N = "grown (unat off + length bs) N"
  obtain t L' where t: "writei i (From_kernel bs) off n s = Ret (int (length bs)) t" "calm t p" "txn t L' D W Map.empty"
    "itable t = (itable s)(i := ?N)" "same_log (lg s) (lg t)" "\<And>a. a \<in> indirect N \<Longrightarrow> L' a = L a"
    "\<And>ofs. file_block L N (ofs div BLOCK_SIZE) \<noteq> 0 \<Longrightarrow>
       fbyte L' N ofs = (if unat off \<le> ofs \<and> ofs < unat off + length bs then bs ! (ofs - unat off) else fbyte L N ofs)"
    using writei_ok [OF assms(1-13)] by blast
  have fb: "file_block L' ?N = file_block L N" "file_block L' N = file_block L N"
    using t(6) by (auto intro!: file_block_cong)
  have it: "itable t i = ?N" using t(4) by simp
  have "file_ok (lg t) L' (itable t i)"
    by (rule file_ok_cong [OF f t(6)]) (use it same_logD(4) [OF t(5)] in simp_all)
  then obtain u where u: "readi i To_kernel off2 n2 t = Ret (int m, map (fbyte L' ?N) [unat off2..<unat off2 + m]) u"
    using readi_ok [OF t(2,3), of i off2 n2 m] o2 m unfolding it fb by blast
  have "fbyte L' ?N ofs = (if unat off \<le> ofs \<and> ofs < unat off + length bs then bs ! (ofs - unat off) else fbyte L N ofs)"
    if "ofs \<in> set [unat off2..<unat off2 + m]" for ofs
    using t(7) [of ofs] m(2) [of "ofs - unat off2"] that by (auto simp: fbyte_def fb)
  then show ?thesis using t(1) u by (auto cong: map_cong)
qed

definition one_file :: kino where
  "one_file = ino_ready\<lparr>itable := (\<lambda>_. blank_inode)(0 := blank_inode\<lparr>i_dev := ROOT_DEV, i_ino := 16, i_refcnt := 1,
     i_valid := True, i_type := FT_FILE, i_nlink := 1, i_addrs := (\<lambda>_. 0)(0 := 60)\<rparr>)\<rparr>"

lemma one_file_block: "file_block L (itable one_file 0) k = (if k = 0 then 60 else 0)"
  by (auto simp: one_file_def file_block_def blank_inode_def N_DIRECT_def N_INDIRECT_def APB_def BLOCK_SIZE_def)

lemma one_file_start:
  "\<exists>s t. binit one_file = Ret () s \<and> begin_op s = Ret () t \<and> calm t 0 \<and> txn t (\<lambda>_ _. 0) (\<lambda>_ _. 0) [] Map.empty \<and>
    lg t = (lg log_ready)\<lparr>lg_outstanding := 1\<rparr> \<and> itable t = itable one_file \<and> sb t = sb log_ready"
proof -
  have "fresh_disk one_file" unfolding fresh_disk_def one_file_def ino_ready_def by (simp add: start_defs kino.defs)
  then obtain s where s: "binit one_file = Ret () s" "calm s 0" "txn s (\<lambda>_ _. 0) (\<lambda>_ _. 0) [] Map.empty" "lg s = lg log_ready"
    "lock_init_step one_file s" using fresh_disk_ok by blast
  let ?t = "s\<lparr>lg := (lg s)\<lparr>lg_outstanding := 1\<rparr>\<rparr>"
  have "begin_op s = Ret () ?t"
    using begin_op_ok [OF s(2)] by (simp add: s(4) log_ready_lg MAX_OP_BLKS_def LOG_SIZE_def)
  moreover have "itable ?t = itable one_file" "sb ?t = sb log_ready"
    using s(5) by (auto simp: lock_init_step_def one_file_def ino_ready_def start_defs kino.defs)
  moreover have "txn ?t (\<lambda>_ _. 0) (\<lambda>_ _. 0) [] Map.empty" using s(3) by (simp add: txn_def counters_frame)
  ultimately show ?thesis using s(1,2,4) by (intro exI [of _ s] exI [of _ ?t]) simp
qed

theorem writei_readi_witness:
  "\<exists>s t u v. binit one_file = Ret () s \<and> begin_op s = Ret () t \<and>
     writei 0 (From_kernel [7, 8]) 0 2 t = Ret 2 u \<and> readi 0 To_kernel 0 2 u = Ret (2, [7, 8]) v"
proof -
  obtain s t where s: "binit one_file = Ret () s" "begin_op s = Ret () t" "calm t 0" "txn t (\<lambda>_ _. 0) (\<lambda>_ _. 0) [] Map.empty"
    "lg t = (lg log_ready)\<lparr>lg_outstanding := 1\<rparr>" "itable t = itable one_file" "sb t = sb log_ready"
    using one_file_start by blast
  let ?N = "itable one_file 0"
  have ind: "indirect ?N = {}" by (auto simp: indirect_def one_file_def blank_inode_def N_DIRECT_def)
  have h: "home (lg t) 60" "home (lg t) 1"
    by (simp_all add: s(5) log_ready_lg home_def in_log_def bno_ok_def)
  have b: "IBLOCK (unat (i_ino ?N)) (sb t) = 1"
    by (simp add: s(7) IBLOCK_def one_file_def IPB_def BLOCK_SIZE_def start_defs get_super_block_def ld32_def)
  have ok: "file_ok (lg t) (\<lambda>_ _. 0) ?N"
    using h ind by (auto simp: file_ok_def one_file_block) (simp add: one_file_def)
  have sz: "i_size ?N = 0" "i_size (grown (Suc (Suc 0)) ?N) = 2" by (simp_all add: grown_def one_file_def blank_inode_def)
  have ch: "chunks 0 (Suc (Suc 0)) = [(0, 2)]" by (simp add: chunks.simps BLOCK_SIZE_def)
  have "\<exists>u v. writei 0 (From_kernel [7, 8]) 0 2 t = Ret (int (length [7, 8 :: u8])) u \<and>
    readi 0 To_kernel 0 2 u = Ret (int 2, map (\<lambda>ofs. if unat (0 :: u64) \<le> ofs \<and> ofs < unat (0 :: u64) + length [7, 8 :: u8]
      then [7, 8] ! (ofs - unat (0 :: u64)) else fbyte (\<lambda>_ _. 0) ?N ofs) [unat (0 :: u64)..<unat (0 :: u64) + 2]) v"
    by (rule writei_readi [OF s(3,4) ok, where b = 1])
       (use s(5,6) ind h b ch sz in \<open>auto simp: one_file_block BLOCK_SIZE_def log_ready_lg less_Suc_eq\<close>)
  then show ?thesis using s(1,2) by auto
qed

text \<open>
  C23. Path lookup is a walk along the elements of the path: \<^verbatim>\<open>lookup\<close> starts at the root
  directory for a path with a leading slash and at the working directory otherwise, and from there
  its scan of the string visits exactly the non-empty parts between the slashes, in order, however
  many slashes separate them; the loop always ends.
\<close>

theorem lookup_walks:
  "lookup path parent name =
     bindK (if path \<noteq> [] \<and> hd path = SLASH then iget (ucast ROOT_DEV) ROOT_INO
            else bindK current_proc (\<lambda>p.
                 bindK (getK (\<lambda>s. p_cwd (procs s p))) (\<lambda>cwd.
                 case cwd of None \<Rightarrow> panicK ''kernel trap'' | Some i \<Rightarrow> idup i)))
       (walk_names parent (path_names path) name)"
  by (simp only: lookup_def lookup_loop_eq)

text \<open>
  C12. Block allocation: with room in the log, \<^verbatim>\<open>balloc\<close> marks the first block that the bitmap has
  free, fills it with zeros and returns its number; it changes no other block. When the bitmap has
  no free block it returns 0 and changes nothing.
\<close>

theorem balloc_fresh:
  assumes c: "calm s p" and t: "txn s L D W Map.empty" and b: "b = sb_data_bitmap_start (sb s)" "home (lg s) b"
    and n: "\<And>k. k < 8 * BLOCK_SIZE \<Longrightarrow> home (lg s) (of_nat k + sb_data_start (sb s)) \<and> of_nat k + sb_data_start (sb s) \<noteq> b"
    and r: "unat (lh_n (lg s)) + 2 < unat (lg_size (lg s))" "0 < lg_outstanding (lg s)"
  shows "\<exists>n t L'. balloc ROOT_DEV s = Ret n t \<and> txn t L' D W Map.empty \<and>
    (if blocks_used (L b) = {..<8 * BLOCK_SIZE} then n = 0 \<and> L' = L
     else \<exists>k. n = of_nat k + sb_data_start (sb s) \<and> k \<notin> blocks_used (L b) \<and> {..<k} \<subseteq> blocks_used (L b) \<and>
       blocks_used (L' b) = insert k (blocks_used (L b)) \<and> (\<forall>j<BLOCK_SIZE. L' n j = 0) \<and>
       (\<forall>a. a \<noteq> b \<and> a \<noteq> n \<longrightarrow> L' a = L a))"
proof (cases "find (bit_free (L b)) [0..<8 * BLOCK_SIZE]")
  case None
  have "blocks_used (L b) = {..<8 * BLOCK_SIZE}"
    using find_upt_NoneD [OF None] by (auto simp: blocks_used_def)
  moreover obtain bf u v where u: "bread ROOT_DEV b s = Ret bf u" "b_data (bufs (bc u) bf) = L b" "brelse bf u = Ret () v"
    "txn v L D W Map.empty"
    using txn_peek [OF c t home_bno [OF b(2)]] txn_room [OF t] by auto
  then have "balloc ROOT_DEV s = Ret 0 v" using None by (simp add: balloc_def buf_data_def flip: b(1))
  ultimately show ?thesis using u(4) by auto
next
  case (Some k)
  note k = find_upt_SomeD [OF Some]
  let ?n = "of_nat k + sb_data_start (sb s)"
  let ?L = "L(b := bit_set k (L b))"
  obtain t where t': "balloc ROOT_DEV s = Ret ?n t" "txn t (?L(?n := clear_bytes 0 BLOCK_SIZE (?L ?n))) D W Map.empty"
    using balloc_some [OF c t b Some refl _ r] n k by blast
  have "?n \<noteq> b" using n k by blast
  moreover have "k \<notin> blocks_used (L b)" "{..<k} \<subseteq> blocks_used (L b)" "blocks_used (bit_set k (L b)) = insert k (blocks_used (L b))"
    using k by (auto simp: blocks_used_def bit_free_set)
  moreover have "blocks_used (L b) \<noteq> {..<8 * BLOCK_SIZE}" using k by (auto simp: blocks_used_def)
  ultimately show ?thesis
    using t' by (intro exI [of _ ?n] exI [of _ t] exI [of _ "?L(?n := clear_bytes 0 BLOCK_SIZE (?L ?n))"])
      (auto simp: clear_bytes_def)
qed

theorem balloc_fresh_witness:
  "\<exists>s t u. binit one_file = Ret () s \<and> begin_op s = Ret () t \<and>
     balloc ROOT_DEV (t\<lparr>sb := (sb t)\<lparr>sb_data_bitmap_start := 40, sb_data_start := 100\<rparr>\<rparr>) = Ret 100 u"
proof -
  obtain s t where s: "binit one_file = Ret () s" "begin_op s = Ret () t" "calm t 0" "txn t (\<lambda>_ _. 0) (\<lambda>_ _. 0) [] Map.empty"
    "lg t = (lg log_ready)\<lparr>lg_outstanding := 1\<rparr>"
    using one_file_start by blast
  let ?t = "t\<lparr>sb := (sb t)\<lparr>sb_data_bitmap_start := 40, sb_data_start := 100\<rparr>\<rparr>"
  have u: "blocks_used (\<lambda>_. 0) = {}" by (simp add: blocks_used_def bit_free_def)
  have h: "home (lg ?t) (of_nat k + 100) \<and> of_nat k + 100 \<noteq> (40 :: u32)" if "k < 8 * BLOCK_SIZE" for k
  proof -
    have "unat (of_nat k + 100 :: u32) = k + 100"
      using that by (simp add: unat_word_ariths unat_of_nat take_bit_nat_eq_self BLOCK_SIZE_def)
    moreover from this have "unat (of_nat k + 100 :: u32) \<noteq> unat (40 :: u32)" by simp
    then have "of_nat k + 100 \<noteq> (40 :: u32)" by metis
    ultimately show ?thesis using that by (simp add: s(5) log_ready_lg home_def in_log_def bno_ok_def BLOCK_SIZE_def)
  qed
  have "\<exists>n u L'. balloc ROOT_DEV ?t = Ret n u \<and> txn u L' (\<lambda>_ _. 0) [] Map.empty \<and>
    (if blocks_used ((\<lambda>_ _. 0) (40 :: u32)) = {..<8 * BLOCK_SIZE} then n = 0 \<and> L' = (\<lambda>_ _. 0)
     else \<exists>k. n = of_nat k + sb_data_start (sb ?t) \<and> k \<notin> blocks_used ((\<lambda>_ _. 0) (40 :: u32)) \<and> {..<k} \<subseteq> blocks_used ((\<lambda>_ _. 0) (40 :: u32)) \<and>
       blocks_used (L' 40) = insert k (blocks_used ((\<lambda>_ _. 0) (40 :: u32))) \<and> (\<forall>j<BLOCK_SIZE. L' n j = 0) \<and>
       (\<forall>a. a \<noteq> 40 \<and> a \<noteq> n \<longrightarrow> L' a = (\<lambda>_. 0)))"
    by (rule balloc_fresh [where p = 0 and b = 40])
       (use s h in \<open>auto simp: txn_def log_ready_lg home_def in_log_def bno_ok_def\<close>)
  moreover have "({} = {..<8 * BLOCK_SIZE}) = False" using lessThan_empty_iff [of "8 * BLOCK_SIZE"] by (auto simp: BLOCK_SIZE_def)
  ultimately have "\<exists>u. balloc ROOT_DEV ?t = Ret 100 u" unfolding u by (auto simp: lessThan_empty_iff)
  then show ?thesis using s(1,2) by blast
qed

text \<open>
  C15. The inode table names every inode at most once, and \<^verbatim>\<open>iget\<close> keeps it so: it returns the
  slot that holds the inode, with one more reference and its contents untouched, or takes a free
  slot for it; it panics when there is neither.
\<close>

theorem iget_shares:
  assumes a: "avail s L_itable" and ok: "itable_ok (itable s)" and r: "\<forall>i<N_INODE. i_refcnt (itable s i) \<noteq> -1"
  shows "(iget dev ino s = Panic ''no inodes'' \<and> (\<forall>i<N_INODE. 0 < i_refcnt (itable s i) \<and> \<not> is_inode dev ino (itable s i))) \<or>
    (\<exists>i<N_INODE. \<exists>t. iget dev ino s = Ret i t \<and> itable_ok (itable t) \<and> is_inode dev ino (itable t i) \<and>
      (\<forall>j<N_INODE. is_inode dev ino (itable t j) \<longrightarrow> j = i) \<and> (\<forall>j. j \<noteq> i \<longrightarrow> itable t j = itable s j) \<and>
      (if is_inode dev ino (itable s i) then itable t i = (itable s i)\<lparr>i_refcnt := i_refcnt (itable s i) + 1\<rparr>
       else i_refcnt (itable s i) = 0 \<and> i_refcnt (itable t i) = 1 \<and> \<not> i_valid (itable t i)))"
proof (cases "find (\<lambda>i. is_inode dev ino (itable s i)) [0..<N_INODE]")
  case (Some i)
  note i = find_upt_SomeD [OF Some]
  let ?t = "s\<lparr>itable := (itable s)(i := (itable s i)\<lparr>i_refcnt := i_refcnt (itable s i) + 1\<rparr>)\<rparr>"
  have p: "0 < i_refcnt (itable s i) + 1" using r i by (intro refcnt_Suc) blast
  have only: "j = i" if "j < N_INODE" "is_inode dev ino (itable s j)" for j
    using itable_okD [OF ok that(2) _ that(1)] i by blast
  have okt: "itable_ok (itable ?t)"
    using only i by (auto intro!: itable_ok_upd [OF ok] simp: is_inode_def)
  have run: "iget dev ino s = Ret i ?t" using Some by (simp add: iget_eq [OF a])
  show ?thesis
  proof (intro disjI2 exI [of _ i] conjI exI [of _ ?t])
    show "\<forall>j<N_INODE. is_inode dev ino (itable ?t j) \<longrightarrow> j = i" using only by auto
    show "is_inode dev ino (itable ?t i)" using i p by (simp add: is_inode_def)
  qed (use okt run i in simp_all)
next
  case None
  note no = find_upt_NoneD [OF None] and missing = None
  show ?thesis
  proof (cases "find (\<lambda>i. i_refcnt (itable s i) = 0) [0..<N_INODE]")
    case None
    then have "iget dev ino s = Panic ''no inodes''" using missing by (simp add: iget_eq [OF a])
    moreover have "0 < i_refcnt (itable s i)" if "i < N_INODE" for i
      using find_upt_NoneD [OF None that] by (simp add: word_neq_0_conv)
    ultimately show ?thesis using no by blast
  next
    case (Some i)
    note i = find_upt_SomeD [OF Some]
    let ?t = "s\<lparr>itable := (itable s)(i := (itable s i)\<lparr>i_refcnt := 1, i_dev := ucast dev, i_ino := ino, i_valid := False\<rparr>)\<rparr>"
    have okt: "itable_ok (itable ?t)"
      using no by (auto intro!: itable_ok_upd [OF ok] simp: is_inode_def)
    have run: "iget dev ino s = Ret i ?t" using missing Some by (simp add: iget_eq [OF a])
    have "\<not> is_inode dev ino (itable s i)" using i by (simp add: is_inode_def)
    then show ?thesis
    proof (intro disjI2 exI [of _ i] conjI exI [of _ ?t])
      show "\<forall>j<N_INODE. is_inode dev ino (itable ?t j) \<longrightarrow> j = i" using no by auto
    qed (use okt run i in \<open>simp_all add: is_inode_def\<close>)
  qed
qed

theorem iget_shares_witness:
  "\<exists>i t. iget 1 7 ino_ready = Ret i t \<and> is_inode 1 7 (itable t i) \<and> itable_ok (itable t)"
proof -
  have "avail ino_ready L_itable" using calmD(1) [OF ino_ready_ok(1)] by auto
  moreover have "itable_ok (itable ino_ready)" "\<forall>i<N_INODE. i_refcnt (itable ino_ready i) \<noteq> -1"
    by (simp_all add: ino_ready_ok itable_ok_def blank_inode_def)
  ultimately have "(iget 1 7 ino_ready = Panic ''no inodes'' \<and> (\<forall>i<N_INODE. 0 < i_refcnt (itable ino_ready i) \<and> \<not> is_inode 1 7 (itable ino_ready i))) \<or>
    (\<exists>i<N_INODE. \<exists>t. iget 1 7 ino_ready = Ret i t \<and> itable_ok (itable t) \<and> is_inode 1 7 (itable t i) \<and>
      (\<forall>j<N_INODE. is_inode 1 7 (itable t j) \<longrightarrow> j = i) \<and> (\<forall>j. j \<noteq> i \<longrightarrow> itable t j = itable ino_ready j) \<and>
      (if is_inode 1 7 (itable ino_ready i) then itable t i = (itable ino_ready i)\<lparr>i_refcnt := i_refcnt (itable ino_ready i) + 1\<rparr>
       else i_refcnt (itable ino_ready i) = 0 \<and> i_refcnt (itable t i) = 1 \<and> \<not> i_valid (itable t i)))"
    by (rule iget_shares)
  moreover have "\<not> (\<forall>i<N_INODE. 0 < i_refcnt (itable ino_ready i))"
    by (auto simp: ino_ready_ok blank_inode_def N_INODE_def intro!: exI [of _ 0])
  ultimately show ?thesis by blast
qed

end
