(* ===== verification/Proc.thy ===== *)
theory Proc
  imports File Ifile
begin

text \<open>
  The life of a process: the rest of \<^verbatim>\<open>kernel/sched/proc.c\<close>. Process identifiers, the
  process table, \<^verbatim>\<open>fork\<close>, \<^verbatim>\<open>wait\<close>, \<^verbatim>\<open>do_exit\<close>, \<^verbatim>\<open>proc_grow\<close> and the first process.

  The static variables of the file are the record \<open>pg\<close>. The address of \<^verbatim>\<open>fork_return\<close> is chosen
  by the linker and is a field of it. The trap frame of a process is the memory at \<^verbatim>\<open>p->tf\<close>;
  \<open>tf_a0\<close> and its like are the offsets of the fields in \<^verbatim>\<open>struct trap_frame\<close>.

  A null channel wakes nobody: a sleeping process has a channel. A negative pid would make
  \<^verbatim>\<open>pid_free\<close> shift by a negative amount, which C leaves undefined; its callers pass a pid that
  \<^verbatim>\<open>pid_alloc\<close> returned.
\<close>

section \<open>Definitions\<close>

record proc_globals =
  pid_bitmap :: "nat \<Rightarrow> u8"
  pid_byte :: nat
  pid_shift :: nat
  init_proc :: "nat option"
  first_return :: bool
  fork_return_at :: u64

record kproc = kfile +
  pg :: proc_globals

definition upd_pg :: "(proc_globals \<Rightarrow> proc_globals) \<Rightarrow> ('z kproc_scheme, unit) kernel" where
  "upd_pg f = modK (\<lambda>s. s\<lparr>pg := f (pg s)\<rparr>)"

definition TRAP_FRAME_SIZE :: nat where "TRAP_FRAME_SIZE = 288"
definition tf_epc :: u64 where "tf_epc = 32"
definition tf_sp :: u64 where "tf_sp = 48"
definition tf_a0 :: u64 where "tf_a0 = 112"

definition set_tf :: "nat \<Rightarrow> u64 \<Rightarrow> u64 \<Rightarrow> ('z kproc_scheme, unit) kernel" where
  "set_tf p off v =
     bindK (getK (\<lambda>s. p_tf (procs s p))) (\<lambda>tf. upd_mem (store64 (tf + off) v))"

definition get_tf :: "nat \<Rightarrow> u64 \<Rightarrow> ('z kproc_scheme, u64) kernel" where
  "get_tf p off = getK (\<lambda>s. load64 (mem s) (p_tf (procs s p) + off))"

subsection \<open>Process identifiers\<close>

definition pid_taken :: "u8 \<Rightarrow> nat \<Rightarrow> bool" where
  "pid_taken w k \<longleftrightarrow> w AND push_bit k 1 \<noteq> 0"

text \<open>
  The \<^verbatim>\<open>do\<close> loop of \<^verbatim>\<open>pid_alloc\<close>: \<open>Some (Some (b, s))\<close> when it finds a clear bit,
  \<open>Some None\<close> when the loop ends without one, \<open>None\<close> when \<open>fuel\<close> turns are not enough.
\<close>

fun pid_scan :: "nat \<Rightarrow> proc_globals \<Rightarrow> nat \<Rightarrow> nat \<Rightarrow> (nat \<times> nat) option option" where
  "pid_scan 0 g b s = None"
| "pid_scan (Suc fuel) g b s =
     (case find (\<lambda>k. \<not> pid_taken (pid_bitmap g (pid_byte g)) k) [s..<8] of
        Some k \<Rightarrow> Some (Some (b, k))
      | None \<Rightarrow>
          let b = (b + 1) mod 4096 in
          if b = pid_byte g \<and> 0 = pid_shift g then Some None else pid_scan fuel g b 0)"

definition pid_take :: "nat \<Rightarrow> nat \<Rightarrow> proc_globals \<Rightarrow> proc_globals" where
  "pid_take b k g = g\<lparr>
     pid_bitmap := (pid_bitmap g)(pid_byte g := pid_bitmap g (pid_byte g) OR push_bit k 1),
     pid_byte := b, pid_shift := k + 1\<rparr>"

definition pid_alloc :: "nat \<Rightarrow> ('z kproc_scheme, int) kernel" where
  "pid_alloc fuel =
     bindK (getK (\<lambda>s. (pid_byte (pg s), pid_shift (pg s)))) (\<lambda>(b, k).
     thenK (spin_lock_acquire L_pid) (
     bindK (getK pg) (\<lambda>g.
     case pid_scan fuel g b k of
       None \<Rightarrow> (\<lambda>s. NoFuel)
     | Some None \<Rightarrow> thenK (spin_lock_release L_pid) (panicK ''no free pid'')
     | Some (Some (b, k)) \<Rightarrow>
         thenK (upd_pg (pid_take b k)) (
         thenK (spin_lock_release L_pid) (
         retK (int b * 8 + int k))))))"

definition pid_free :: "int \<Rightarrow> ('z kproc_scheme, unit) kernel" where
  "pid_free pid =
     (let b = nat (pid div 8); k = nat (pid mod 8) in seqK [
        spin_lock_acquire L_pid,
        upd_pg (\<lambda>g. g\<lparr>pid_bitmap := (pid_bitmap g)(b := pid_bitmap g b AND NOT (push_bit k 1))\<rparr>),
        spin_lock_release L_pid])"

text \<open>
  A scan that ends takes at most one turn per byte of the bitmap after the first
  (\<open>pid_scan_ends\<close> below), so 4097 turns decide it.
\<close>

definition PID_TURNS :: nat where "PID_TURNS = 4097"

subsection \<open>The process table\<close>

definition proc_init :: "('z kproc_scheme, unit) kernel" where
  "proc_init = seqK [
     spin_lock_init L_pid ''pid_lock'',
     spin_lock_init L_wait ''wait_lock'',
     forK [0..<N_PROC] (\<lambda>i. seqK [
       spin_lock_init (L_proc i) ''process'',
       upd_proc i (\<lambda>q. q\<lparr>p_pid := -1\<rparr>),
       upd_proc i (\<lambda>q. q\<lparr>p_state := PROC_UNUSED\<rparr>),
       upd_proc i (\<lambda>q. q\<lparr>p_kernel_stack := KERNEL_STACK (of_nat i)\<rparr>)])]"

definition proc_free :: "nat \<Rightarrow> ('z kproc_scheme, unit) kernel" where
  "proc_free p = seqK [
     bindK (getK (\<lambda>s. p_tf (procs s p))) (\<lambda>tf. whenK (tf \<noteq> 0) (pm_free tf)),
     upd_proc p (\<lambda>q. q\<lparr>p_tf := 0\<rparr>),
     bindK (getK (\<lambda>s. (p_page_table (procs s p), p_size (procs s p)))) (\<lambda>(pt, sz).
       whenK (pt \<noteq> 0) (free_user_page_table pt sz)),
     upd_proc p (\<lambda>q. q\<lparr>p_page_table := 0\<rparr>),
     upd_proc p (\<lambda>q. q\<lparr>p_size := 0\<rparr>),
     bindK (getK (\<lambda>s. p_pid (procs s p))) pid_free,
     upd_proc p (\<lambda>q. q\<lparr>p_pid := -1\<rparr>),
     upd_proc p (\<lambda>q. q\<lparr>p_parent := None\<rparr>),
     upd_proc p (\<lambda>q. q\<lparr>p_chan := None\<rparr>),
     upd_proc p (\<lambda>q. q\<lparr>p_killed := False\<rparr>),
     upd_proc p (\<lambda>q. q\<lparr>p_xstate := 0\<rparr>),
     upd_proc p (\<lambda>q. q\<lparr>p_state := PROC_UNUSED\<rparr>)]"

definition proc_alloc :: "('z kproc_scheme, nat option) kernel" where
  "proc_alloc =
     bindK (untilK [0..<N_PROC] (\<lambda>p.
       thenK (spin_lock_acquire (L_proc p)) (
       bindK (getK (\<lambda>s. p_state (procs s p))) (\<lambda>st.
       if st = PROC_UNUSED then
         let fail = thenK (proc_free p) (thenK (spin_lock_release (L_proc p)) (retK (Some None))) in
         bindK (pid_alloc PID_TURNS) (\<lambda>pid.
         thenK (upd_proc p (\<lambda>q. q\<lparr>p_pid := pid\<rparr>)) (
         thenK (upd_proc p (\<lambda>q. q\<lparr>p_state := PROC_USED\<rparr>)) (
         bindK pm_alloc (\<lambda>tf.
         thenK (upd_proc p (\<lambda>q. q\<lparr>p_tf := tf\<rparr>)) (
         if tf = 0 then fail else
         bindK (get_user_page_table p) (\<lambda>pt.
         thenK (upd_proc p (\<lambda>q. q\<lparr>p_page_table := pt\<rparr>)) (
         if pt = 0 then fail else
         bindK (getK (\<lambda>s. fork_return_at (pg s))) (\<lambda>ra.
         thenK (upd_proc p (\<lambda>q. q\<lparr>p_ctx :=
             \<lparr>ctx_ra = ra, ctx_sp = p_kernel_stack q + PAGE_SIZE, ctx_s = \<lambda>_. 0\<rparr>\<rparr>))
           (retK (Some (Some p)))))))))))
       else thenK (spin_lock_release (L_proc p)) (retK None)))))
     (\<lambda>r. retK (case r of None \<Rightarrow> None | Some x \<Rightarrow> x))"

definition proc_grow :: "u64 \<Rightarrow> ('z kproc_scheme, int) kernel" where
  "proc_grow sz =
     bindK current_proc (\<lambda>p.
     bindK (getK (\<lambda>s. (p_page_table (procs s p), p_size (procs s p)))) (\<lambda>(pt, old).
     bindK (if sz > old then uvm_alloc pt old sz PTE_W else uvm_dealloc pt old sz) (\<lambda>new_size.
     if new_size \<noteq> 0
     then thenK (upd_proc p (\<lambda>q. q\<lparr>p_size := new_size\<rparr>)) (retK 0)
     else retK (-1))))"

subsection \<open>Creating and ending a process\<close>

definition fork :: "('z kproc_scheme, int) kernel" where
  "fork =
     bindK proc_alloc (\<lambda>c. case c of None \<Rightarrow> retK (-1) | Some child \<Rightarrow>
     bindK current_proc (\<lambda>parent.
     bindK (getK (\<lambda>s. (procs s child, procs s parent))) (\<lambda>(cq, pq).
     bindK (copy_user_page_table (p_page_table cq) (p_page_table pq) (p_size pq)) (\<lambda>r.
     if r \<noteq> 0 then
       thenK (proc_free child) (thenK (spin_lock_release (L_proc child)) (retK (-1)))
     else thenK (seqK [
       upd_proc child (\<lambda>q. q\<lparr>p_size := p_size pq\<rparr>),
       upd_mem (memmove (p_tf cq) (p_tf pq) TRAP_FRAME_SIZE),
       set_tf child tf_a0 0,
       forK [0..<N_OFILE] (\<lambda>fd. case p_ofile pq fd of
           None \<Rightarrow> retK ()
         | Some f \<Rightarrow> bindK (file_dup f) (\<lambda>f.
             upd_proc child (\<lambda>q. q\<lparr>p_ofile := (p_ofile q)(fd := Some f)\<rparr>))),
       deref (p_cwd pq) (\<lambda>i. bindK (idup i) (\<lambda>i. upd_proc child (\<lambda>q. q\<lparr>p_cwd := Some i\<rparr>))),
       upd_proc child (\<lambda>q. q\<lparr>p_name := strncpy (p_name q) (p_name pq) 20\<rparr>)]) (
     bindK (getK (\<lambda>s. p_pid (procs s child))) (\<lambda>pid. thenK (seqK [
       spin_lock_release (L_proc child),
       spin_lock_acquire L_wait,
       upd_proc child (\<lambda>q. q\<lparr>p_parent := Some parent\<rparr>),
       spin_lock_release L_wait,
       spin_lock_acquire (L_proc child),
       upd_proc child (\<lambda>q. q\<lparr>p_state := PROC_RUNNABLE\<rparr>),
       spin_lock_release (L_proc child)]) (retK pid)))))))"

text \<open>
  The body of the \<^verbatim>\<open>for\<close> loop of \<^verbatim>\<open>wait\<close>: \<open>Some v\<close> when it returns \<open>v\<close>. The loop changes no
  parent, so \<^verbatim>\<open>have_kids\<close> is what it is before.
\<close>

definition wait_visit :: "nat \<Rightarrow> u64 \<Rightarrow> nat \<Rightarrow> ('z kproc_scheme, int option) kernel" where
  "wait_visit parent pstate child =
     bindK (getK (\<lambda>s. p_parent (procs s child))) (\<lambda>pp.
     if pp \<noteq> Some parent then retK None else
     thenK (spin_lock_acquire (L_proc child)) (
     bindK (getK (\<lambda>s. (procs s child, p_page_table (procs s parent)))) (\<lambda>(q, pt).
     if p_state q = PROC_ZOMBIE then
       bindK (if pstate \<noteq> 0 then copy_out pt pstate (map (byte_of (of_int (p_xstate q))) [0..<4]) else retK 0) (\<lambda>r.
       if r \<noteq> 0 then
         thenK (spin_lock_release (L_proc child)) (thenK (spin_lock_release L_wait) (retK (Some (-1))))
       else
         thenK (proc_free child) (
         thenK (spin_lock_release (L_proc child)) (
         thenK (spin_lock_release L_wait) (retK (Some (p_pid q))))))
     else thenK (spin_lock_release (L_proc child)) (retK None))))"

definition wait :: "u64 \<Rightarrow> ('z kproc_scheme, int) kernel" where
  "wait pstate =
     bindK current_proc (\<lambda>parent.
     thenK (spin_lock_acquire L_wait) (
     bindK (getK (\<lambda>s. list_ex (\<lambda>c. p_parent (procs s c) = Some parent) [0..<N_PROC])) (\<lambda>have_kids.
     bindK (untilK [0..<N_PROC] (wait_visit parent pstate)) (\<lambda>r.
     case r of Some v \<Rightarrow> retK v | None \<Rightarrow>
     bindK (if \<not> have_kids then retK True else killed parent) (\<lambda>stop.
     if stop then thenK (spin_lock_release L_wait) (retK (-1))
     else thenK (sleep_on (Ch_proc parent) L_wait) (retK (-1)))))))"

definition wake_proc :: "nat option \<Rightarrow> ('z kbase_scheme, unit) kernel" where
  "wake_proc p = (case p of None \<Rightarrow> retK () | Some i \<Rightarrow> wake_up (Ch_proc i))"

definition close_files :: "nat \<Rightarrow> ('z kproc_scheme, unit) kernel" where
  "close_files p = forK [0..<N_OFILE] (\<lambda>fd.
     bindK (getK (\<lambda>s. p_ofile (procs s p) fd)) (\<lambda>f. case f of
       None \<Rightarrow> retK ()
     | Some f \<Rightarrow> thenK (file_close f) (upd_proc p (\<lambda>q. q\<lparr>p_ofile := (p_ofile q)(fd := None)\<rparr>))))"

definition adopt :: "nat \<Rightarrow> nat option \<Rightarrow> nat \<Rightarrow> ('z kbase_scheme, unit) kernel" where
  "adopt p ip child =
     bindK (getK (\<lambda>s. procs s child)) (\<lambda>q.
     whenK (p_state q \<noteq> PROC_UNUSED \<and> p_parent q = Some p)
       (upd_proc child (\<lambda>q. q\<lparr>p_parent := ip\<rparr>)))"

definition do_exit :: "int \<Rightarrow> ('z kproc_scheme, unit) kernel" where
  "do_exit xstate =
     bindK current_proc (\<lambda>p.
     bindK (getK (\<lambda>s. init_proc (pg s))) (\<lambda>ip.
     if Some p = ip then panicK (CHR 0x27 # ''init'' @ CHR 0x27 # '' exit'') else seqK [
       close_files p,
       begin_op,
       bindK (getK (\<lambda>s. p_cwd (procs s p))) (\<lambda>cwd. deref cwd iput),
       end_op,
       upd_proc p (\<lambda>q. q\<lparr>p_cwd := None\<rparr>),
       spin_lock_acquire L_wait,
       forK [0..<N_PROC] (adopt p ip),
       spin_lock_release L_wait,
       wake_proc ip,
       spin_lock_acquire (L_proc p),
       upd_proc p (\<lambda>q. q\<lparr>p_xstate := xstate\<rparr>),
       upd_proc p (\<lambda>q. q\<lparr>p_state := PROC_ZOMBIE\<rparr>),
       bindK (getK (\<lambda>s. p_parent (procs s p))) wake_proc,
       sched,
       panicK ''zombie process'']))"

subsection \<open>The scheduler\<close>

text \<open>
  The \<^verbatim>\<open>for\<close> loop of \<^verbatim>\<open>scheduler\<close> from the process \<open>i\<close> on, and \<^verbatim>\<open>scheduler\<close> up to the end of
  the first turn of its outer loop.
  When a process is found the turn stops at the switch into it, and goes on with
  \<open>scheduler_resume p\<close> and \<open>scheduler_pass (p + 1)\<close>; \<^verbatim>\<open>wfi\<close> only waits.
\<close>

definition scheduler_pass :: "nat \<Rightarrow> ('z kbase_scheme, unit) kernel" where
  "scheduler_pass i = forK [i..<N_PROC] scheduler_visit"

definition scheduler :: "('z kbase_scheme, unit) kernel" where
  "scheduler = seqK [
     modK (upd_cpu (\<lambda>c. c\<lparr>c_proc := None\<rparr>)),
     intr_on,
     scheduler_pass 0,
     intr_on]"

text \<open>
  What a processor's scheduler does: \<open>(i, s)\<close> is its place in the loop with the state it finds.
  It dispatches a process, which later switches back in a state \<open>u\<close> of its making, or it reaches
  the end of the table and starts over.
\<close>

inductive sched_step :: "nat \<times> 'z kbase_scheme \<Rightarrow> nat option \<Rightarrow> nat \<times> 'z kbase_scheme \<Rightarrow> bool" where
  dispatch: "scheduler_pass i s = Switch t \<Longrightarrow> cur_proc t = Some p \<Longrightarrow>
    scheduler_resume p u = Ret () v \<Longrightarrow> sched_step (i, s) (Some p) (Suc p, v)"
| wrap: "scheduler_pass i s = Ret () t \<Longrightarrow> sched_step (i, s) None (0, v)"

inductive_cases sched_stepE: "sched_step (i, s) l r"

subsection \<open>The first process\<close>

definition initcode :: "u8 list" where
  "initcode = [
     0x17, 0x05, 0x00, 0x00, 0x13, 0x05, 0xc5, 0x02, 0x97, 0x05, 0x00, 0x00,
     0x93, 0x85, 0x65, 0x03, 0x17, 0x06, 0x00, 0x00, 0x13, 0x06, 0xe6, 0x03,
     0x93, 0x08, 0xd0, 0x00, 0x73, 0x00, 0x00, 0x00, 0x93, 0x08, 0x40, 0x00,
     0x73, 0x00, 0x00, 0x00, 0xef, 0xf0, 0x9f, 0xff, 0x2f, 0x69, 0x6e, 0x69,
     0x74, 0x00, 0x00, 0x53, 0x48, 0x45, 0x4c, 0x4c, 0x3d, 0x2f, 0x73, 0x68,
     0x00, 0x00, 0x2c, 0x00, 0x00, 0x00, 0x00, 0x00, 0x00, 0x00, 0x00, 0x00,
     0x00, 0x00, 0x00, 0x00, 0x00, 0x00, 0x33, 0x00, 0x00, 0x00, 0x00, 0x00,
     0x00, 0x00, 0x00, 0x00, 0x00, 0x00, 0x00, 0x00, 0x00, 0x00, 0x01, 0x00]"

definition chars :: "string \<Rightarrow> u8 list" where
  "chars cs = map (\<lambda>c. of_nat (of_char c)) cs"

definition cstr :: "u8 list \<Rightarrow> cptr" where
  "cstr bs = (\<lambda>k. if k < length bs then bs ! k else 0)"

definition user_init :: "('z kproc_scheme, unit) kernel" where
  "user_init =
     bindK proc_alloc (\<lambda>q.
     bindK pm_alloc (\<lambda>m.
     if m = 0 then panicK ''kernel trap'' else
     deref q (\<lambda>p.
     bindK (getK (\<lambda>s. p_page_table (procs s p))) (\<lambda>pt. seqK [
       upd_mem (memset m 0 4096),
       bindK (map_pages pt 0 m PAGE_SIZE (PTE_U OR PTE_R OR PTE_W OR PTE_X)) (\<lambda>_. retK ()),
       upd_mem (write_bytes m initcode),
       upd_proc p (\<lambda>q. q\<lparr>p_size := PAGE_SIZE\<rparr>),
       set_tf p tf_epc 0,
       set_tf p tf_sp USER_STACK_TOP,
       upd_proc p (\<lambda>q. q\<lparr>p_state := PROC_RUNNABLE\<rparr>),
       bindK (namei (chars ''/'')) (\<lambda>i. upd_proc p (\<lambda>q. q\<lparr>p_cwd := i\<rparr>)),
       upd_pg (\<lambda>g. g\<lparr>init_proc := Some p\<rparr>),
       upd_proc p (\<lambda>q. q\<lparr>p_name := strncpy (p_name q) (cstr (chars ''init'')) 20\<rparr>),
       spin_lock_release (L_proc p)]))))"

section \<open>Frame\<close>

lemma pg_frame [simp, quiet_simps]:
  "hart_ok (pg_update f s) = hart_ok s"
  "avail (pg_update f s) L = avail s L"
  "holds (pg_update f s) L = holds s L"
  "grab L (pg_update f s) = pg_update f (grab L s)"
  "ungrab L (pg_update f s) = pg_update f (ungrab L s)"
  "pg (grab L s) = pg s" "pg (ungrab L s) = pg s"
  by (simp_all add: avail_def holds_def lock_free_def spin_lock_holding_def grab_def ungrab_def hart_defs fun_eq_iff Let_def)

lemma upd_pg_apply [simp]: "upd_pg f s = Ret () (s\<lparr>pg := f (pg s)\<rparr>)"
  by (simp add: upd_pg_def)

section \<open>Process identifiers\<close>

lemma pid_alloc_eq:
  assumes "avail s L_pid"
  shows "pid_alloc fuel s =
    (case pid_scan fuel (pg s) (pid_byte (pg s)) (pid_shift (pg s)) of
       None \<Rightarrow> NoFuel
     | Some None \<Rightarrow> Panic ''no free pid''
     | Some (Some (b, k)) \<Rightarrow> Ret (int b * 8 + int k) (s\<lparr>pg := pid_take b k (pg s)\<rparr>))"
  using assms by (auto simp: pid_alloc_def thenK_def bindK_def split: option.splits)

lemma pid_taken_bit: "pid_taken w k \<longleftrightarrow> bit w k"
  by (simp add: pid_taken_def push_bit_of_1 and_exp_eq_0_iff_not_bit)

lemma pid_scan_full:
  assumes full: "\<And>k. k < 8 \<Longrightarrow> pid_taken (pid_bitmap g (pid_byte g)) k" and "0 < pid_shift g"
  shows "pid_scan fuel g b s = None"
proof (induction fuel arbitrary: b s)
  case (Suc fuel)
  have "find (\<lambda>k. \<not> pid_taken (pid_bitmap g (pid_byte g)) k) [s..<8] = None"
    using full by (auto simp: find_None_iff)
  then show ?case using Suc assms(2) by (simp add: Let_def)
qed simp

text \<open>4097 turns decide every scan that ends.\<close>

lemma pid_scan_found:
  assumes "k < 8" "\<not> pid_taken (pid_bitmap g (pid_byte g)) k"
  shows "pid_scan (Suc (Suc n)) g b s \<noteq> None"
proof -
  have "find (\<lambda>k. \<not> pid_taken (pid_bitmap g (pid_byte g)) k) [0..<8] \<noteq> None"
    using assms by (auto simp: find_None_iff)
  then show ?thesis by (auto simp: Let_def split: option.splits)
qed

lemma pid_scan_round:
  assumes full: "\<And>k. k < 8 \<Longrightarrow> pid_taken (pid_bitmap g (pid_byte g)) k" and "pid_shift g = 0"
  shows "0 < d \<Longrightarrow> pid_byte g = (b + d) mod 4096 \<Longrightarrow> d \<le> fuel \<Longrightarrow> pid_scan fuel g b s = Some None"
proof (induction fuel arbitrary: b s d)
  case (Suc fuel)
  have none: "find (\<lambda>k. \<not> pid_taken (pid_bitmap g (pid_byte g)) k) [s..<8] = None"
    using full by (auto simp: find_None_iff)
  show ?case
  proof (cases "(b + 1) mod 4096 = pid_byte g")
    case False
    then have "0 < d - 1" using Suc.prems(1,2) by (cases "d = 1") auto
    moreover have "pid_byte g = ((b + 1) mod 4096 + (d - 1)) mod 4096"
      using Suc.prems(1,2) mod_add_left_eq [of "b + 1" 4096 "d - 1"] by simp
    ultimately show ?thesis using Suc.IH [of "d - 1" "(b + 1) mod 4096" 0] Suc.prems(3) none False by (simp add: Let_def)
  qed (use none assms(2) in \<open>simp add: Let_def\<close>)
qed simp

lemma pid_scan_ends:
  assumes "pid_byte g < 4096" "pid_scan PID_TURNS g (pid_byte g) s = None"
  shows "pid_scan fuel g (pid_byte g) s = None"
proof (cases "\<exists>k<8. \<not> pid_taken (pid_bitmap g (pid_byte g)) k")
  case True
  then show ?thesis using pid_scan_found [of _ g 4095 "pid_byte g" s] assms(2) by (auto simp: PID_TURNS_def)
next
  case False
  then have full: "pid_taken (pid_bitmap g (pid_byte g)) k" if "k < 8" for k using that by blast
  have "pid_shift g \<noteq> 0"
    using pid_scan_round [OF full, of 4096 "pid_byte g" PID_TURNS s] assms by (auto simp: PID_TURNS_def)
  then show ?thesis using pid_scan_full [OF full] by simp
qed

text \<open>The variables after the first \<open>k\<close> allocations since boot.\<close>

definition pids :: "nat \<Rightarrow> proc_globals \<Rightarrow> proc_globals" where
  "pids k g = g\<lparr>pid_bitmap := (\<lambda>_. 0)(0 := mask k), pid_byte := 0, pid_shift := k\<rparr>"

lemma pid_taken_mask: "j < 8 \<Longrightarrow> pid_taken (mask k) j \<longleftrightarrow> j < k"
  by (auto simp: pid_taken_bit bit_simps)

lemma pid_take_pids: "k < 8 \<Longrightarrow> pid_take 0 k (pids k g) = pids (Suc k) g"
proof -
  have "mask k OR push_bit k 1 = (mask (Suc k) :: u8)"
    by (auto simp: bit_eq_iff bit_simps less_Suc_eq)
  then show ?thesis by (simp add: pid_take_def pids_def push_bit_of_1 fun_upd_same del: fun_upd_apply)
qed

lemma pid_scan_pids: "k < 8 \<Longrightarrow> pid_scan (Suc fuel) (pids k g) 0 k = Some (Some (0, k))"
proof -
  assume k: "k < 8"
  then have "[k..<8] = k # [Suc k..<8]" by (simp add: upt_conv_Cons)
  then show ?thesis using k by (simp add: pids_def pid_taken_mask)
qed

section \<open>The scheduler\<close>

definition runnable_from :: "nat \<Rightarrow> 'z kbase_scheme \<Rightarrow> nat option" where
  "runnable_from i s = find (\<lambda>p. p_state (procs s p) = PROC_RUNNABLE) [i..<N_PROC]"

lemma scheduler_visit_skip:
  assumes "avail s (L_proc p)" "p_state (procs s p) \<noteq> PROC_RUNNABLE"
  shows "scheduler_visit p s = Ret () s"
  using assms by (simp add: scheduler_visit_def thenK_def)

lemma scheduler_pass_eq:
  assumes "procs_avail s"
  shows "scheduler_pass i s = (case runnable_from i s of None \<Rightarrow> Ret () s
    | Some p \<Rightarrow> Switch (setp (Some p) ((grab (L_proc p) s)
        \<lparr>procs := (procs s)(p := (procs s p)\<lparr>p_state := PROC_RUNNING\<rparr>)\<rparr>)))"
proof -
  have "forK ps scheduler_visit s = (case find (\<lambda>p. p_state (procs s p) = PROC_RUNNABLE) ps of None \<Rightarrow> Ret () s
    | Some p \<Rightarrow> Switch (setp (Some p) ((grab (L_proc p) s)
        \<lparr>procs := (procs s)(p := (procs s p)\<lparr>p_state := PROC_RUNNING\<rparr>)\<rparr>)))"
    if "\<And>p. p \<in> set ps \<Longrightarrow> avail s (L_proc p)" for ps
    using that
  proof (induction ps)
    case (Cons p ps)
    then show ?case
      by (cases "p_state (procs s p) = PROC_RUNNABLE")
         (simp_all add: scheduler_visit_runnable scheduler_visit_skip thenK_def bindK_def)
  qed simp
  from this [of "[i..<N_PROC]"] show ?thesis
    using assms by (simp add: scheduler_pass_def runnable_from_def procs_avail_def)
qed

lemma runnable_from_Some:
  assumes "runnable_from i s = Some p"
  shows "i \<le> p" "p < N_PROC" "p_state (procs s p) = PROC_RUNNABLE"
    "i \<le> q \<Longrightarrow> q < N_PROC \<Longrightarrow> p_state (procs s q) = PROC_RUNNABLE \<Longrightarrow> p \<le> q"
proof -
  obtain k where k: "k < N_PROC - i" "p = i + k" "p_state (procs s (i + k)) = PROC_RUNNABLE"
    "\<And>j. j < k \<Longrightarrow> p_state (procs s (i + j)) \<noteq> PROC_RUNNABLE"
    using assms by (auto simp: runnable_from_def find_Some_iff)
  then show "i \<le> p" "p < N_PROC" "p_state (procs s p) = PROC_RUNNABLE" by auto
  assume "i \<le> q" "p_state (procs s q) = PROC_RUNNABLE"
  then have "\<not> q - i < k" using k(4) [of "q - i"] by auto
  then show "p \<le> q" using k(2) \<open>i \<le> q\<close> by linarith
qed

lemma runnable_from_None:
  "runnable_from i s = None \<Longrightarrow> i \<le> q \<Longrightarrow> q < N_PROC \<Longrightarrow> p_state (procs s q) \<noteq> PROC_RUNNABLE"
  by (auto simp: runnable_from_def find_None_iff)

lemma cur_proc_dispatched [simp]: "cur_proc (setp c s) = c"
  by (simp add: cur_proc_def setp_def hart_defs)

lemma sched_step_iff:
  assumes "procs_avail s"
  shows "sched_step (i, s) l (j, v) \<longleftrightarrow>
    (case runnable_from i s of None \<Rightarrow> l = None \<and> j = 0
     | Some p \<Rightarrow> l = Some p \<and> j = Suc p \<and> (\<exists>u. scheduler_resume p u = Ret () v))"
  using scheduler_pass_eq [OF assms, of i]
  by (auto elim!: sched_stepE intro: sched_step.intros split: option.splits)

text \<open>How far the scheduler is from process \<open>q\<close>.\<close>

definition turns_to :: "nat \<Rightarrow> nat \<Rightarrow> nat" where
  "turns_to q i = (if i \<le> q then q - i else N_PROC - i + 1 + q)"

lemma sched_step_closer:
  assumes "procs_avail s" "sched_step (i, s) l (j, v)" "l \<noteq> Some q"
    "q < N_PROC" "p_state (procs s q) = PROC_RUNNABLE" "i \<le> N_PROC"
  shows "turns_to q j < turns_to q i \<and> j \<le> N_PROC"
proof (cases "runnable_from i s")
  case None
  have "\<not> i \<le> q"
    using runnable_from_None [OF None] assms(4,5) by blast
  then show ?thesis using assms None by (simp add: sched_step_iff turns_to_def)
next
  case (Some p)
  note p = runnable_from_Some [OF Some]
  have "p \<noteq> q" "j = Suc p" using assms Some by (auto simp: sched_step_iff)
  moreover have "p \<le> q" if "i \<le> q" using p(4) that assms(4,5) by blast
  ultimately show ?thesis using p(1,2) assms(6) by (auto simp: turns_to_def)
qed

section \<open>Exit\<close>

definition adopted :: "nat \<Rightarrow> nat option \<Rightarrow> (nat \<Rightarrow> process) \<Rightarrow> nat \<Rightarrow> process" where
  "adopted p ip ps k =
     (if k < N_PROC \<and> p_state (ps k) \<noteq> PROC_UNUSED \<and> p_parent (ps k) = Some p then (ps k)\<lparr>p_parent := ip\<rparr> else ps k)"

lemma adopt_all: "forK [0..<N_PROC] (adopt p ip) s = Ret () (s\<lparr>procs := adopted p ip (procs s)\<rparr>)"
proof -
  let ?g = "\<lambda>_ q. if p_state q \<noteq> PROC_UNUSED \<and> p_parent q = Some p then q\<lparr>p_parent := ip\<rparr> else q"
  let ?upd = "\<lambda>i t. t\<lparr>procs := (procs t)(i := ?g i (procs t i))\<rparr>"
  have "adopt p ip i t = Ret () (?upd i t)" for i and t :: "'a kbase_scheme"
    by (cases t) (simp add: adopt_def)
  then have "forK [0..<N_PROC] (adopt p ip) s = Ret () (fold ?upd [0..<N_PROC] s)"
    using forK_fold [of "[0..<N_PROC]" "\<lambda>_. True" "adopt p ip" ?upd s] by simp
  moreover have "(\<lambda>i. if i \<in> set [0..<N_PROC] then ?g i (procs s i) else procs s i) = adopted p ip (procs s)"
    by (auto simp: adopted_def fun_eq_iff)
  moreover have "fold ?upd [0..<N_PROC] s = s\<lparr>procs := \<lambda>i. if i \<in> set [0..<N_PROC] then ?g i (procs s i) else procs s i\<rparr>"
    by (rule fold_procs) simp
  ultimately show ?thesis by (simp only:)
qed

lemma iput_shared:
  assumes "avail s L_itable" "\<not> (i_refcnt (itable s i) = 1 \<and> i_valid (itable s i) \<and> i_nlink (itable s i) = 0)"
  shows "iput i s = Ret () (s\<lparr>itable := (itable s)(i := (itable s i)\<lparr>i_refcnt := i_refcnt (itable s i) - 1\<rparr>)\<rparr>)"
proof -
  have "(i_refcnt (itable s i) = 1 \<and> i_valid (itable s i) \<and> i_nlink (itable s i) = 0) = False" using assms(2) by blast
  then show ?thesis using assms(1) by (auto simp: iput_def the_inode_def upd_inode_def)
qed

text \<open>The last part of \<^verbatim>\<open>do_exit\<close>, after the working directory.\<close>

definition exit_procs :: "nat \<Rightarrow> nat \<Rightarrow> nat \<Rightarrow> int \<Rightarrow> (nat \<Rightarrow> process) \<Rightarrow> nat \<Rightarrow> process" where
  "exit_procs p ip q x ps =
     (let ps = adopted p (Some ip) (ps(p := (ps p)\<lparr>p_cwd := None\<rparr>));
          ps = woken (Some p) (Ch_proc ip) ps
      in woken (Some p) (Ch_proc q) (ps(p := (ps p)\<lparr>p_xstate := x, p_state := PROC_ZOMBIE\<rparr>)))"

lemma exit_zombie:
  assumes "quiet s" "n_off (current_cpu s) = 0" "cur_proc s = Some p" "p_parent (procs s p) = Some q"
  shows "seqK [
       spin_lock_acquire (L_proc p),
       upd_proc p (\<lambda>q. q\<lparr>p_xstate := x\<rparr>),
       upd_proc p (\<lambda>q. q\<lparr>p_state := PROC_ZOMBIE\<rparr>),
       bindK (getK (\<lambda>s. p_parent (procs s p))) wake_proc,
       sched,
       panicK ''zombie process''] s = Switch ((grab (L_proc p) s)
         \<lparr>procs := woken (Some p) (Ch_proc q) ((procs s)(p := (procs s p)\<lparr>p_xstate := x, p_state := PROC_ZOMBIE\<rparr>))\<rparr>)"
proof -
  let ?z = "(grab (L_proc p) s)\<lparr>procs := (procs s)(p := (procs s p)\<lparr>p_xstate := x, p_state := PROC_ZOMBIE\<rparr>)\<rparr>"
  let ?w = "?z\<lparr>procs := woken (Some p) (Ch_proc q) (procs ?z)\<rparr>"
  have h: "hart_ok s" "avail s (L_proc p)" using assms(1) by auto
  have "others_avail ?z" using assms(1,3) h by (auto simp: others_avail_def)
  then have w: "wake_up (Ch_proc q) ?z = Ret () ?w" using assms(3) by (simp add: wake_up_others)
  have "holds ?w (L_proc p)" using h by simp
  then have "spin_lock_holding (L_proc p) ?w" unfolding holds_def by blast
  then have "sched ?w = Switch ?w"
    using assms h by (subst sched_eq [of _ p]) (auto simp: woken_def)
  then show ?thesis using h(2) w assms(4) by (simp add: wake_proc_def thenK_def bindK_def)
qed

lemma exit_tail:
  assumes c: "calm s p" and q: "p_parent (procs s p) = Some q" "q \<noteq> p"
  shows "seqK [
       upd_proc p (\<lambda>q. q\<lparr>p_cwd := None\<rparr>),
       spin_lock_acquire L_wait,
       forK [0..<N_PROC] (adopt p (Some ip)),
       spin_lock_release L_wait,
       wake_proc (Some ip),
       spin_lock_acquire (L_proc p),
       upd_proc p (\<lambda>q. q\<lparr>p_xstate := x\<rparr>),
       upd_proc p (\<lambda>q. q\<lparr>p_state := PROC_ZOMBIE\<rparr>),
       bindK (getK (\<lambda>s. p_parent (procs s p))) wake_proc,
       sched,
       panicK ''zombie process''] s = Switch ((grab (L_proc p) s)\<lparr>procs := exit_procs p ip q x (procs s)\<rparr>)"
proof -
  note d = calmD [OF c]
  let ?a = "s\<lparr>procs := adopted p (Some ip) ((procs s)(p := (procs s p)\<lparr>p_cwd := None\<rparr>))\<rparr>"
  let ?b = "?a\<lparr>procs := woken (Some p) (Ch_proc ip) (procs ?a)\<rparr>"
  have "p_parent (procs ?b p) = Some q" using q by (simp add: adopted_def woken_def)
  moreover have "n_off (current_cpu ?b) = 0" "quiet ?b" "cur_proc ?b = Some p" using d by simp_all
  ultimately have "seqK [
       spin_lock_acquire (L_proc p),
       upd_proc p (\<lambda>q. q\<lparr>p_xstate := x\<rparr>),
       upd_proc p (\<lambda>q. q\<lparr>p_state := PROC_ZOMBIE\<rparr>),
       bindK (getK (\<lambda>s. p_parent (procs s p))) wake_proc,
       sched,
       panicK ''zombie process''] ?b = Switch ((grab (L_proc p) s)\<lparr>procs := exit_procs p ip q x (procs s)\<rparr>)"
    using exit_zombie [of ?b p q x] by (simp add: exit_procs_def Let_def)
  moreover have "wake_up (Ch_proc ip) ?a = Ret () ?b" using d by simp
  ultimately show ?thesis using d(1) by (simp add: wake_proc_def adopt_all)
qed

lemma calm_begin:
  assumes c: "calm s p" and t: "txn s L D W Map.empty" and l: "lg_outstanding (lg s) = 0" "\<not> lg_committing (lg s)" "lh_n (lg s) = 0"
  shows "begin_op s = Ret () (s\<lparr>lg := (lg s)\<lparr>lg_outstanding := 1\<rparr>\<rparr>)"
    "txn (s\<lparr>lg := (lg s)\<lparr>lg_outstanding := 1\<rparr>\<rparr>) L D W Map.empty"
  using begin_op_ok [OF c] l t by (simp_all add: MAX_OP_BLKS_def LOG_SIZE_def txn_def)

section \<open>Properties\<close>

text \<open>
  C21. Process identifiers after boot: the first eight allocations return 0 to 7 in order. When
  none of them has been freed, the ninth never ends, however long it runs, and it spins with the
  pid lock held: the scan tests the byte it started from in place of the one it has advanced to.
\<close>

theorem pid_alloc_ninth:
  assumes "avail s L_pid"
  shows "(\<forall>k<8. pid_alloc PID_TURNS (s\<lparr>pg := pids k g\<rparr>) = Ret (int k) (s\<lparr>pg := pids (Suc k) g\<rparr>)) \<and>
    (\<forall>fuel. pid_alloc fuel (s\<lparr>pg := pids 8 g\<rparr>) = NoFuel)"
proof (intro conjI allI impI)
  fix fuel :: nat
  show "pid_alloc fuel (s\<lparr>pg := pids 8 g\<rparr>) = NoFuel"
    using assms pid_scan_full [of "pids 8 g"] by (simp add: pid_alloc_eq pid_taken_mask pids_def)
next
  fix k :: nat assume k: "k < 8"
  have "pid_scan PID_TURNS (pids k g) 0 k = Some (Some (0, k))"
    using pid_scan_pids [OF k, of 4096] by (simp add: PID_TURNS_def)
  moreover have "pid_byte (pids k g) = 0" "pid_shift (pids k g) = k" by (simp_all add: pids_def)
  ultimately show "pid_alloc PID_TURNS (s\<lparr>pg := pids k g\<rparr>) = Ret (int k) (s\<lparr>pg := pids (Suc k) g\<rparr>)"
    using assms by (simp add: pid_alloc_eq pid_take_pids [OF k])
qed

text \<open>A process with a parent asleep in \<^verbatim>\<open>wait\<close>, which is also \<^verbatim>\<open>init\<close>, on an empty disk.\<close>

definition family :: kproc where
  "family = (kfile.extend file_ready (kproc.fields
     \<lparr>pid_bitmap = \<lambda>_. 0, pid_byte = 0, pid_shift = 0, init_proc = Some 1, first_return = False, fork_return_at = 0\<rparr>))
     \<lparr>itable := \<lambda>_. blank_inode\<lparr>i_refcnt := 2\<rparr>,
      procs := (procs file_ready)(0 := (procs file_ready 0)\<lparr>p_cwd := Some 0, p_parent := Some 1\<rparr>,
        1 := (procs file_ready 1)\<lparr>p_state := PROC_SLEEPING, p_chan := Some (Ch_proc 1)\<rparr>)\<rparr>"

lemmas family_defs = family_def file_ready_def dev_start_defs kfile.defs kproc.defs

lemma family_disk: "fresh_disk family"
  unfolding fresh_disk_def by (auto simp: family_defs)

theorem pid_alloc_ninth_witness:
  "pid_alloc PID_TURNS (family\<lparr>pg := pids 3 (pg family)\<rparr>) = Ret 3 (family\<lparr>pg := pids 4 (pg family)\<rparr>) \<and>
   pid_alloc PID_TURNS (family\<lparr>pg := pids 8 (pg family)\<rparr>) = NoFuel"
proof -
  have "avail family L_pid" using family_disk calmD(1) unfolding fresh_disk_def by blast
  from pid_alloc_ninth [OF this, of "pg family"] show ?thesis
    by (simp add: numeral_eq_Suc)
qed

text \<open>
  C14. The scheduler starves nobody: along every run of a processor's scheduler, whatever the
  processes it dispatches do, a process that stays runnable is dispatched within
  \<open>N_PROC\<close> steps.
\<close>

theorem scheduler_fair:
  assumes "\<And>n. sched_step (run n) (l n) (run (Suc n))" "\<And>n. procs_avail (snd (run n))"
    and "\<And>n. p_state (procs (snd (run n)) q) = PROC_RUNNABLE" "q < N_PROC" "fst (run 0) \<le> N_PROC"
  shows "\<exists>n\<le>N_PROC. l n = Some q"
proof (rule ccontr)
  assume no: "\<not> ?thesis"
  have "turns_to q (fst (run n)) + n \<le> turns_to q (fst (run 0)) \<and> fst (run n) \<le> N_PROC" if "n \<le> Suc N_PROC" for n
    using that
  proof (induction n)
    case (Suc n)
    have "turns_to q (fst (run (Suc n))) < turns_to q (fst (run n)) \<and> fst (run (Suc n)) \<le> N_PROC"
    proof (rule sched_step_closer)
      show "sched_step (fst (run n), snd (run n)) (l n) (fst (run (Suc n)), snd (run (Suc n)))"
        using assms(1) by simp
      show "l n \<noteq> Some q" using no Suc.prems by auto
    qed (use assms Suc in auto)
    then show ?case using Suc by auto
  qed (use assms(5) in simp)
  from this [of "Suc N_PROC"] show False using assms(4,5) by (auto simp: turns_to_def split: if_splits)
qed

definition idle_hart :: kbase where
  "idle_hart = boot_state\<lparr>procs := (procs boot_state)(0 := (procs boot_state 0)\<lparr>p_state := PROC_RUNNABLE\<rparr>)\<rparr>"

lemma idle_hart_ok:
  "procs_avail idle_hart" "\<And>p. p_state (procs idle_hart p) = PROC_RUNNABLE \<longleftrightarrow> p = 0"
proof -
  have "quiet idle_hart"
    by (simp add: idle_hart_def boot_state_def quiet_def lock_free_def hart_defs)
  then show "procs_avail idle_hart" by (rule quiet_procs_avail)
qed (simp add: idle_hart_def boot_state_def)

theorem scheduler_fair_witness:
  "\<exists>n\<le>N_PROC. (if even n then Some 0 else None) = Some (0 :: nat) \<and> (\<exists>r. sched_step (0, idle_hart) (Some 0) r)"
proof -
  let ?run = "\<lambda>n. (if even n then 0 else 1 :: nat, idle_hart)"
  have "avail idle_hart (L_proc 0)" "cur_proc idle_hart = None"
    using idle_hart_ok(1) by (simp_all add: procs_avail_def N_PROC_def idle_hart_def boot_state_def cur_proc_def hart_defs)
  then have resume: "scheduler_resume 0 (grab (L_proc 0) idle_hart) = Ret () idle_hart"
    by (simp add: scheduler_resume_def thenK_def flip: setp_def)
  have "runnable_from 0 idle_hart = Some 0" "runnable_from 1 idle_hart = None"
    using idle_hart_ok(2) by (simp_all add: runnable_from_def find_None_iff upt_conv_Cons N_PROC_def)
  then have step: "sched_step (?run n) (if even n then Some 0 else None) (?run (Suc n))" for n
    using idle_hart_ok(1) resume by (auto simp: sched_step_iff)
  have "\<exists>n\<le>N_PROC. (if even n then Some 0 else None) = Some (0 :: nat)"
    by (rule scheduler_fair [of ?run]) (use step idle_hart_ok in \<open>auto simp: N_PROC_def\<close>)
  moreover have "\<exists>r. sched_step (0, idle_hart) (Some 0) r" using step [of 0] by auto
  ultimately show ?thesis by blast
qed

text \<open>
  C11. An exiting process hands over: once its files are closed and its working directory is put
  (in a transaction of its own), it is a zombie with its exit status, its children belong to
  \<^verbatim>\<open>init\<close>, and a parent asleep in \<^verbatim>\<open>wait\<close> and an \<^verbatim>\<open>init\<close> asleep in \<^verbatim>\<open>wait\<close> are runnable; no other
  process has changed, and the process has left the processor with its own lock held.
\<close>

theorem exit_hands_over:
  fixes s s1 :: "'z kproc_scheme"
  assumes c: "calm s p" and ip: "init_proc (pg s) = Some ip" "ip \<noteq> p"
    and files: "close_files p s = Ret () s1" "calm s1 p" "txn s1 L D W Map.empty"
    and log: "lg_outstanding (lg s1) = 0" "\<not> lg_committing (lg s1)" "lh_n (lg s1) = 0"
    and cwd: "p_cwd (procs s1 p) = Some i"
      "\<not> (i_refcnt (itable s1 i) = 1 \<and> i_valid (itable s1 i) \<and> i_nlink (itable s1 i) = 0)"
    and q: "p_parent (procs s1 p) = Some q" "q \<noteq> p"
  shows "\<exists>t. do_exit x s = Switch t \<and> holds t (L_proc p) \<and>
    procs t p = (procs s1 p)\<lparr>p_cwd := None, p_xstate := x, p_state := PROC_ZOMBIE\<rparr> \<and>
    (\<forall>k<N_PROC. k \<noteq> p \<longrightarrow> (let r = procs s1 k; w = procs t k in
       w = r\<lparr>p_parent := p_parent w, p_state := p_state w\<rparr> \<and>
       p_parent w = (if p_state r \<noteq> PROC_UNUSED \<and> p_parent r = Some p then Some ip else p_parent r) \<and>
       p_state w = (if p_state r = PROC_SLEEPING \<and> (p_chan r = Some (Ch_proc ip) \<or> p_chan r = Some (Ch_proc q))
                    then PROC_RUNNABLE else p_state r)))"
proof -
  let ?u = "s1\<lparr>lg := (lg s1)\<lparr>lg_outstanding := 1\<rparr>\<rparr>"
  let ?v = "?u\<lparr>itable := (itable ?u)(i := (itable ?u i)\<lparr>i_refcnt := i_refcnt (itable ?u i) - 1\<rparr>)\<rparr>"
  note b = calm_begin [OF files(2,3) log]
  have "avail ?u L_itable" using calmD(1) [OF files(2)] by simp
  then have put: "iput i ?u = Ret () ?v" using cwd(2) by (intro iput_shared) simp_all
  obtain t where t: "end_op ?v = Ret () t" "calm t p" "procs t = procs ?v"
    using end_op_ok [of ?v p L D W "lg ?v"] files(2) b(2) log(2) by auto
  have "p_parent (procs t p) = Some q" using t(3) q(1) by simp
  note tail = exit_tail [OF t(2) this q(2), of ip x]
  have "do_exit x s = Switch ((grab (L_proc p) t)\<lparr>procs := exit_procs p ip q x (procs t)\<rparr>)"
    using calmD(2,4) [OF c] ip files(1) b(1) put t(1) cwd(1) tail
    by (simp add: do_exit_def deref_def)
  moreover have "holds ((grab (L_proc p) t)\<lparr>procs := exit_procs p ip q x (procs t)\<rparr>) (L_proc p)"
    using calmD(1) [OF t(2)] by simp
  moreover have "exit_procs p ip q x (procs s1) p = (procs s1 p)\<lparr>p_cwd := None, p_xstate := x, p_state := PROC_ZOMBIE\<rparr>"
    using q by (simp add: exit_procs_def woken_def adopted_def Let_def)
  ultimately show ?thesis using t(3)
    by (intro exI [of _ "(grab (L_proc p) t)\<lparr>procs := exit_procs p ip q x (procs t)\<rparr>"])
       (auto simp: exit_procs_def woken_def adopted_def Let_def)
qed

theorem exit_hands_over_witness:
  "\<exists>s t. binit family = Ret () s \<and> do_exit 7 s = Switch t \<and>
     p_state (procs t 0) = PROC_ZOMBIE \<and> p_xstate (procs t 0) = 7 \<and> p_state (procs t 1) = PROC_RUNNABLE"
proof -
  obtain s where s: "binit family = Ret () s" "calm s 0" "txn s (\<lambda>_ _. 0) (\<lambda>_ _. 0) [] Map.empty"
    "lg s = lg log_ready" "lock_init_step family s"
    using fresh_disk_ok [OF family_disk] by blast
  have f: "procs s = procs family" "itable s = itable family" "pg s = pg family"
    using s(5) by (auto simp: lock_init_step_def)
  have p: "p_ofile (procs s 0) fd = None" "p_cwd (procs s 0) = Some 0" "p_parent (procs s 0) = Some 1"
    "p_state (procs s 1) = PROC_SLEEPING" "p_chan (procs s 1) = Some (Ch_proc 1)" for fd
    unfolding f by (simp_all add: family_defs)
  have i: "i_refcnt (itable s 0) = 2" "init_proc (pg s) = Some 1" unfolding f by (simp_all add: family_defs)
  have "close_files 0 s = Ret () s"
    using p(1) forK_fold [of "[0..<N_OFILE]" "\<lambda>t. t = s" _ "\<lambda>_ t. t" s] by (simp add: close_files_def)
  from exit_hands_over [OF s(2) i(2) _ this s(2,3) _ _ _ p(2) _ p(3), of 7]
  obtain t where t: "do_exit 7 s = Switch t"
    "procs t 0 = (procs s 0)\<lparr>p_cwd := None, p_xstate := 7, p_state := PROC_ZOMBIE\<rparr>"
    "\<forall>k<N_PROC. k \<noteq> 0 \<longrightarrow> p_state (procs t k) = (if p_state (procs s k) = PROC_SLEEPING \<and>
       (p_chan (procs s k) = Some (Ch_proc 1) \<or> p_chan (procs s k) = Some (Ch_proc 1)) then PROC_RUNNABLE else p_state (procs s k))"
    using i(1) s(4) by (auto simp: log_ready_lg Let_def)
  from t(3) [rule_format, of 1] have "p_state (procs t 1) = PROC_RUNNABLE" using p(4,5) by (simp add: N_PROC_def)
  then show ?thesis using s(1) t(1,2) by auto
qed

end
