(* ===== verification/Exec.thy ===== *)
theory Exec
  imports Proc
begin

text \<open>
  Running a program: \<^verbatim>\<open>kernel/fs/exec.c\<close> over the structures of \<^verbatim>\<open>include/fs/elf.h\<close>.

  Of the two headers the model has the fields that the code reads. A header is the list of bytes
  \<^verbatim>\<open>readi\<close> stores in it; a segment goes from \<^verbatim>\<open>readi\<close> to the physical memory of its page. The
  argument and environment strings are lists of bytes without the terminator.
\<close>

section \<open>Definitions\<close>

definition MAX_PATH :: nat where "MAX_PATH = 128"
definition MAX_ARGS :: nat where "MAX_ARGS = 32"
definition MAX_ENVS :: nat where "MAX_ENVS = 16"
definition ELF_MAGIC :: u32 where "ELF_MAGIC = 0x464C457F"
definition ELF_PROG_LOAD :: u32 where "ELF_PROG_LOAD = 1"
definition ELFHDR_SIZE :: nat where "ELFHDR_SIZE = 64"
definition PROGHDR_SIZE :: nat where "PROGHDR_SIZE = 56"
definition tf_a1 :: u64 where "tf_a1 = 120"
definition tf_a2 :: u64 where "tf_a2 = 128"

record elfhdr =
  eh_magic :: u32
  eh_entry :: u64
  eh_phoff :: u64
  eh_phnum :: u16

record proghdr =
  ph_type :: u32
  ph_flags :: u32
  ph_off :: u64
  ph_vaddr :: u64
  ph_filesz :: u64
  ph_memsz :: u64

definition ld64 :: "cptr \<Rightarrow> nat \<Rightarrow> u64" where
  "ld64 b k = ucast (ld32 b k) OR push_bit 32 (ucast (ld32 b (k + 4)))"

definition get_elfhdr :: "u8 list \<Rightarrow> elfhdr" where
  "get_elfhdr bs = (let b = cstr bs in
     \<lparr>eh_magic = ld32 b 0, eh_entry = ld64 b 24, eh_phoff = ld64 b 32, eh_phnum = ld16 b 56\<rparr>)"

definition get_proghdr :: "u8 list \<Rightarrow> proghdr" where
  "get_proghdr bs = (let b = cstr bs in
     \<lparr>ph_type = ld32 b 0, ph_flags = ld32 b 4, ph_off = ld64 b 8, ph_vaddr = ld64 b 16,
      ph_filesz = ld64 b 32, ph_memsz = ld64 b 40\<rparr>)"

definition flags2perm :: "u32 \<Rightarrow> u64" where
  "flags2perm flags =
     (let perm = (if flags AND 1 \<noteq> 0 then PTE_X else 0) in
      if flags AND 2 \<noteq> 0 then perm OR PTE_W else perm)"

fun load_seg_loop :: "u64 \<Rightarrow> u64 \<Rightarrow> nat \<Rightarrow> u64 \<Rightarrow> u64 \<Rightarrow> u64 list \<Rightarrow> ('z kproc_scheme, int) kernel" where
  "load_seg_loop page_table va inode off sz [] = retK 0"
| "load_seg_loop page_table va inode off sz (i # is) =
     bindK (uvm_walk_addr page_table (va + i)) (\<lambda>pa.
     if pa = 0 then panicK ''the address does not exist when loading segment'' else
     let n = (if sz - i < PAGE_SIZE then sz - i else PAGE_SIZE) in
     bindK (readi inode To_kernel (off + i) n) (\<lambda>(r, bs).
     thenK (upd_mem (write_bytes pa bs)) (
     if r \<noteq> int (unat n) then retK (-1) else load_seg_loop page_table va inode off sz is)))"

definition load_seg :: "u64 \<Rightarrow> u64 \<Rightarrow> nat \<Rightarrow> u64 \<Rightarrow> u64 \<Rightarrow> ('z kproc_scheme, int) kernel" where
  "load_seg page_table va inode off sz = load_seg_loop page_table va inode off sz (page_range 0 sz)"

text \<open>
  The loop over the program headers. The result is whether it went through (\<open>False\<close> is
  \<^verbatim>\<open>goto bad\<close>) and the value of \<^verbatim>\<open>new_sz\<close> it leaves.
\<close>

fun load_segs :: "u64 \<Rightarrow> nat \<Rightarrow> nat \<Rightarrow> u64 \<Rightarrow> u64 \<Rightarrow> ('z kproc_scheme, bool \<times> u64) kernel" where
  "load_segs pt inode 0 off new_sz = retK (True, new_sz)"
| "load_segs pt inode (Suc n) off new_sz =
     bindK (readi inode To_kernel off (of_nat PROGHDR_SIZE)) (\<lambda>(r, bs).
     if r \<noteq> int PROGHDR_SIZE then retK (False, new_sz) else
     let ph = get_proghdr bs; next_off = off + of_nat PROGHDR_SIZE in
     if ph_type ph \<noteq> ELF_PROG_LOAD then load_segs pt inode n next_off new_sz
     else if ph_memsz ph < ph_filesz ph then retK (False, new_sz)
     else if ph_vaddr ph + ph_memsz ph < ph_vaddr ph then retK (False, new_sz)
     else if ph_vaddr ph mod PAGE_SIZE \<noteq> 0 then retK (False, new_sz)
     else
       bindK (uvm_alloc pt new_sz (ph_vaddr ph + ph_memsz ph) (flags2perm (ph_flags ph))) (\<lambda>ret.
       if ret = 0 then retK (False, new_sz) else
       bindK (load_seg pt (ph_vaddr ph) inode (ph_off ph) (ph_filesz ph)) (\<lambda>r.
       if r \<noteq> 0 then retK (False, ret) else load_segs pt inode n next_off ret)))"

text \<open>
  The loops that push the strings on the user stack: the stack pointer and the addresses of the
  strings, or \<open>None\<close> for \<^verbatim>\<open>goto bad\<close>. \<open>push_block\<close> is one push.
\<close>

definition push_block :: "u64 \<Rightarrow> u64 \<Rightarrow> u8 list \<Rightarrow> ('z kproc_scheme, u64 option) kernel" where
  "push_block pt sp bs =
     (let sp = sp - of_nat (length bs); sp = sp - sp mod 16 in
      if sp < USER_STACK_BASE then retK None else
      bindK (copy_out pt sp bs) (\<lambda>r. retK (if r \<noteq> 0 then None else Some sp)))"

fun push_strs :: "u64 \<Rightarrow> nat \<Rightarrow> nat \<Rightarrow> u64 \<Rightarrow> u8 list list \<Rightarrow> ('z kproc_scheme, (u64 \<times> u64 list) option) kernel" where
  "push_strs pt limit i sp [] = retK (Some (sp, []))"
| "push_strs pt limit i sp (str # strs) =
     (if i \<ge> limit then retK None else
      bindK (push_block pt sp (str @ [0])) (\<lambda>r.
      case r of None \<Rightarrow> retK None | Some sp' \<Rightarrow>
      bindK (push_strs pt limit (i + 1) sp' strs) (\<lambda>r.
      retK (case r of None \<Rightarrow> None | Some (sp2, us) \<Rightarrow> Some (sp2, sp' # us)))))"

definition le_bytes :: "u64 \<Rightarrow> u8 list" where
  "le_bytes w = map (\<lambda>k. ucast (drop_bit (8 * k) w)) [0..<8]"

definition push_vector :: "u64 \<Rightarrow> nat \<Rightarrow> u64 \<Rightarrow> u8 list list \<Rightarrow> ('z kproc_scheme, u64 option) kernel" where
  "push_vector pt limit sp strs =
     bindK (push_strs pt limit 0 sp strs) (\<lambda>r.
     case r of None \<Rightarrow> retK None
     | Some (sp, us) \<Rightarrow> push_block pt sp (concat (map le_bytes (us @ [0]))))"

definition base_name :: "u8 list \<Rightarrow> u8 list" where
  "base_name path =
     (case strrchr (cstr path) SLASH of Some (Some k) \<Rightarrow> drop (k + 1) path | _ \<Rightarrow> path)"

text \<open>The label \<^verbatim>\<open>bad\<close>, with the values the two variables have there.\<close>

definition exec_bad :: "u64 \<Rightarrow> u64 \<Rightarrow> nat option \<Rightarrow> ('z kproc_scheme, int) kernel" where
  "exec_bad new_page_table new_sz inode =
     thenK (whenK (new_page_table \<noteq> 0) (free_user_page_table new_page_table new_sz)) (
     thenK (case inode of None \<Rightarrow> retK () | Some i \<Rightarrow> seqK [iunlock i, iput i, end_op])
       (retK (-1)))"

definition exec_commit :: "nat \<Rightarrow> u8 list \<Rightarrow> u64 \<Rightarrow> u64 \<Rightarrow> u64 \<Rightarrow> u64 \<Rightarrow> ('z kproc_scheme, unit) kernel" where
  "exec_commit p path pt new_sz entry sp =
     bindK (getK (\<lambda>s. (p_page_table (procs s p), p_size (procs s p)))) (\<lambda>(old_pt, old_sz). seqK [
       upd_proc p (\<lambda>q. q\<lparr>p_name := strncpy (p_name q) (cstr (base_name path)) 20\<rparr>),
       upd_proc p (\<lambda>q. q\<lparr>p_page_table := pt\<rparr>),
       upd_proc p (\<lambda>q. q\<lparr>p_size := new_sz\<rparr>),
       set_tf p tf_epc entry,
       set_tf p tf_sp sp,
       free_user_page_table old_pt old_sz])"

definition exec_stack :: "nat \<Rightarrow> u8 list \<Rightarrow> u8 list list \<Rightarrow> u8 list list \<Rightarrow> u64 \<Rightarrow> u64 \<Rightarrow> u64 \<Rightarrow> ('z kproc_scheme, int) kernel" where
  "exec_stack p path argv env pt new_sz entry =
     bindK (push_vector pt MAX_ARGS USER_STACK_TOP argv) (\<lambda>r.
     case r of None \<Rightarrow> exec_bad pt new_sz None | Some sp \<Rightarrow>
     thenK (set_tf p tf_a1 sp) (
     bindK (push_vector pt MAX_ENVS sp env) (\<lambda>r.
     case r of None \<Rightarrow> exec_bad pt new_sz None | Some sp \<Rightarrow>
     thenK (set_tf p tf_a2 sp) (
     thenK (exec_commit p path pt new_sz entry sp) (
     retK (int (length argv)))))))"

definition do_execve :: "u8 list \<Rightarrow> u8 list list \<Rightarrow> u8 list list \<Rightarrow> ('z kproc_scheme, int) kernel" where
  "do_execve path argv env =
     bindK current_proc (\<lambda>p.
     thenK begin_op (
     bindK (namei path) (\<lambda>i.
     case i of None \<Rightarrow> thenK end_op (retK (-1)) | Some inode \<Rightarrow>
     thenK (ilock inode) (
     bindK (readi inode To_kernel 0 (of_nat ELFHDR_SIZE)) (\<lambda>(r, bs).
     let elf = get_elfhdr bs in
     if r \<noteq> int ELFHDR_SIZE then exec_bad 0 0 (Some inode)
     else if eh_magic elf \<noteq> ELF_MAGIC then exec_bad 0 0 (Some inode)
     else
       bindK (get_user_page_table p) (\<lambda>pt.
       if pt = 0 then exec_bad 0 0 (Some inode) else
       bindK (load_segs pt inode (unat (eh_phnum elf)) (eh_phoff elf) 0) (\<lambda>(ok, new_sz).
       if \<not> ok then exec_bad pt new_sz (Some inode) else
       thenK (iunlock inode) (
       thenK (iput inode) (
       thenK end_op (
       exec_stack p path argv env pt new_sz (eh_entry elf)))))))))))"

end
