(* ===== verification/Timer.thy ===== *)
theory Timer
  imports Exec
begin

text \<open>
  The timer and the interrupt controller: \<^verbatim>\<open>kernel/dev/timer.c\<close> and \<^verbatim>\<open>kernel/dev/plic.c\<close>, with the
  registers that \<^verbatim>\<open>kernel/trap/trap.c\<close> uses.

  The supervisor call that sets the next timer interrupt writes the comparator \<open>timer_cmp\<close> of the
  calling processor. The controller keeps the registers the kernel writes, and the list of pending
  interrupts in the order it delivers them: reading the claim register takes the first, 0 when
  there is none. The addresses of the trap vectors are chosen by the linker.
\<close>

section \<open>Definitions\<close>

definition INTERVAL :: u64 where "INTERVAL = 1000000"
definition UART0_IRQ :: u32 where "UART0_IRQ = 10"
definition VIRTIO0_IRQ :: u32 where "VIRTIO0_IRQ = 1"

definition PLIC_SENABLE :: "nat \<Rightarrow> u64" where
  "PLIC_SENABLE hart = PLIC + 0x2080 + of_nat hart * 0x100"

definition PLIC_SPRIORITY :: "nat \<Rightarrow> u64" where
  "PLIC_SPRIORITY hart = PLIC + 0x201000 + of_nat hart * 0x2000"

definition PLIC_SCLAIM :: "nat \<Rightarrow> u64" where
  "PLIC_SCLAIM hart = PLIC + 0x201004 + of_nat hart * 0x2000"

record hart_regs =
  r_stvec :: "nat \<Rightarrow> u64"
  r_sepc :: "nat \<Rightarrow> u64"
  r_scause :: "nat \<Rightarrow> u64"
  r_sie :: "nat \<Rightarrow> u64"
  plic_regs :: "u64 \<Rightarrow> u32"
  plic_pending :: "u32 list"
  powered_off :: bool
  boot_first :: bool
  boot_started :: bool
  kernel_trap_vector :: u64
  user_trap_vector :: u64
  return_to_user_space :: u64
  user_trap_handler_at :: u64
  ftable_files :: u64

record ktrap = kproc +
  hw :: hart_regs

definition upd_hw :: "(hart_regs \<Rightarrow> hart_regs) \<Rightarrow> ('z ktrap_scheme, unit) kernel" where
  "upd_hw f = modK (\<lambda>s. s\<lparr>hw := f (hw s)\<rparr>)"

subsection \<open>Timer\<close>

definition timer_set_next :: "('z kdev_scheme, unit) kernel" where
  "timer_set_next = modK (\<lambda>s. s\<lparr>timer_cmp := (timer_cmp s)(tp s := mtime s + INTERVAL)\<rparr>)"

definition timer_init :: "('z kdev_scheme, unit) kernel" where
  "timer_init = seqK [
     modK (\<lambda>s. s\<lparr>ticks := 0\<rparr>),
     spin_lock_init L_timer ''timer'']"

definition timer_intr :: "('z kdev_scheme, unit) kernel" where
  "timer_intr =
     bindK (getK current_cpuid) (\<lambda>c. seqK [
       whenK (c = 0) (seqK [
         spin_lock_acquire L_timer,
         modK (\<lambda>s. s\<lparr>ticks := ticks s + 1\<rparr>),
         spin_lock_release L_timer,
         wake_up Ch_ticks]),
       timer_set_next])"

text \<open>
  The loop of \<^verbatim>\<open>timer_sleep\<close> from a test of its guard on, with the lock held; a process that is
  woken goes on here.
\<close>

definition timer_wait :: "u64 \<Rightarrow> u64 \<Rightarrow> ('z kdev_scheme, int) kernel" where
  "timer_wait t0 n =
     bindK (getK ticks) (\<lambda>t.
     if t - t0 < n then
       bindK current_proc (\<lambda>p.
       bindK (killed p) (\<lambda>k.
       if k then thenK (spin_lock_release L_timer) (retK (-1))
       else thenK (sleep_on Ch_ticks L_timer) (retK (-1))))
     else thenK (spin_lock_release L_timer) (retK 0))"

definition timer_sleep :: "u64 \<Rightarrow> ('z kdev_scheme, int) kernel" where
  "timer_sleep n =
     thenK (spin_lock_acquire L_timer) (
     bindK (getK ticks) (\<lambda>t0. timer_wait t0 n))"

subsection \<open>Interrupt controller\<close>

definition plic_write :: "u64 \<Rightarrow> u32 \<Rightarrow> ('z ktrap_scheme, unit) kernel" where
  "plic_write a v = upd_hw (\<lambda>h. h\<lparr>plic_regs := (plic_regs h)(a := v)\<rparr>)"

definition plic_init :: "('z ktrap_scheme, unit) kernel" where
  "plic_init = seqK [
     plic_write (PLIC + ucast UART0_IRQ * 4) 1,
     plic_write (PLIC + ucast VIRTIO0_IRQ * 4) 1]"

definition plic_init_hart :: "('z ktrap_scheme, unit) kernel" where
  "plic_init_hart =
     bindK (getK current_cpuid) (\<lambda>hart. seqK [
       plic_write (PLIC_SENABLE hart) (push_bit (unat UART0_IRQ) 1 OR push_bit (unat VIRTIO0_IRQ) 1),
       plic_write (PLIC_SPRIORITY hart) 0])"

definition plic_claim :: "('z ktrap_scheme, u32) kernel" where
  "plic_claim =
     bindK (getK (\<lambda>s. plic_pending (hw s))) (\<lambda>pend.
     case pend of [] \<Rightarrow> retK 0
     | irq # rest \<Rightarrow> thenK (upd_hw (\<lambda>h. h\<lparr>plic_pending := rest\<rparr>)) (retK irq))"

definition plic_complete :: "u32 \<Rightarrow> ('z ktrap_scheme, unit) kernel" where
  "plic_complete irq = bindK (getK current_cpuid) (\<lambda>hart. plic_write (PLIC_SCLAIM hart) irq)"

section \<open>Frame\<close>

lemma timer_cmp_frame [simp, quiet_simps]:
  "hart_ok (timer_cmp_update f s) = hart_ok s" "procs_avail (timer_cmp_update f s) = procs_avail s"
  "procs (timer_cmp_update f s) = procs s" "ticks (timer_cmp_update f s) = ticks s"
  by (simp_all add: procs_avail_def avail_def lock_free_def hart_defs)

lemma timer_intr_ok:
  assumes "procs_avail s" "avail s L_timer" "current_cpuid s = 0"
  shows "timer_intr s = Ret () (s\<lparr>ticks := ticks s + 1, procs := woken (cur_proc s) Ch_ticks (procs s),
    timer_cmp := (timer_cmp s)(tp s := mtime s + INTERVAL)\<rparr>)"
  using assms by (simp add: timer_intr_def timer_set_next_def thenK_def)

lemma timer_wait_ok:
  assumes c: "calm s p" "\<not> p_killed (procs s p)"
  shows "timer_wait t0 n (grab L_timer s) =
    (if ticks s - t0 < n then Switch ((grab (L_proc p) s)
       \<lparr>procs := (procs s)(p := (procs s p)\<lparr>p_chan := Some Ch_ticks, p_state := PROC_SLEEPING\<rparr>)\<rparr>)
     else Ret 0 s)"
proof -
  note d = calmD [OF c(1)]
  have "avail (grab L_timer s) (L_proc p)" using d(1) by simp
  then show ?thesis using c d sleep_on_calm [OF c(1), of L_timer Ch_ticks]
    by (simp add: timer_wait_def thenK_def bindK_def)
qed

section \<open>Properties\<close>

text \<open>
  C18. A sleep ends when its time has come, and not before. \<^verbatim>\<open>timer_sleep\<close> of \<open>n\<close> ticks puts the
  process to sleep on the tick counter; every timer interrupt on the first processor advances the
  counter and makes a process asleep on it runnable; and a process that goes on in the loop
  of \<^verbatim>\<open>timer_sleep\<close> sleeps again as long as fewer than \<open>n\<close> ticks have passed, and returns 0 otherwise.
\<close>

theorem timer_sleep_wakes:
  fixes s :: "'z kdev_scheme"
  assumes "calm s p" "\<not> p_killed (procs s p)" "0 < n"
  shows "(\<exists>t. timer_sleep n s = Switch t \<and> ticks t = ticks s \<and> p_state (procs t p) = PROC_SLEEPING \<and> p_chan (procs t p) = Some Ch_ticks) \<and>
    (\<forall>u :: 'z kdev_scheme. procs_avail u \<and> avail u L_timer \<and> current_cpuid u = 0 \<and> cur_proc u \<noteq> Some p \<and>
       p_state (procs u p) = PROC_SLEEPING \<and> p_chan (procs u p) = Some Ch_ticks \<longrightarrow>
       (\<exists>v. timer_intr u = Ret () v \<and> ticks v = ticks u + 1 \<and> p_state (procs v p) = PROC_RUNNABLE)) \<and>
    (\<forall>u :: 'z kdev_scheme. calm u p \<and> \<not> p_killed (procs u p) \<longrightarrow>
       (if ticks u - ticks s < n
        then \<exists>t. timer_wait (ticks s) n (grab L_timer u) = Switch t \<and> p_state (procs t p) = PROC_SLEEPING \<and> p_chan (procs t p) = Some Ch_ticks
        else timer_wait (ticks s) n (grab L_timer u) = Ret 0 u))"
proof (intro conjI allI impI)
  note d = calmD [OF assms(1)]
  have "timer_sleep n s = timer_wait (ticks s) n (grab L_timer s)"
    using d(1) by (simp add: timer_sleep_def)
  then show "\<exists>t. timer_sleep n s = Switch t \<and> ticks t = ticks s \<and> p_state (procs t p) = PROC_SLEEPING \<and> p_chan (procs t p) = Some Ch_ticks"
    using timer_wait_ok [OF assms(1,2)] assms(3) by simp
next
  fix u :: "'z kdev_scheme"
  assume u: "procs_avail u \<and> avail u L_timer \<and> current_cpuid u = 0 \<and> cur_proc u \<noteq> Some p \<and>
       p_state (procs u p) = PROC_SLEEPING \<and> p_chan (procs u p) = Some Ch_ticks"
  then show "\<exists>v. timer_intr u = Ret () v \<and> ticks v = ticks u + 1 \<and> p_state (procs v p) = PROC_RUNNABLE"
    using timer_intr_ok [of u] calmD(5) [OF assms(1)] by (auto simp: woken_def)
next
  fix u :: "'z kdev_scheme"
  assume "calm u p \<and> \<not> p_killed (procs u p)"
  then show "if ticks u - ticks s < n
        then \<exists>t. timer_wait (ticks s) n (grab L_timer u) = Switch t \<and> p_state (procs t p) = PROC_SLEEPING \<and> p_chan (procs t p) = Some Ch_ticks
        else timer_wait (ticks s) n (grab L_timer u) = Ret 0 u"
    using timer_wait_ok [of u p] by simp
qed

theorem timer_sleep_wakes_witness:
  "(\<exists>t. timer_sleep 3 (dev_ready 0) = Switch t \<and> p_state (procs t 0) = PROC_SLEEPING) \<and>
   timer_wait 0 3 (grab L_timer ((dev_ready 0)\<lparr>ticks := 3\<rparr>)) = Ret 0 ((dev_ready 0)\<lparr>ticks := 3\<rparr>)"
proof -
  have k: "\<not> p_killed (procs (dev_ready 0) 0)" "ticks (dev_ready 0) = 0" by (simp_all add: dev_start_defs)
  have c: "calm ((dev_ready 0)\<lparr>ticks := 3\<rparr>) 0" "\<not> p_killed (procs ((dev_ready 0)\<lparr>ticks := 3\<rparr>) 0)"
    using dev_ready_ok(1) k by simp_all
  have "(0 :: u64) < 3" by simp
  note w = timer_sleep_wakes [OF dev_ready_ok(1) k(1) this]
  show ?thesis using w [THEN conjunct1] w [THEN conjunct2, THEN conjunct2, rule_format, OF conjI [OF c]] k(2) by auto
qed

end
