(* ===== verification/Sysfile.thy ===== *)
theory Sysfile
  imports Timer
begin

text \<open>
  The system calls on files, \<^verbatim>\<open>kernel/syscall/sysfile.c\<close>, with the access to the arguments of a
  system call of \<^verbatim>\<open>kernel/syscall/syscall.c\<close>.

  \<^verbatim>\<open>ARG(n, int)\<close> is \<open>arg_int n\<close>, the low 32 bits read as a signed number. A system call returns
  the 64-bit word that goes to register \<^verbatim>\<open>a0\<close>. \<^verbatim>\<open>fetch_str\<close> returns what it stored in the buffer;
  the string is the part before the terminator. Two turns decide the loop of \<^verbatim>\<open>copy_str_in\<close>
  (\<open>copy_str_in_terminates_iff\<close>): one that has not met the terminator by then never ends.

  The uninitialised pointer that \<^verbatim>\<open>sys_pipe\<close> passes to \<^verbatim>\<open>pipe_alloc\<close> is an argument of the model.
  \<^verbatim>\<open>sys_dup2\<close> with a closed target stores through \<^verbatim>\<open>ofile[-1]\<close>, the last word of the saved context in
  front of the array; the model stores the address of the file there.
\<close>

section \<open>Definitions\<close>

subsection \<open>Arguments (syscall.c)\<close>

definition arg_raw :: "nat \<Rightarrow> ('z kproc_scheme, u64) kernel" where
  "arg_raw k =
     bindK current_proc (\<lambda>p.
     if k < 6 then get_tf p (tf_a0 + 8 * of_nat k)
     else panicK ''illegal argument number'')"

definition arg_int :: "nat \<Rightarrow> ('z kproc_scheme, int) kernel" where
  "arg_int k = bindK (arg_raw k) (\<lambda>w. retK (sint (ucast w :: u32)))"

definition fetch_str :: "u64 \<Rightarrow> nat \<Rightarrow> ('z kproc_scheme, int \<times> u8 list) kernel" where
  "fetch_str addr len =
     bindK current_proc (\<lambda>p.
     bindK (getK (\<lambda>s. p_page_table (procs s p))) (\<lambda>pt. copy_str_in 2 pt addr len))"

definition fetch_addr :: "u64 \<Rightarrow> ('z kproc_scheme, int \<times> u64) kernel" where
  "fetch_addr addr =
     bindK current_proc (\<lambda>p.
     bindK (getK (\<lambda>s. p_page_table (procs s p))) (\<lambda>pt.
     bindK (copy_in pt addr 8) (\<lambda>(r, bs). retK (r, ld64 (cstr bs) 0))))"

definition cstring :: "u8 list \<Rightarrow> u8 list" where
  "cstring bs = takeWhile (\<lambda>c. c \<noteq> 0) bs"

subsection \<open>Descriptors\<close>

definition arg_fd :: "nat \<Rightarrow> ('z kproc_scheme, int) kernel" where
  "arg_fd k =
     bindK (arg_int k) (\<lambda>fd.
     bindK current_proc (\<lambda>p.
     bindK (getK (\<lambda>s. p_ofile (procs s p))) (\<lambda>t.
     retK (if fd < 0 \<or> fd \<ge> int N_OFILE \<or> t (nat fd) = None then -1 else fd))))"

definition set_ofile :: "nat \<Rightarrow> nat \<Rightarrow> nat option \<Rightarrow> ('z kbase_scheme, unit) kernel" where
  "set_ofile p fd f = upd_proc p (\<lambda>q. q\<lparr>p_ofile := (p_ofile q)(fd := f)\<rparr>)"

definition fd_alloc :: "nat \<Rightarrow> ('z kproc_scheme, int) kernel" where
  "fd_alloc f =
     bindK current_proc (\<lambda>p.
     bindK (getK (\<lambda>s. p_ofile (procs s p))) (\<lambda>t.
     case find (\<lambda>fd. t fd = None) [0..<N_OFILE] of
       None \<Rightarrow> retK (-1)
     | Some fd \<Rightarrow> thenK (set_ofile p fd (Some f)) (retK (int fd))))"

definition the_ofile :: "int \<Rightarrow> ('z kproc_scheme, nat option) kernel" where
  "the_ofile fd = bindK current_proc (\<lambda>p. getK (\<lambda>s. p_ofile (procs s p) (nat fd)))"

definition sys_read :: "('z kproc_scheme, u64) kernel" where
  "sys_read =
     bindK (arg_fd 0) (\<lambda>fd.
     if fd < 0 then retK (-1) else
     bindK (arg_raw 1) (\<lambda>dst.
     bindK (arg_raw 2) (\<lambda>n.
     bindK (the_ofile fd) (\<lambda>f. deref f (\<lambda>f.
     bindK (file_read f dst n) (\<lambda>r. retK (of_int r)))))))"

definition sys_write :: "('z kproc_scheme, u64) kernel" where
  "sys_write =
     bindK (arg_fd 0) (\<lambda>fd.
     if fd < 0 then retK (-1) else
     bindK (arg_raw 1) (\<lambda>src.
     bindK (arg_raw 2) (\<lambda>n.
     bindK (the_ofile fd) (\<lambda>f. deref f (\<lambda>f.
     bindK (file_write f src n) (\<lambda>r. retK (of_int r)))))))"

definition sys_close :: "('z kproc_scheme, u64) kernel" where
  "sys_close =
     bindK (arg_fd 0) (\<lambda>fd.
     if fd < 0 then retK (-1) else
     bindK current_proc (\<lambda>p.
     bindK (the_ofile fd) (\<lambda>f. deref f (\<lambda>f.
     thenK (file_close f) (
     thenK (set_ofile p (nat fd) None) (retK 0))))))"

definition sys_fstat :: "('z kproc_scheme, u64) kernel" where
  "sys_fstat =
     bindK (arg_fd 0) (\<lambda>fd.
     if fd < 0 then retK (-1) else
     bindK (arg_raw 1) (\<lambda>pstat.
     bindK (the_ofile fd) (\<lambda>f. deref f (\<lambda>f.
     bindK (file_stat f pstat) (\<lambda>r. retK (of_int r))))))"

definition sys_lseek :: "('z kproc_scheme, u64) kernel" where
  "sys_lseek =
     bindK (arg_fd 0) (\<lambda>fd.
     if fd < 0 then retK (-1) else
     bindK (arg_raw 1) (\<lambda>offset.
     bindK (arg_int 2) (\<lambda>whence.
     bindK (the_ofile fd) (\<lambda>f. deref f (\<lambda>f.
     bindK (file_lseek f (sint offset) whence) (\<lambda>r. retK (of_int r)))))))"

definition sys_dup :: "('z kproc_scheme, u64) kernel" where
  "sys_dup =
     bindK (arg_fd 0) (\<lambda>fd.
     if fd < 0 then retK (-1) else
     bindK (the_ofile fd) (\<lambda>f. deref f (\<lambda>f.
     bindK (fd_alloc f) (\<lambda>fd.
     if fd < 0 then retK (-1) else
     bindK (file_dup f) (\<lambda>_. retK 0)))))"

definition file_addr :: "hart_regs \<Rightarrow> nat \<Rightarrow> u64" where
  "file_addr h f = ftable_files h + 32 * of_nat f"

definition sys_dup2 :: "('z ktrap_scheme, u64) kernel" where
  "sys_dup2 =
     bindK (arg_fd 0) (\<lambda>oldfd.
     if oldfd < 0 then retK (-1) else
     bindK current_proc (\<lambda>p.
     bindK (arg_fd 1) (\<lambda>newfd.
     bindK (the_ofile oldfd) (\<lambda>f. deref f (\<lambda>f.
     if newfd < 0 then
       bindK (file_dup f) (\<lambda>f.
       bindK (getK (\<lambda>s. file_addr (hw s) f)) (\<lambda>a.
       thenK (upd_proc p (\<lambda>q. q\<lparr>p_ctx := (p_ctx q)\<lparr>ctx_s := (ctx_s (p_ctx q))(11 := a)\<rparr>\<rparr>))
         (retK (of_int newfd))))
     else
       bindK (the_ofile newfd) (\<lambda>g.
       if Some f = g then retK (of_int newfd) else deref g (\<lambda>g.
       thenK (file_close g) (
       bindK (file_dup f) (\<lambda>f.
       thenK (set_ofile p (nat newfd) (Some f)) (retK (of_int newfd)))))))))))"

definition sys_pipe :: "nat option \<Rightarrow> ('z kproc_scheme, u64) kernel" where
  "sys_pipe junk =
     bindK current_proc (\<lambda>p.
     bindK (arg_raw 0) (\<lambda>fd_array.
     bindK (pipe_alloc junk) (\<lambda>(r, rf, wf).
     if r \<noteq> 0 then retK (-1) else
     deref rf (\<lambda>rfile. deref wf (\<lambda>wfile.
     bindK (fd_alloc rfile) (\<lambda>fd0.
     bindK (fd_alloc wfile) (\<lambda>fd1.
     let bad = thenK (seqK [
           whenK (fd0 \<ge> 0) (set_ofile p (nat fd0) None),
           whenK (fd1 \<ge> 0) (set_ofile p (nat fd1) None),
           file_close rfile,
           file_close wfile]) (retK (-1)) in
     if fd0 < 0 \<or> fd1 < 0 then bad else
     bindK (getK (\<lambda>s. p_page_table (procs s p))) (\<lambda>pt.
     bindK (copy_out pt fd_array (map (byte_of (of_int fd0)) [0..<4])) (\<lambda>r.
     if r \<noteq> 0 then bad else
     bindK (copy_out pt (fd_array + 4) (map (byte_of (of_int fd1)) [0..<4])) (\<lambda>r.
     if r \<noteq> 0 then bad else retK 0))))))))))"

subsection \<open>Files and directories\<close>

text \<open>\<^verbatim>\<open>iunlock(i); iput(i);\<close>\<close>

definition unlock_put :: "nat \<Rightarrow> ('z kino_scheme, unit) kernel" where
  "unlock_put i = thenK (iunlock i) (iput i)"

definition set_nlink :: "nat \<Rightarrow> (u16 \<Rightarrow> u16) \<Rightarrow> ('z kino_scheme, unit) kernel" where
  "set_nlink i f = thenK (upd_inode i (\<lambda>n. n\<lparr>i_nlink := f (i_nlink n)\<rparr>)) (iupdate i)"

definition link_new :: "nat \<Rightarrow> nat \<Rightarrow> cptr \<Rightarrow> u16 \<Rightarrow> ('z kino_scheme, bool) kernel" where
  "link_new parent inode name type =
     bindK (getK (\<lambda>s. (ucast (i_ino (itable s inode)), ucast (i_ino (itable s parent))))) (\<lambda>(ino, pino).
     bindK (if type = FT_DIR then dir_link inode (cstr (chars ''.'')) ino else retK 0) (\<lambda>r.
     if r \<noteq> 0 then retK False else
     bindK (if type = FT_DIR then dir_link inode (cstr (chars ''..'')) pino else retK 0) (\<lambda>r.
     if r \<noteq> 0 then retK False else
     bindK (dir_link parent name ino) (\<lambda>r. retK (r = 0)))))"

definition create :: "u8 list \<Rightarrow> u16 \<Rightarrow> u16 \<Rightarrow> u16 \<Rightarrow> ('z kino_scheme, nat option) kernel" where
  "create path type major minor =
     bindK (parenti path) (\<lambda>(par, name).
     case par of None \<Rightarrow> retK None | Some parent \<Rightarrow>
     thenK (ilock parent) (
     bindK (dir_lookup parent name) (\<lambda>r.
     case r of
       Some (inode, _) \<Rightarrow>
         thenK (unlock_put parent) (
         thenK (ilock inode) (
         bindK (the_inode inode) (\<lambda>n.
         if type = FT_FILE \<and> (i_type n = FT_FILE \<or> i_type n = FT_DEVICE) then retK (Some inode)
         else thenK (unlock_put inode) (retK None))))
     | None \<Rightarrow>
         bindK (the_inode parent) (\<lambda>pn.
         bindK (ialloc (i_dev pn) type) (\<lambda>r.
         case r of
           None \<Rightarrow> thenK (unlock_put parent) (retK None)
         | Some inode \<Rightarrow>
             thenK (ilock inode) (
             thenK (upd_inode inode (\<lambda>n. n\<lparr>i_major := major, i_minor := minor, i_nlink := 1\<rparr>)) (
             thenK (iupdate inode) (
             bindK (link_new parent inode name type) (\<lambda>ok.
             if \<not> ok then
               thenK (set_nlink inode (\<lambda>_. 0)) (
               thenK (unlock_put inode) (
               thenK (unlock_put parent) (retK None)))
             else
               thenK (whenK (type = FT_DIR) (set_nlink inode (\<lambda>k. k + 1))) (
               thenK (unlock_put parent) (retK (Some inode))))))))))))"

definition O_WRONLY :: u32 where "O_WRONLY = 1"
definition O_RDWR :: u32 where "O_RDWR = 2"
definition O_CREAT :: u32 where "O_CREAT = 0x40"
definition O_TRUNC :: u32 where "O_TRUNC = 0x200"
definition O_APPEND :: u32 where "O_APPEND = 0x400"

text \<open>The common error exit of \<^verbatim>\<open>sys_open\<close>, and its first part: the locked inode to open.\<close>

definition open_fail :: "nat \<Rightarrow> ('z kino_scheme, u64) kernel" where
  "open_fail i = thenK (unlock_put i) (thenK end_op (retK (-1)))"

definition open_inode :: "u8 list \<Rightarrow> u32 \<Rightarrow> ('z kino_scheme, nat option) kernel" where
  "open_inode path omode =
     (if omode AND O_CREAT \<noteq> 0 then
        bindK (create path FT_FILE 0 0) (\<lambda>r.
        case r of None \<Rightarrow> thenK end_op (retK None) | Some i \<Rightarrow> retK (Some i))
      else
        bindK (namei path) (\<lambda>r.
        case r of None \<Rightarrow> thenK end_op (retK None) | Some i \<Rightarrow>
        thenK (ilock i) (
        bindK (the_inode i) (\<lambda>n.
        if i_type n = FT_DIR \<and> omode \<noteq> 0 then thenK (open_fail i) (retK None) else retK (Some i)))))"

definition open_file :: "nat \<Rightarrow> nat \<Rightarrow> u32 \<Rightarrow> ('z kfile_scheme, unit) kernel" where
  "open_file f i omode =
     bindK (the_inode i) (\<lambda>n. seqK [
       if i_type n = FT_DEVICE then upd_file f (\<lambda>x. x\<lparr>f_type := FD_DEVICE, f_major := i_major n\<rparr>)
       else upd_file f (\<lambda>x. x\<lparr>f_type := FD_INODE, f_off := 0\<rparr>),
       upd_file f (\<lambda>x. x\<lparr>f_inode := Some i,
         f_readable := (omode AND O_WRONLY = 0),
         f_writable := (omode AND O_WRONLY \<noteq> 0 \<or> omode AND O_RDWR \<noteq> 0)\<rparr>),
       whenK (omode AND O_TRUNC \<noteq> 0 \<and> i_type n = FT_FILE) (itrunc i)])"

definition sys_open :: "('z kproc_scheme, u64) kernel" where
  "sys_open =
     bindK (arg_raw 0) (\<lambda>a.
     bindK (fetch_str a MAX_PATH) (\<lambda>(r, bs).
     if r \<noteq> 0 then retK (-1) else
     bindK (arg_raw 1) (\<lambda>w.
     let omode = ucast w in
     thenK begin_op (
     bindK (open_inode (cstring bs) omode) (\<lambda>r.
     case r of None \<Rightarrow> retK (-1) | Some i \<Rightarrow>
     bindK (the_inode i) (\<lambda>n.
     if i_type n = FT_DEVICE \<and> unat (i_major n) \<ge> N_DEV then open_fail i else
     bindK file_alloc (\<lambda>r.
     case r of None \<Rightarrow> open_fail i | Some f \<Rightarrow>
     bindK (fd_alloc f) (\<lambda>fd.
     if fd < 0 then thenK (file_close f) (open_fail i) else
     thenK (open_file f i omode) (
     bindK (the_inode i) (\<lambda>n.
     let off = uint (i_size n) in
     bindK (if omode AND O_APPEND \<noteq> 0 then lseeki i off else retK off) (\<lambda>at.
     if at \<noteq> off then
       thenK (file_close f) (
       bindK current_proc (\<lambda>p.
       thenK (set_ofile p (nat fd) None) (open_fail i)))
     else
       thenK (whenK (omode AND O_APPEND \<noteq> 0) (upd_file f (\<lambda>x. x\<lparr>f_off := of_int off\<rparr>))) (
       thenK (iunlock i) (
       thenK end_op (retK (of_int fd)))))))))))))))"

definition sys_mkdir :: "('z kproc_scheme, u64) kernel" where
  "sys_mkdir =
     bindK (arg_raw 0) (\<lambda>a.
     bindK (fetch_str a MAX_PATH) (\<lambda>(r, bs).
     if r \<noteq> 0 then retK (-1) else
     thenK begin_op (
     bindK (create (cstring bs) FT_DIR 0 0) (\<lambda>r.
     case r of None \<Rightarrow> retK (-1) | Some i \<Rightarrow>
     thenK (unlock_put i) (thenK end_op (retK 0))))))"

definition sys_mknod :: "('z kproc_scheme, u64) kernel" where
  "sys_mknod =
     bindK (arg_raw 0) (\<lambda>a.
     bindK (fetch_str a MAX_PATH) (\<lambda>(r, bs).
     if r \<noteq> 0 then retK (-1) else
     bindK (arg_raw 1) (\<lambda>major.
     bindK (arg_raw 2) (\<lambda>minor.
     thenK begin_op (
     bindK (create (cstring bs) FT_DEVICE (ucast major) (ucast minor)) (\<lambda>r.
     case r of None \<Rightarrow> thenK end_op (retK (-1)) | Some i \<Rightarrow>
     thenK (unlock_put i) (thenK end_op (retK 0))))))))"

definition sys_chdir :: "('z kproc_scheme, u64) kernel" where
  "sys_chdir =
     bindK (arg_raw 0) (\<lambda>a.
     bindK (fetch_str a MAX_PATH) (\<lambda>(r, bs).
     if r \<noteq> 0 then retK (-1) else
     thenK begin_op (
     bindK (namei (cstring bs)) (\<lambda>r.
     case r of None \<Rightarrow> thenK end_op (retK (-1)) | Some i \<Rightarrow>
     thenK (ilock i) (
     bindK (the_inode i) (\<lambda>n.
     if i_type n \<noteq> FT_DIR then open_fail i else
     thenK (iunlock i) (
     bindK current_proc (\<lambda>p.
     bindK (getK (\<lambda>s. p_cwd (procs s p))) (\<lambda>cwd.
     thenK (deref cwd iput) (
     thenK end_op (
     thenK (upd_proc p (\<lambda>q. q\<lparr>p_cwd := Some i\<rparr>)) (retK 0))))))))))))"

definition link_bad :: "nat \<Rightarrow> ('z kino_scheme, u64) kernel" where
  "link_bad i =
     thenK (ilock i) (
     thenK (set_nlink i (\<lambda>k. k - 1)) (
     thenK (unlock_put i) (
     thenK end_op (retK (-1)))))"

definition sys_link :: "('z kproc_scheme, u64) kernel" where
  "sys_link =
     bindK (arg_raw 0) (\<lambda>a.
     bindK (fetch_str a MAX_PATH) (\<lambda>(r, old).
     if r \<noteq> 0 then retK (-1) else
     bindK (arg_raw 1) (\<lambda>a.
     bindK (fetch_str a MAX_PATH) (\<lambda>(r, new).
     if r \<noteq> 0 then retK (-1) else
     thenK begin_op (
     bindK (namei (cstring old)) (\<lambda>r.
     case r of None \<Rightarrow> thenK end_op (retK (-1)) | Some i \<Rightarrow>
     thenK (ilock i) (
     bindK (the_inode i) (\<lambda>n.
     if i_type n = FT_DIR then open_fail i else
     thenK (set_nlink i (\<lambda>k. k + 1)) (
     thenK (iunlock i) (
     bindK (parenti (cstring new)) (\<lambda>(par, name).
     case par of None \<Rightarrow> link_bad i | Some parent \<Rightarrow>
     thenK (ilock parent) (
     bindK (the_inode i) (\<lambda>n.
     bindK (dir_link parent name (ucast (i_ino n))) (\<lambda>r.
     if r \<noteq> 0 then thenK (unlock_put parent) (link_bad i) else
     thenK (unlock_put parent) (
     thenK (iput i) (
     thenK end_op (retK 0)))))))))))))))))"

definition is_dir_empty :: "nat \<Rightarrow> ('z kino_scheme, bool) kernel" where
  "is_dir_empty dir =
     bindK (the_inode dir) (\<lambda>n.
     bindK (untilK (drop 2 (dir_offs (i_size n))) (\<lambda>off.
       bindK (read_entry dir off) (\<lambda>de. retK (if de_ino de \<noteq> 0 then Some False else None)))) (\<lambda>r.
     retK (r = None)))"

definition unlink_entry :: "nat \<Rightarrow> nat \<Rightarrow> nat \<Rightarrow> ('z kino_scheme, unit) kernel" where
  "unlink_entry parent inode off =
     bindK (writei parent (From_kernel (replicate DIRENT_SIZE 0)) (of_nat off) (of_nat DIRENT_SIZE)) (\<lambda>r.
     if r \<noteq> int DIRENT_SIZE then panicK ''inode write error'' else
     bindK (the_inode inode) (\<lambda>n. seqK [
       whenK (i_type n = FT_DIR) (set_nlink parent (\<lambda>k. k - 1)),
       unlock_put parent,
       set_nlink inode (\<lambda>k. k - 1),
       unlock_put inode,
       end_op]))"

definition sys_unlink :: "('z kproc_scheme, u64) kernel" where
  "sys_unlink =
     bindK (arg_raw 0) (\<lambda>a.
     bindK (fetch_str a MAX_PATH) (\<lambda>(r, bs).
     if r \<noteq> 0 then retK (-1) else
     thenK begin_op (
     bindK (parenti (cstring bs)) (\<lambda>(par, name).
     case par of None \<Rightarrow> thenK end_op (retK (-1)) | Some parent \<Rightarrow>
     thenK (ilock parent) (
     if strncmp name (cstr (chars ''.'')) DIR_SIZE = 0 \<or> strncmp name (cstr (chars ''..'')) DIR_SIZE = 0
     then open_fail parent else
     bindK (dir_lookup parent name) (\<lambda>r.
     case r of None \<Rightarrow> open_fail parent | Some (inode, off) \<Rightarrow>
     thenK (ilock inode) (
     bindK (the_inode inode) (\<lambda>n.
     if i_nlink n < 1 then panicK ''unlink an invalid inode'' else
     bindK (if i_type n = FT_DIR then is_dir_empty inode else retK True) (\<lambda>empty.
     if \<not> empty then thenK (unlock_put inode) (open_fail parent)
     else thenK (unlink_entry parent inode off) (retK 0))))))))))"

subsection \<open>Running a program\<close>

text \<open>
  A loop of \<^verbatim>\<open>sys_execve\<close> that fetches a vector of strings, with \<open>n\<close> places left: whether it
  reached the null pointer, and the pages it filled with their strings.
\<close>

fun fetch_vec :: "u64 \<Rightarrow> nat \<Rightarrow> ('z kproc_scheme, bool \<times> (u64 \<times> u8 list) list) kernel" where
  "fetch_vec a 0 = retK (False, [])"
| "fetch_vec a (Suc n) =
     bindK (fetch_addr a) (\<lambda>(r, str).
     if r \<noteq> 0 then retK (False, [])
     else if str = 0 then retK (True, [])
     else
       bindK pm_alloc (\<lambda>m.
       if m = 0 then retK (False, []) else
       bindK (fetch_str str 4096) (\<lambda>(r, bs).
       thenK (upd_mem (write_bytes m bs)) (
       if r \<noteq> 0 then retK (False, [(m, [])]) else
       bindK (fetch_vec (a + 8) n) (\<lambda>(ok, vs). retK (ok, (m, cstring bs) # vs))))))"

definition free_vec :: "(u64 \<times> u8 list) list \<Rightarrow> ('z kproc_scheme, unit) kernel" where
  "free_vec vs = forK vs (\<lambda>(m, _). pm_free m)"

definition sys_execve :: "('z kproc_scheme, u64) kernel" where
  "sys_execve =
     bindK (arg_raw 0) (\<lambda>a.
     bindK (fetch_str a MAX_PATH) (\<lambda>(r, bs).
     if r \<noteq> 0 then retK (-1) else
     bindK (arg_raw 1) (\<lambda>uargv.
     bindK (fetch_vec uargv MAX_ARGS) (\<lambda>(ok, argv).
     if \<not> ok then thenK (free_vec argv) (retK (-1)) else
     bindK (arg_raw 2) (\<lambda>uenv.
     bindK (fetch_vec uenv MAX_ENVS) (\<lambda>(ok, env).
     if \<not> ok then thenK (free_vec argv) (retK (-1)) else
     bindK (do_execve (cstring bs) (map snd argv) (map snd env)) (\<lambda>ret.
     thenK (free_vec argv) (retK (of_int ret)))))))))"

section \<open>Descriptors\<close>

text \<open>The \<open>k\<close>-th argument as an \<^verbatim>\<open>int\<close>.\<close>

definition arg_val :: "'z kproc_scheme \<Rightarrow> nat \<Rightarrow> nat \<Rightarrow> int" where
  "arg_val s p k = sint (ucast (load64 (mem s) (p_tf (procs s p) + (tf_a0 + 8 * of_nat k))) :: u32)"

definition open_fd :: "'z kproc_scheme \<Rightarrow> nat \<Rightarrow> int \<Rightarrow> nat option" where
  "open_fd s p fd = (if fd < 0 \<or> fd \<ge> int N_OFILE then None else p_ofile (procs s p) (nat fd))"

lemma arg_fd_ok:
  assumes "hart_ok s" "cur_proc s = Some p" "k < 6"
  shows "arg_fd k s = Ret (if open_fd s p (arg_val s p k) = None then -1 else arg_val s p k) s"
  using assms by (simp add: arg_fd_def arg_int_def arg_raw_def get_tf_def arg_val_def open_fd_def)

lemma the_ofile_ok:
  "hart_ok s \<Longrightarrow> cur_proc s = Some p \<Longrightarrow> the_ofile fd s = Ret (p_ofile (procs s p) (nat fd)) s"
  by (simp add: the_ofile_def)

lemma file_dup_ok:
  "avail s L_ftable \<Longrightarrow> 0 < f_refcnt (files s f) \<Longrightarrow>
   file_dup f s = Ret f (s\<lparr>files := (files s)(f := (files s f)\<lparr>f_refcnt := f_refcnt (files s f) + 1\<rparr>)\<rparr>)"
  by (auto simp: file_dup_def the_file_def upd_file_def thenK_def word_less_1)

text \<open>A process with one open file, whose arguments are the descriptors 0 and \<open>v\<close>.\<close>

definition one_open :: "u64 \<Rightarrow> kproc" where
  "one_open v = family\<lparr>mem := store64 120 v (\<lambda>_. 0),
     procs := (procs family)(0 := (procs family 0)\<lparr>p_tf := 0, p_ofile := [0 \<mapsto> 0]\<rparr>),
     files := (files family)(0 := (files family 0)\<lparr>f_refcnt := 1\<rparr>)\<rparr>"

definition one_open_hw :: ktrap where
  "one_open_hw = kproc.extend (one_open 1) (ktrap.fields
     \<lparr>r_stvec = \<lambda>_. 0, r_sepc = \<lambda>_. 0, r_scause = \<lambda>_. 0, r_sie = \<lambda>_. 0, plic_regs = \<lambda>_. 0, plic_pending = [],
      powered_off = False, boot_first = False, boot_started = True, kernel_trap_vector = 0, user_trap_vector = 0,
      return_to_user_space = 0, user_trap_handler_at = 0, ftable_files = 0x80020000\<rparr>)"

lemma args_0_v: "load64 (store64 120 v (\<lambda>_. 0)) 112 = 0" "load64 (store64 120 v (\<lambda>_. 0)) 120 = v"
proof -
  have "span (120 :: u64) 8 \<inter> span 112 8 = {}"
    by (auto simp: span_def lessThan_atLeast0 upt_rec simp flip: set_upt)
  then have "load64 (store64 120 v (\<lambda>_. 0)) 112 = load64 (\<lambda>_. 0) 112" by (rule load64_other)
  also have "\<dots> = 0" by (simp add: load64_def upt_rec)
  finally show "load64 (store64 120 v (\<lambda>_. 0)) 112 = 0" .
qed simp

lemma one_open_ok:
  "avail (one_open v) L_ftable" "cur_proc (one_open v) = Some 0" "open_fd (one_open v) 0 (arg_val (one_open v) 0 0) = Some 0"
  "f_refcnt (files (one_open v) 0) = 1" "p_ofile (procs (one_open v) 0) = [0 \<mapsto> 0]"
proof -
  have "avail family L_ftable" "cur_proc family = Some 0" using family_disk calmD(1,4) by (auto simp: fresh_disk_def)
  then show "avail (one_open v) L_ftable" "cur_proc (one_open v) = Some 0"
    by (simp_all add: one_open_def avail_def lock_free_def hart_defs cur_proc_def)
  show o: "p_ofile (procs (one_open v) 0) = [0 \<mapsto> 0]" "f_refcnt (files (one_open v) 0) = 1" by (simp_all add: one_open_def)
  have "arg_val (one_open v) 0 0 = 0" by (simp add: arg_val_def one_open_def tf_a0_def args_0_v)
  then show "open_fd (one_open v) 0 (arg_val (one_open v) 0 0) = Some 0" using o(1) by (simp add: open_fd_def N_OFILE_def)
qed

section \<open>Properties\<close>

text \<open>
  C39. \<^verbatim>\<open>sys_dup2\<close> onto a descriptor that is not open fails, and does damage: it returns -1 and
  opens nothing, but the file has one more reference, which nobody will give back, and the address of
  the file has replaced the saved register s11 of the process, the word in front of \<^verbatim>\<open>ofile\<close>.
\<close>

theorem sys_dup2_closed:
  assumes s: "avail s L_ftable" "cur_proc s = Some p"
    and old: "open_fd s p (arg_val s p 0) = Some f" "0 < f_refcnt (files s f)" and new: "open_fd s p (arg_val s p 1) = None"
  shows "\<exists>t. sys_dup2 s = Ret (-1) t \<and> p_ofile (procs t p) = p_ofile (procs s p) \<and>
    f_refcnt (files t f) = f_refcnt (files s f) + 1 \<and> ctx_s (p_ctx (procs t p)) 11 = file_addr (hw s) f"
proof -
  have h: "hart_ok s" using s(1) by (rule avail_hart_ok)
  have f: "p_ofile (procs s p) (nat (arg_val s p 0)) = Some f" "\<not> arg_val s p 0 < 0"
    using old(1) by (auto simp: open_fd_def split: if_splits)
  show ?thesis
    using arg_fd_ok [OF h s(2), of 0] arg_fd_ok [OF h s(2), of 1] the_ofile_ok [OF h s(2)] file_dup_ok [OF s(1) old(2)] old(1) new f h s(2)
    by (simp add: sys_dup2_def deref_def)
qed

theorem sys_dup2_closed_witness:
  "\<exists>t. sys_dup2 one_open_hw = Ret (-1) t \<and> f_refcnt (files t 0) = 2"
proof -
  have s: "avail one_open_hw L_ftable" "cur_proc one_open_hw = Some 0" "f_refcnt (files one_open_hw 0) = 1"
    using one_open_ok [of 1]
    by (simp_all add: one_open_hw_def kproc.defs ktrap.defs avail_def lock_free_def hart_defs cur_proc_def)
  have o: "open_fd one_open_hw 0 (arg_val one_open_hw 0 0) = Some 0"
    by (simp add: one_open_hw_def one_open_def kproc.defs ktrap.defs family_defs open_fd_def arg_val_def tf_a0_def args_0_v N_OFILE_def)
  have "open_fd one_open_hw 0 (arg_val one_open_hw 0 1) = None"
    by (simp add: one_open_hw_def one_open_def kproc.defs ktrap.defs family_defs open_fd_def arg_val_def tf_a0_def args_0_v N_OFILE_def)
  from sys_dup2_closed [OF s(1,2) o _ this] show ?thesis using s(3) by auto
qed

text \<open>
  C40. \<^verbatim>\<open>sys_dup\<close> of an open file takes the lowest free descriptor for it and counts the reference, but
  the caller never learns which descriptor it is: the result is 0. With no free descriptor it is -1
  and nothing has changed.
\<close>

theorem sys_dup_lowest:
  assumes s: "avail s L_ftable" "cur_proc s = Some p"
    and fd: "open_fd s p (arg_val s p 0) = Some f" "0 < f_refcnt (files s f)"
  shows "(\<exists>k<N_OFILE. p_ofile (procs s p) k = None \<and> (\<forall>j<k. p_ofile (procs s p) j \<noteq> None) \<and>
      (\<exists>t. sys_dup s = Ret 0 t \<and> p_ofile (procs t p) = (p_ofile (procs s p))(k \<mapsto> f) \<and>
         f_refcnt (files t f) = f_refcnt (files s f) + 1)) \<or>
    (\<forall>k<N_OFILE. p_ofile (procs s p) k \<noteq> None) \<and> sys_dup s = Ret (-1) s"
proof -
  have h: "hart_ok s" using s(1) by (rule avail_hart_ok)
  have f: "p_ofile (procs s p) (nat (arg_val s p 0)) = Some f" "\<not> arg_val s p 0 < 0"
    using fd(1) by (auto simp: open_fd_def split: if_splits)
  note run = arg_fd_ok [OF h s(2), of 0] the_ofile_ok [OF h s(2)] fd(1) f h s(2)
  show ?thesis
  proof (cases "find (\<lambda>fd. p_ofile (procs s p) fd = None) [0..<N_OFILE]")
    case None
    then have "sys_dup s = Ret (-1) s" using run by (simp add: sys_dup_def fd_alloc_def deref_def)
    then show ?thesis using find_upt_NoneD [OF None] by blast
  next
    case (Some k)
    let ?u = "s\<lparr>procs := (procs s)(p := (procs s p)\<lparr>p_ofile := (p_ofile (procs s p))(k \<mapsto> f)\<rparr>)\<rparr>"
    have "fd_alloc f s = Ret (int k) ?u" using Some h s(2) by (simp add: fd_alloc_def set_ofile_def)
    moreover have "file_dup f ?u = Ret f (?u\<lparr>files := (files s)(f := (files s f)\<lparr>f_refcnt := f_refcnt (files s f) + 1\<rparr>)\<rparr>)"
      using file_dup_ok [of ?u f] s(1) fd(2) by simp
    ultimately have "\<exists>t. sys_dup s = Ret 0 t \<and> p_ofile (procs t p) = (p_ofile (procs s p))(k \<mapsto> f) \<and>
         f_refcnt (files t f) = f_refcnt (files s f) + 1"
      using run by (simp add: sys_dup_def deref_def)
    then show ?thesis using find_upt_SomeD [OF Some] by blast
  qed
qed

theorem sys_dup_lowest_witness:
  "\<exists>t. sys_dup (one_open 0) = Ret 0 t \<and> p_ofile (procs t 0) = [0 \<mapsto> 0, 1 \<mapsto> 0]"
proof -
  note o = one_open_ok [of 0]
  have one: "k = 1" if "p_ofile (procs (one_open 0) 0) k = None" "\<forall>j<k. p_ofile (procs (one_open 0) 0) j \<noteq> None" for k
    using that not_less_iff_gr_or_eq [of k 1] by (auto simp: o(5) split: if_splits)
  have "\<not> (\<forall>k<N_OFILE. p_ofile (procs (one_open 0) 0) k \<noteq> None)" 
    using o(5) by (simp add: N_OFILE_def) (rule exI [of _ 1], simp)
  moreover have "0 < f_refcnt (files (one_open 0) 0)" by (simp add: o(4))
  ultimately obtain k t where "p_ofile (procs (one_open 0) 0) k = None" "\<forall>j<k. p_ofile (procs (one_open 0) 0) j \<noteq> None"
    "sys_dup (one_open 0) = Ret 0 t" "p_ofile (procs t 0) = (p_ofile (procs (one_open 0) 0))(k \<mapsto> 0)"
    using sys_dup_lowest [OF o(1-3)] by blast
  then show ?thesis using one by (auto simp: o(5))
qed

end
