(* ===== verification/Syscall.thy ===== *)
theory Syscall
  imports Sysfile
begin

text \<open>
  The system calls on processes, \<^verbatim>\<open>kernel/syscall/sysproc.c\<close>, the table of system calls and their
  dispatch, \<^verbatim>\<open>kernel/syscall/syscall.c\<close>, and the entry into the kernel and the way back,
  \<^verbatim>\<open>kernel/trap/trap.c\<close>, with \<^verbatim>\<open>fork_return\<close> of \<^verbatim>\<open>kernel/sched/proc.c\<close> and the start of the kernel,
  \<^verbatim>\<open>kernel/boot/start.c\<close> and \<^verbatim>\<open>kernel/boot/main.c\<close>.

  The firmware call of \<^verbatim>\<open>sys_shutdown\<close> sets \<open>powered_off\<close>. \<^verbatim>\<open>user_trap_return\<close> ends in a call of
  the trampoline through its high address; the model returns the address it calls and the argument.
\<close>

section \<open>Definitions\<close>

subsection \<open>System calls on processes\<close>

definition sys_brk :: "('z kproc_scheme, u64) kernel" where
  "sys_brk = bindK (arg_raw 0) (\<lambda>a. bindK (proc_grow a) (\<lambda>r. retK (of_int r)))"

definition sys_fork :: "('z kproc_scheme, u64) kernel" where
  "sys_fork = bindK fork (\<lambda>r. retK (of_int r))"

definition sys_wait :: "('z kproc_scheme, u64) kernel" where
  "sys_wait = bindK (arg_raw 0) (\<lambda>a. bindK (wait a) (\<lambda>r. retK (of_int r)))"

definition sys_exit :: "('z kproc_scheme, u64) kernel" where
  "sys_exit = bindK (arg_int 0) (\<lambda>x. thenK (do_exit x) (retK 0))"

definition sys_sleep :: "('z kproc_scheme, u64) kernel" where
  "sys_sleep = bindK (arg_raw 0) (\<lambda>n. bindK (timer_sleep n) (\<lambda>r. retK (of_int r)))"

definition sys_kill :: "('z kproc_scheme, u64) kernel" where
  "sys_kill = bindK (arg_int 0) (\<lambda>pid. bindK (kill pid) (\<lambda>r. retK (of_int r)))"

definition sys_getpid :: "('z kproc_scheme, u64) kernel" where
  "sys_getpid = bindK current_proc (\<lambda>p. getK (\<lambda>s. of_int (p_pid (procs s p))))"

definition sys_getppid :: "('z kproc_scheme, u64) kernel" where
  "sys_getppid =
     bindK current_proc (\<lambda>p.
     bindK (getK (\<lambda>s. p_parent (procs s p))) (\<lambda>q.
     deref q (\<lambda>q. getK (\<lambda>s. of_int (p_pid (procs s q))))))"

definition sys_sbrk :: "('z kproc_scheme, u64) kernel" where
  "sys_sbrk =
     bindK (arg_raw 0) (\<lambda>w.
     bindK current_proc (\<lambda>p.
     bindK (getK (\<lambda>s. p_size (procs s p))) (\<lambda>old_size.
     let increment = sint w in
     if increment = 0 then retK old_size else
     let new_size = (if increment < 0 then old_size - of_int (- increment) else old_size + of_int increment) in
     bindK (proc_grow new_size) (\<lambda>r.
     retK (if r = 0 then old_size else -1)))))"

definition sys_shutdown :: "('z ktrap_scheme, u64) kernel" where
  "sys_shutdown = thenK (upd_hw (\<lambda>h. h\<lparr>powered_off := True\<rparr>)) (retK 0)"

subsection \<open>Dispatch\<close>

definition syscalls :: "nat option \<Rightarrow> (nat \<times> ('z ktrap_scheme, u64) kernel) list" where
  "syscalls junk = [
     (1, sys_brk), (2, sys_fork), (3, sys_wait), (4, sys_exit), (5, sys_sleep), (6, sys_kill),
     (7, sys_getpid), (8, sys_read), (9, sys_write), (10, sys_open), (11, sys_close),
     (12, sys_mknod), (13, sys_execve), (14, sys_dup), (15, sys_mkdir), (16, sys_fstat),
     (17, sys_chdir), (18, sys_getppid), (19, sys_link), (20, sys_unlink), (21, sys_pipe junk),
     (22, sys_sbrk), (23, sys_shutdown), (24, sys_lseek), (25, sys_dup2)]"

definition tf_a7 :: u64 where "tf_a7 = 168"

definition syscall :: "nat option \<Rightarrow> ('z ktrap_scheme, unit) kernel" where
  "syscall junk =
     bindK current_proc (\<lambda>p.
     bindK (get_tf p tf_a7) (\<lambda>w.
     case map_of (syscalls junk) (unat w) of
       Some f \<Rightarrow> bindK f (\<lambda>r. set_tf p tf_a0 r)
     | None \<Rightarrow>
         bindK (getK (\<lambda>s. p_pid (procs s p))) (\<lambda>pid. seqK [
           printk (chars ''pid %d: unknown system call %lu'' @ [10]) [P_int (of_int pid), P_int w],
           set_tf p tf_a0 (-1)])))"

subsection \<open>Traps\<close>

definition trap_init :: "('z ktrap_scheme, unit) kernel" where
  "trap_init = timer_init"

definition write_stvec :: "u64 \<Rightarrow> ('z ktrap_scheme, unit) kernel" where
  "write_stvec v = modK (\<lambda>s. s\<lparr>hw := (hw s)\<lparr>r_stvec := (r_stvec (hw s))(tp s := v)\<rparr>\<rparr>)"

definition write_sepc :: "u64 \<Rightarrow> ('z ktrap_scheme, unit) kernel" where
  "write_sepc v = modK (\<lambda>s. s\<lparr>hw := (hw s)\<lparr>r_sepc := (r_sepc (hw s))(tp s := v)\<rparr>\<rparr>)"

definition write_sstatus :: "u64 \<Rightarrow> ('z kbase_scheme, unit) kernel" where
  "write_sstatus v = modK (\<lambda>s. s\<lparr>sstatus := (sstatus s)(tp s := v)\<rparr>)"

definition trap_init_hart :: "('z ktrap_scheme, unit) kernel" where
  "trap_init_hart = seqK [
     bindK (getK (\<lambda>s. kernel_trap_vector (hw s))) write_stvec,
     timer_set_next,
     intr_on]"

definition external_intr :: "('z ktrap_scheme, unit) kernel" where
  "external_intr =
     bindK plic_claim (\<lambda>irq.
     if irq = 0 then retK () else seqK [
       if irq = UART0_IRQ then uart_intr
       else if irq = VIRTIO0_IRQ then virtio_disk_intr
       else printk (chars ''unexpected interrupt irq: %d'' @ [10]) [P_int (ucast irq)],
       plic_complete irq])"

definition IRQ_TIMER :: u64 where "IRQ_TIMER = 0x8000000000000005"
definition IRQ_EXTERNAL :: u64 where "IRQ_EXTERNAL = 0x8000000000000009"

definition kernel_trap_bad :: "u64 \<Rightarrow> ('z ktrap_scheme, unit) kernel" where
  "kernel_trap_bad scause =
     thenK (printk (chars ''scause=0x%lx'' @ [10]) [P_int scause]) (panicK ''kernel trap'')"

definition kernel_trap_handler :: "('z ktrap_scheme, unit) kernel" where
  "kernel_trap_handler =
     bindK (getK (\<lambda>s. (r_sepc (hw s) (tp s), sstatus s (tp s), r_scause (hw s) (tp s)))) (\<lambda>(sepc, status, scause).
     if status AND SSTATUS_SPP = 0 then panicK ''the kernel trap is not from S-mode'' else
     bindK intr_get (\<lambda>ie.
     if ie then panicK ''interrupts are enabled when processing interruptions'' else seqK [
       if scause = IRQ_TIMER then
         thenK timer_intr (bindK running_proc (\<lambda>rp. if rp \<noteq> None then yield else retK ()))
       else if scause = IRQ_EXTERNAL then external_intr
       else kernel_trap_bad scause,
       write_sepc sepc,
       write_sstatus status]))"

definition tf_kernel_satp :: u64 where "tf_kernel_satp = 0"
definition tf_kernel_sp :: u64 where "tf_kernel_sp = 8"
definition tf_kernel_trap :: u64 where "tf_kernel_trap = 16"
definition tf_kernel_hartid :: u64 where "tf_kernel_hartid = 24"

definition user_trap_return :: "('z ktrap_scheme, u64 \<times> u64) kernel" where
  "user_trap_return =
     bindK current_proc (\<lambda>p.
     thenK (seqK [
       intr_off,
       bindK (getK (\<lambda>s. TRAMPOLINE + (user_trap_vector (hw s) - trampoline s))) write_stvec,
       bindK (getK (\<lambda>s. satp s (tp s))) (set_tf p tf_kernel_satp),
       bindK (getK (\<lambda>s. p_kernel_stack (procs s p) + PAGE_SIZE)) (set_tf p tf_kernel_sp),
       bindK (getK (\<lambda>s. user_trap_handler_at (hw s))) (set_tf p tf_kernel_trap),
       bindK (getK (\<lambda>s. of_nat (tp s))) (set_tf p tf_kernel_hartid),
       bindK (getK (\<lambda>s. sstatus s (tp s))) (\<lambda>x. write_sstatus ((x AND NOT SSTATUS_SPP) OR SSTATUS_SPIE)),
       bindK (get_tf p tf_epc) write_sepc])
     (getK (\<lambda>s. (TRAMPOLINE + (return_to_user_space (hw s) - trampoline s),
                 MAKE_SATP (p_page_table (procs s p))))))"

definition user_trap :: "nat option \<Rightarrow> nat \<Rightarrow> u64 \<Rightarrow> ('z ktrap_scheme, unit) kernel" where
  "user_trap junk p scause =
     (if scause = IRQ_TIMER then thenK timer_intr yield
      else if scause = IRQ_EXTERNAL then external_intr
      else if scause = 8 then
        bindK (killed p) (\<lambda>k. seqK [
          whenK k (do_exit 1),
          bindK (get_tf p tf_epc) (\<lambda>e. set_tf p tf_epc (e + 4)),
          intr_on,
          syscall junk])
      else set_killed p)"

definition user_trap_handler :: "nat option \<Rightarrow> ('z ktrap_scheme, u64 \<times> u64) kernel" where
  "user_trap_handler junk =
     bindK (getK (\<lambda>s. (r_scause (hw s) (tp s), sstatus s (tp s)))) (\<lambda>(scause, status).
     bindK running_proc (\<lambda>rp.
     if status AND SSTATUS_SPP \<noteq> 0 then panicK ''the user trap is not from U-mode'' else
     thenK (bindK (getK (\<lambda>s. kernel_trap_vector (hw s))) write_stvec) (
     deref rp (\<lambda>p.
     thenK (bindK (getK (\<lambda>s. r_sepc (hw s) (tp s))) (set_tf p tf_epc)) (
     thenK (user_trap junk p scause) (
     bindK (killed p) (\<lambda>k.
     thenK (whenK k (do_exit 1)) user_trap_return)))))))"

definition fork_return :: "('z ktrap_scheme, u64 \<times> u64) kernel" where
  "fork_return =
     bindK current_proc (\<lambda>p.
     thenK (spin_lock_release (L_proc p)) (
     bindK (getK (\<lambda>s. first_return (pg s))) (\<lambda>first.
     thenK (whenK first (thenK (upd_pg (\<lambda>g. g\<lparr>first_return := False\<rparr>)) (fs_init ROOT_DEV)))
       user_trap_return)))"

subsection \<open>Boot\<close>

definition SIE_ALL :: u64 where "SIE_ALL = 0x222"

text \<open>
  \<^verbatim>\<open>main\<close> on the processor that runs it first, up to its scheduler loop, and on the others, which
  wait for \<^verbatim>\<open>started\<close>.
\<close>

definition main :: "('z ktrap_scheme, unit) kernel" where
  "main =
     bindK (getK (\<lambda>s. (boot_first (hw s), boot_started (hw s), tp s))) (\<lambda>(first, started, hart). seqK [
       if first then seqK [
         upd_hw (\<lambda>h. h\<lparr>boot_first := False\<rparr>),
         console_init,
         printk_init,
         printk (chars ''kernel is booting'' @ [10]) [],
         printk (chars ''hart %d starting'' @ [10]) [P_int (of_nat hart)],
         pm_init,
         kvm_init,
         kvm_init_hart,
         proc_init,
         trap_init,
         trap_init_hart,
         plic_init,
         plic_init_hart,
         binit,
         iinit,
         file_init,
         virtio_disk_init,
         user_init,
         upd_hw (\<lambda>h. h\<lparr>boot_started := True\<rparr>)]
       else if \<not> started then (\<lambda>s. Spin)
       else seqK [
         printk (chars ''hart %d starting'' @ [10]) [P_int (of_nat hart)],
         kvm_init_hart,
         trap_init_hart,
         plic_init_hart],
       scheduler])"

definition start :: "nat \<Rightarrow> ('z ktrap_scheme, unit) kernel" where
  "start hartid = seqK [
     modK (\<lambda>s. s\<lparr>tp := hartid\<rparr>),
     modK (\<lambda>s. s\<lparr>satp := (satp s)(tp s := 0)\<rparr>),
     modK (\<lambda>s. s\<lparr>hw := (hw s)\<lparr>r_sie := (r_sie (hw s))(tp s := r_sie (hw s) (tp s) OR SIE_ALL)\<rparr>\<rparr>),
     main]"

end
