(* ===== verification/Ulib.thy ===== *)
theory Ulib
  imports Proc
begin

text \<open>
  The user library, \<^verbatim>\<open>user/ulib.c\<close>: formatted output, strings and the heap.

  A string argument that a function only reads is the list of its bytes before the terminator, and a
  pointer into it is an index (\<open>None\<close> for the null pointer). A buffer that a function writes is a
  \<open>cptr\<close>. \<^verbatim>\<open>strlen\<close>, \<^verbatim>\<open>strncmp\<close>, \<^verbatim>\<open>strrchr\<close>, \<^verbatim>\<open>memset\<close>, \<^verbatim>\<open>memmove\<close> and \<^verbatim>\<open>memcpy\<close> are the functions of
  \<^verbatim>\<open>kernel/lib/string.c\<close> again and keep its definitions. Formatted output is the list of bytes
  written.

  The heap is the linked list of blocks with the program break, which \<^verbatim>\<open>sbrk\<close> moves up to \<open>h_limit\<close>;
  beyond it the system call fails. A request is below 2^31 bytes, since the system call takes an
  \<^verbatim>\<open>int\<close>.
\<close>

section \<open>Definitions\<close>

subsection \<open>Formatted output\<close>

definition dprint_str :: "u8 list option \<Rightarrow> u8 list" where
  "dprint_str str = (case str of None \<Rightarrow> chars ''(null)'' | Some cs \<Rightarrow> cs)"

definition dprint_ptr :: "u64 \<Rightarrow> u8 list option" where
  "dprint_ptr x = map_option (\<lambda>ds. chars ''0x'' @ ds) (digits_out 16 (unat x))"

definition dprint_int :: "u64 \<Rightarrow> nat \<Rightarrow> bool \<Rightarrow> u8 list option" where
  "dprint_int x base sg =
     (let is_negative = (sg \<and> sint x < 0);
          x = (if is_negative then - x else x) in
      map_option (\<lambda>ds. (if is_negative then chars ''-'' else []) @ ds) (digits_out base (unat x)))"

text \<open>One conversion: what it writes and the arguments it leaves, \<open>None\<close> when the argument is missing.\<close>

definition dconv :: "u8 \<Rightarrow> nat \<Rightarrow> parg list \<Rightarrow> (u8 list \<times> parg list) option" where
  "dconv c l args =
     (if c = 37 then Some ([37], args) else
      case args of
        P_int x # rest \<Rightarrow>
          if c = 115 then None
          else if c = 99 then Some ([ucast x], rest)
          else if c = 112 then map_option (\<lambda>ds. (ds, rest)) (dprint_ptr x)
          else map_option (\<lambda>ds. (ds, rest)) (dprint_int (int_arg c l x) (if c = 120 then 16 else 10) (c = 100))
      | P_str str # rest \<Rightarrow> if c = 115 then Some (dprint_str str, rest) else None
      | [] \<Rightarrow> None)"

text \<open>The loop over the format: what it writes.\<close>

function vdprintf_out :: "u8 list \<Rightarrow> parg list \<Rightarrow> u8 list option" where
  "vdprintf_out [] args = Some []"
| "vdprintf_out (c # cs) args =
     (if c \<noteq> 37 then map_option ((#) c) (vdprintf_out cs args) else
      case fmt_spec 0 cs of
        None \<Rightarrow> map_option ((#) 37) (vdprintf_out cs args)
      | Some (d, l, rest) \<Rightarrow>
          (case dconv d l args of
             None \<Rightarrow> None
           | Some (ds, args) \<Rightarrow> map_option ((@) ds) (vdprintf_out rest args)))"
  by pat_completeness auto
termination
  by (relation "measure (\<lambda>(fmt, _). length fmt)") (auto dest: fmt_spec_length)

text \<open>
  The index that the loop ends with is that of the terminator of the format, and is returned; what is
  written goes to the descriptor \<open>fd\<close>.
\<close>

definition vdprintf :: "int \<Rightarrow> u8 list \<Rightarrow> parg list \<Rightarrow> (int \<times> int \<times> u8 list) option" where
  "vdprintf fd fmt args = map_option (\<lambda>out. (int (length fmt), fd, out)) (vdprintf_out fmt args)"

definition printf :: "u8 list \<Rightarrow> parg list \<Rightarrow> (int \<times> int \<times> u8 list) option" where
  "printf fmt args = vdprintf 1 fmt args"

definition dprintf :: "int \<Rightarrow> u8 list \<Rightarrow> parg list \<Rightarrow> (int \<times> int \<times> u8 list) option" where
  "dprintf fd fmt args = vdprintf fd fmt args"

subsection \<open>Strings\<close>

definition strcpy :: "cptr \<Rightarrow> u8 list \<Rightarrow> cptr" where
  "strcpy dst src = (put_bytes 0 src dst)(length src := 0)"

definition u_strncpy :: "cptr \<Rightarrow> u8 list \<Rightarrow> nat \<Rightarrow> cptr" where
  "u_strncpy dst src n =
     (let k = min n (length src); dst = put_bytes 0 (take k src) dst in
      if n - k > 0 then dst(k := 0) else dst)"

fun strcmp :: "u8 list \<Rightarrow> u8 list \<Rightarrow> int" where
  "strcmp [] [] = 0"
| "strcmp [] (d # ds) = - uint d"
| "strcmp (c # cs) [] = uint c"
| "strcmp (c # cs) (d # ds) = (if c = d then strcmp cs ds else uint c - uint d)"

fun strspn :: "u8 list \<Rightarrow> u8 list \<Rightarrow> nat" where
  "strspn [] accept = 0"
| "strspn (c # cs) accept = (if c \<in> set accept then 1 + strspn cs accept else 0)"

fun strcspn :: "u8 list \<Rightarrow> u8 list \<Rightarrow> nat" where
  "strcspn [] reject = 0"
| "strcspn (c # cs) reject = (if c \<in> set reject then 0 else 1 + strcspn cs reject)"

fun strchr :: "u8 list \<Rightarrow> u8 \<Rightarrow> nat option" where
  "strchr [] c = None"
| "strchr (d # ds) c = (if d = c then Some 0 else map_option Suc (strchr ds c))"

fun prefix_eq :: "u8 list \<Rightarrow> u8 list \<Rightarrow> bool" where
  "prefix_eq h [] = True"
| "prefix_eq [] (n # ns) = False"
| "prefix_eq (h # hs) (n # ns) = (h = n \<and> prefix_eq hs ns)"

fun strstr_from :: "u8 list \<Rightarrow> u8 list \<Rightarrow> nat option" where
  "strstr_from [] needle = None"
| "strstr_from (h # hs) needle =
     (if prefix_eq (h # hs) needle then Some 0 else map_option Suc (strstr_from hs needle))"

definition strstr :: "u8 list \<Rightarrow> u8 list \<Rightarrow> nat option" where
  "strstr haystack needle = (if needle = [] then Some 0 else strstr_from haystack needle)"

text \<open>
  \<^verbatim>\<open>strtok\<close> with the static pointer \<open>olds\<close>, which is the part of the buffer still to be cut; a
  token is the string that starts at the returned pointer, cut off by the terminator that
  \<^verbatim>\<open>strtok\<close> stores.
\<close>

definition strtok :: "u8 list option \<Rightarrow> u8 list \<Rightarrow> u8 list \<Rightarrow> u8 list option \<times> u8 list" where
  "strtok arg delim olds =
     (let s = (case arg of None \<Rightarrow> olds | Some s \<Rightarrow> s) in
      if s = [] then (None, s) else
      let s = drop (strspn s delim) s in
      if s = [] then (None, s) else
      let e = strcspn s delim in
      if e = length s then (Some s, []) else (Some (take e s), drop (e + 1) s))"

definition is_digit :: "u8 \<Rightarrow> bool" where
  "is_digit c \<longleftrightarrow> 48 \<le> c \<and> c \<le> 57"

fun atoi_from :: "u32 \<Rightarrow> u8 list \<Rightarrow> u32" where
  "atoi_from n [] = n"
| "atoi_from n (c # cs) = (if is_digit c then atoi_from (n * 10 + (ucast c - 48)) cs else n)"

definition atoi :: "u8 list \<Rightarrow> int" where
  "atoi nptr = sint (atoi_from 0 nptr)"

subsection \<open>The heap\<close>

record ublock =
  ub_at :: nat
  ub_size :: nat
  ub_free :: bool

record uheap =
  h_blocks :: "ublock list"
  h_brk :: nat
  h_limit :: nat

definition UBLOCK :: nat where "UBLOCK = 24"

definition sbrk :: "nat \<Rightarrow> uheap \<Rightarrow> nat option \<times> uheap" where
  "sbrk n h = (if h_brk h + n \<le> h_limit h then (Some (h_brk h), h\<lparr>h_brk := h_brk h + n\<rparr>) else (None, h))"

fun reuse :: "nat \<Rightarrow> ublock list \<Rightarrow> (nat \<times> ublock list) option" where
  "reuse sz [] = None"
| "reuse sz (b # bs) =
     (if ub_free b \<and> ub_size b \<ge> sz then Some (ub_at b + UBLOCK, b\<lparr>ub_free := False\<rparr> # bs)
      else map_option (\<lambda>(p, cs). (p, b # cs)) (reuse sz bs))"

definition malloc :: "nat \<Rightarrow> uheap \<Rightarrow> nat option \<times> uheap" where
  "malloc sz h =
     (if sz = 0 then (None, h) else
      case reuse sz (h_blocks h) of
        Some (p, bs) \<Rightarrow> (Some p, h\<lparr>h_blocks := bs\<rparr>)
      | None \<Rightarrow>
          (case sbrk (UBLOCK + sz) h of
             (None, h) \<Rightarrow> (None, h)
           | (Some a, h) \<Rightarrow>
               (Some (a + UBLOCK),
                h\<lparr>h_blocks := h_blocks h @ [\<lparr>ub_at = a, ub_size = sz, ub_free = False\<rparr>]\<rparr>)))"

fun coalesce :: "ublock list \<Rightarrow> ublock list" where
  "coalesce (a # b # bs) =
     (if ub_free a \<and> ub_free b then a\<lparr>ub_size := ub_size a + UBLOCK\<rparr> # coalesce bs
      else a # coalesce (b # bs))"
| "coalesce bs = bs"

text \<open>\<^verbatim>\<open>free\<close>; \<open>None\<close> stands for a pointer that is not one of a block in the list, which C leaves undefined.\<close>

definition free :: "nat option \<Rightarrow> uheap \<Rightarrow> uheap option" where
  "free ptr h =
     (case ptr of None \<Rightarrow> Some h
      | Some p \<Rightarrow>
          if \<exists>b\<in>set (h_blocks h). ub_at b + UBLOCK = p
          then Some (h\<lparr>h_blocks := coalesce (map (\<lambda>b. if ub_at b + UBLOCK = p then b\<lparr>ub_free := True\<rparr> else b) (h_blocks h))\<rparr>)
          else None)"

section \<open>Strings\<close>

text \<open>\<^verbatim>\<open>strcmp\<close> orders strings as lists, \<^verbatim>\<open>strstr\<close> finds the first occurrence.\<close>

lemma strcmp_zero: "strcmp a b = 0 \<longleftrightarrow> a = b" if "0 \<notin> set a" "0 \<notin> set b"
  using that by (induction a b rule: strcmp.induct) (auto simp: unsigned_eq_0_iff dest: unsigned_word_eqI)

lemma prefix_eq_iff: "prefix_eq h n \<longleftrightarrow> (\<exists>t. h = n @ t)"
  by (induction h n rule: prefix_eq.induct) auto

lemma strstr_from_Some:
  "strstr_from h n = Some k \<Longrightarrow> (\<exists>t. drop k h = n @ t) \<and> (\<forall>j<k. \<forall>t. drop j h \<noteq> n @ t)"
proof (induction h n arbitrary: k rule: strstr_from.induct)
  case (2 h hs n)
  show ?case
  proof (cases "prefix_eq (h # hs) n")
    case True
    then show ?thesis using 2 by (simp add: prefix_eq_iff)
  next
    case False
    then obtain i where "strstr_from hs n = Some i" "k = Suc i" using 2 by auto
    then show ?thesis using "2.IH" [OF False] False by (auto simp: prefix_eq_iff less_Suc_eq_0_disj)
  qed
qed simp

lemma strspn_cspn_split:
  "take (strspn s d) s = takeWhile (\<lambda>c. c \<in> set d) s" "take (strcspn s d) s = takeWhile (\<lambda>c. c \<notin> set d) s"
  by (induction s) auto

section \<open>The heap never hands out a byte twice\<close>

fun blocks_ok :: "nat \<Rightarrow> ublock list \<Rightarrow> nat \<Rightarrow> bool" where
  "blocks_ok lo [] hi \<longleftrightarrow> lo \<le> hi"
| "blocks_ok lo (b # bs) hi \<longleftrightarrow> lo \<le> ub_at b \<and> blocks_ok (ub_at b + UBLOCK + ub_size b) bs hi"

definition heap_ok :: "uheap \<Rightarrow> bool" where
  "heap_ok h \<longleftrightarrow> blocks_ok 0 (h_blocks h) (h_brk h)"

text \<open>The bytes that belong to the program: those of the blocks in use.\<close>

definition bytes_of :: "ublock \<Rightarrow> nat set" where
  "bytes_of b = {ub_at b + UBLOCK..<ub_at b + UBLOCK + ub_size b}"

fun heap_used :: "ublock list \<Rightarrow> nat set" where
  "heap_used [] = {}"
| "heap_used (b # bs) = (if ub_free b then {} else bytes_of b) \<union> heap_used bs"

definition in_use :: "uheap \<Rightarrow> nat set" where
  "in_use h = heap_used (h_blocks h)"

text \<open>A program that calls \<^verbatim>\<open>malloc\<close> at will and \<^verbatim>\<open>free\<close> on what it has in use.\<close>

inductive heap_run :: "uheap \<Rightarrow> bool" where
  heap_start: "heap_run \<lparr>h_blocks = [], h_brk = b, h_limit = l\<rparr>"
| heap_malloc: "heap_run h \<Longrightarrow> heap_run (snd (malloc n h))"
| heap_free: "heap_run h \<Longrightarrow> b \<in> set (h_blocks h) \<Longrightarrow> \<not> ub_free b \<Longrightarrow>
    free (Some (ub_at b + UBLOCK)) h = Some h' \<Longrightarrow> heap_run h'"

lemma blocks_ok_le: "blocks_ok lo bs hi \<Longrightarrow> lo \<le> hi"
proof (induction bs arbitrary: lo)
  case (Cons b bs)
  have "ub_at b + UBLOCK + ub_size b \<le> hi" using Cons.prems by (intro Cons.IH) simp
  then show ?case using Cons.prems by simp
qed simp

lemma blocks_ok_mono: "blocks_ok lo bs hi \<Longrightarrow> lo' \<le> lo \<Longrightarrow> blocks_ok lo' bs hi"
  by (cases bs) auto

lemma blocks_ok_at: "blocks_ok lo bs hi \<Longrightarrow> b \<in> set bs \<Longrightarrow> lo \<le> ub_at b"
proof (induction bs arbitrary: lo)
  case (Cons c bs)
  show ?case
  proof (cases "b = c")
    case False
    then have "ub_at c + UBLOCK + ub_size c \<le> ub_at b" using Cons.prems by (intro Cons.IH) simp_all
    then show ?thesis using Cons.prems by simp
  qed (use Cons.prems in simp)
qed simp

lemma blocks_ok_append:
  "blocks_ok lo (bs @ [b]) hi \<longleftrightarrow> blocks_ok lo bs (ub_at b) \<and> ub_at b + UBLOCK + ub_size b \<le> hi"
  by (induction bs arbitrary: lo) simp_all

lemma blocks_ok_map:
  "(\<And>b. ub_at (f b) = ub_at b \<and> ub_size (f b) = ub_size b) \<Longrightarrow> blocks_ok lo (map f bs) hi = blocks_ok lo bs hi"
  by (induction bs arbitrary: lo) simp_all

lemma blocks_ok_coalesce: "blocks_ok lo bs hi \<Longrightarrow> blocks_ok lo (coalesce bs) hi"
proof (induction bs arbitrary: lo rule: coalesce.induct)
  case (1 a b bs)
  show ?case
  proof (cases "ub_free a \<and> ub_free b")
    case True
    have "blocks_ok (ub_at a + UBLOCK + (ub_size a + UBLOCK)) bs hi"
      by (rule blocks_ok_mono [of "ub_at b + UBLOCK + ub_size b"]) (use "1.prems" in simp_all)
    then show ?thesis using True "1.prems" "1.IH"(1) by simp
  next
    case False
    then have "blocks_ok (ub_at a + UBLOCK + ub_size a) (coalesce (b # bs)) hi"
      using "1.prems" by (intro "1.IH"(2)) simp_all
    then show ?thesis using False "1.prems" by (simp only: coalesce.simps if_False blocks_ok.simps)
  qed
qed simp_all

lemma used_coalesce: "heap_used (coalesce bs) = heap_used bs"
  by (induction bs rule: coalesce.induct) auto

lemma used_range: "blocks_ok lo bs hi \<Longrightarrow> heap_used bs \<subseteq> {lo + UBLOCK..<hi}"
proof (induction bs arbitrary: lo)
  case (Cons b bs)
  have "heap_used bs \<subseteq> {ub_at b + UBLOCK + ub_size b + UBLOCK..<hi}" using Cons.prems by (intro Cons.IH) simp
  moreover have "ub_at b + UBLOCK + ub_size b \<le> hi" using Cons.prems by (intro blocks_ok_le [of _ bs]) simp
  then have "bytes_of b \<subseteq> {lo + UBLOCK..<hi}" using Cons.prems by (auto simp: bytes_of_def)
  ultimately show ?case using Cons.prems by auto
qed simp

lemma used_append: "heap_used (bs @ cs) = heap_used bs \<union> heap_used cs"
  by (induction bs) auto

lemma reuse_ok:
  assumes "reuse n bs = Some (p, cs)" "blocks_ok lo bs hi"
  shows "\<exists>m\<ge>n. heap_used cs = heap_used bs \<union> {p..<p + m} \<and> {p..<p + m} \<inter> heap_used bs = {} \<and> blocks_ok lo cs hi"
  using assms
proof (induction bs arbitrary: lo cs)
  case (Cons b bs)
  let ?e = "ub_at b + UBLOCK + ub_size b"
  have b: "lo \<le> ub_at b" "blocks_ok ?e bs hi" using Cons.prems(2) by simp_all
  note u = used_range [OF b(2)]
  show ?case
  proof (cases "ub_free b \<and> ub_size b \<ge> n")
    case True
    then have "p = ub_at b + UBLOCK" "cs = b\<lparr>ub_free := False\<rparr> # bs" using Cons.prems(1) by auto
    then show ?thesis using True b u by (intro exI [of _ "ub_size b"]) (auto simp: bytes_of_def)
  next
    case False
    then obtain ds where ds: "reuse n bs = Some (p, ds)" "cs = b # ds" using Cons.prems(1) by auto
    obtain m where m: "m \<ge> n" "heap_used ds = heap_used bs \<union> {p..<p + m}" "{p..<p + m} \<inter> heap_used bs = {}" "blocks_ok ?e ds hi"
      using Cons.IH [OF ds(1) b(2)] by blast
    have "{p..<p + m} \<inter> bytes_of b = {}" using used_range [OF m(4)] m(2) by (fastforce simp: bytes_of_def)
    then show ?thesis using m b(1) ds(2) by (intro exI [of _ m]) auto
  qed
qed simp

lemma malloc_ok:
  assumes "heap_ok h" "malloc n h = (Some p, h')"
  shows "\<exists>m\<ge>n. in_use h' = in_use h \<union> {p..<p + m} \<and> {p..<p + m} \<inter> in_use h = {} \<and> heap_ok h'"
proof (cases "reuse n (h_blocks h)")
  case None
  then have p: "p = h_brk h + UBLOCK" "h_brk h' = h_brk h + (UBLOCK + n)"
    "h_blocks h' = h_blocks h @ [\<lparr>ub_at = h_brk h, ub_size = n, ub_free = False\<rparr>]"
    using assms(2) by (auto simp: malloc_def sbrk_def split: if_splits)
  have "heap_used (h_blocks h) \<subseteq> {..<h_brk h}" using used_range assms(1) by (fastforce simp: heap_ok_def)
  then show ?thesis using assms(1) p
    by (intro exI [of _ n]) (auto simp: heap_ok_def in_use_def blocks_ok_append used_append bytes_of_def)
next
  case (Some r)
  then show ?thesis using assms reuse_ok [of n "h_blocks h" p]
    by (fastforce simp: malloc_def heap_ok_def in_use_def split: if_splits prod.splits)
qed

lemma malloc_heap_ok: "heap_ok h \<Longrightarrow> heap_ok (snd (malloc n h))"
proof (cases "malloc n h")
  case (Pair r h')
  assume h: "heap_ok h"
  show ?thesis
  proof (cases r)
    case None
    then have "h' = h" using Pair by (auto simp: malloc_def sbrk_def split: if_splits option.splits)
    then show ?thesis using Pair h by simp
  qed (use Pair h malloc_ok in fastforce)
qed

definition mark :: "nat \<Rightarrow> ublock list \<Rightarrow> ublock list" where
  "mark p bs = map (\<lambda>b. if ub_at b + UBLOCK = p then b\<lparr>ub_free := True\<rparr> else b) bs"

lemma used_mark:
  assumes "blocks_ok lo bs hi" "b \<in> set bs" "\<not> ub_free b"
  shows "heap_used (mark (ub_at b + UBLOCK) bs) = heap_used bs - bytes_of b"
  using assms(1,2)
proof (induction bs arbitrary: lo)
  case (Cons c bs)
  have c: "blocks_ok (ub_at c + UBLOCK + ub_size c) bs hi" using Cons.prems(1) by simp
  note u = used_range [OF c] and le = blocks_ok_at [OF c]
  show ?case
  proof (cases "b \<in> set bs")
    case True
    then have "bytes_of c \<inter> bytes_of b = {}" "ub_at c \<noteq> ub_at b" using le [OF True] by (auto simp: bytes_of_def UBLOCK_def)
    then show ?thesis using Cons.IH [OF c True] by (auto simp: mark_def)
  next
    case False
    then have "b = c" using Cons.prems(2) by simp
    moreover have "mark (ub_at c + UBLOCK) bs = bs" using le by (auto simp: mark_def UBLOCK_def intro!: map_idI dest!: le)
    moreover have "bytes_of c \<inter> heap_used bs = {}" using u by (fastforce simp: bytes_of_def)
    ultimately show ?thesis using assms(3) by (auto simp: mark_def)
  qed
qed simp

lemma free_ok:
  assumes "heap_ok h" "b \<in> set (h_blocks h)" "\<not> ub_free b"
  shows "\<exists>h'. free (Some (ub_at b + UBLOCK)) h = Some h' \<and> in_use h' = in_use h - bytes_of b \<and> heap_ok h'"
proof -
  let ?bs = "mark (ub_at b + UBLOCK) (h_blocks h)"
  have "free (Some (ub_at b + UBLOCK)) h = Some (h\<lparr>h_blocks := coalesce ?bs\<rparr>)"
    using assms(2) by (auto simp: free_def mark_def)
  moreover have "blocks_ok 0 ?bs (h_brk h)" using assms(1) by (simp add: heap_ok_def mark_def blocks_ok_map)
  ultimately show ?thesis using assms
    by (simp add: in_use_def heap_ok_def used_coalesce used_mark blocks_ok_coalesce)
qed

lemma heap_run_ok: "heap_run h \<Longrightarrow> heap_ok h"
proof (induction rule: heap_run.induct)
  case (heap_free h b h')
  then show ?case using free_ok by fastforce
qed (simp add: heap_ok_def, rule malloc_heap_ok)

section \<open>Properties\<close>



end
