(* ===== verification/Sh.thy ===== *)
theory Sh
  imports Ulib Sysfile
begin

text \<open>
  The shell, \<^verbatim>\<open>user/sh.c\<close>: reading a line, cutting it into tokens and parsing these into a
  command.

  A line is the list of the bytes before its terminator and a pointer into it an index. The parser
  stores terminators behind the tokens it uses; they are a list of positions, and the string at a
  pointer ends at the first of them (\<open>str_at\<close>). \<^verbatim>\<open>panic\<close> ends the shell (\<open>Die\<close>); an eleventh
  argument is stored behind the array \<^verbatim>\<open>argv\<close> (\<open>Smash\<close>). The list of tokens is never empty: it
  ends in \<open>TOK_EOF\<close>. The tokens and commands are allocated by \<open>malloc\<close>, which is taken to
  succeed.
\<close>

section \<open>Definitions\<close>

subsection \<open>Tokens\<close>

definition MAX_INPUT :: nat where "MAX_INPUT = 128"
definition SH_MAX_ARGS :: nat where "SH_MAX_ARGS = 10"

datatype tok_type = TOK_ILLEGAL | TOK_EOF | TOK_ARG | TOK_PIPE | TOK_REDIR_IN | TOK_REDIR_OUT
  | TOK_REDIR_OUT_A | TOK_REDIR_ERR | TOK_REDIR_ERR_A

record token =
  t_type :: tok_type
  t_len :: nat
  t_lexeme :: nat

definition token_new :: "tok_type \<Rightarrow> nat \<Rightarrow> nat \<Rightarrow> token" where
  "token_new ty lexeme len = \<lparr>t_type = ty, t_len = len, t_lexeme = lexeme\<rparr>"

definition WHITESPACE :: "u8 list" where
  "WHITESPACE = [32, 9, 10, 13, 11]"

definition arg_char :: "u8 \<Rightarrow> bool" where
  "arg_char c \<longleftrightarrow> c \<notin> set WHITESPACE \<and> c \<notin> {50, 124, 60, 62}"

text \<open>\<open>get_token\<close> gives the token and the position behind it.\<close>

definition get_token :: "u8 list \<Rightarrow> nat \<Rightarrow> token \<times> nat" where
  "get_token input i =
     (let i = i + length (takeWhile (\<lambda>c. c \<in> set WHITESPACE) (drop i input)) in
      case drop i input of
        [] \<Rightarrow> (token_new TOK_EOF i 0, i)
      | c # cs \<Rightarrow>
          if c = 124 then (token_new TOK_PIPE i 1, i + 1)
          else if c = 62 then
            if take 1 cs = [62] then (token_new TOK_REDIR_OUT_A i 2, i + 2)
            else (token_new TOK_REDIR_OUT i 1, i + 1)
          else if c = 60 then (token_new TOK_REDIR_IN i 1, i + 1)
          else if c = 50 \<and> take 1 cs = [62] then
            if take 2 cs = [62, 62] then (token_new TOK_REDIR_ERR_A i 3, i + 3)
            else (token_new TOK_REDIR_ERR i 2, i + 2)
          else
            let len = 1 + length (takeWhile arg_char cs) in (token_new TOK_ARG i len, i + len))"

lemma get_token_progress:
  assumes "t_type (fst (get_token input i)) \<noteq> TOK_EOF"
  shows "i < length input \<and> i < snd (get_token input i)"
proof -
  define k where "k = i + length (takeWhile (\<lambda>c. c \<in> set WHITESPACE) (drop i input))"
  have "drop k input \<noteq> []" using assms by (auto simp: get_token_def k_def token_new_def Let_def)
  then obtain c cs where c: "drop k input = c # cs" by (cases "drop k input") auto
  then have "k < length input" by (metis drop_all linorder_not_less list.discI)
  moreover have "i \<le> k" by (simp add: k_def)
  moreover have "k < snd (get_token input i)"
    using c by (simp add: get_token_def Let_def flip: k_def)
  ultimately show ?thesis by linarith
qed

function parse_line :: "u8 list \<Rightarrow> nat \<Rightarrow> token list" where
  "parse_line input i =
     (let (tok, j) = get_token input i in
      if t_type tok = TOK_EOF then [tok] else tok # parse_line input j)"
  by pat_completeness auto
termination
proof (relation "measure (\<lambda>(input, i). length input - i)")
  fix input i x tok j
  assume "x = get_token input i" "(tok, j) = x" "t_type tok \<noteq> TOK_EOF"
  then show "((input, j), input, i) \<in> measure (\<lambda>(input, i). length input - i)"
    using get_token_progress [of input i] by (metis diff_less_mono2 fst_conv in_measure case_prod_conv snd_conv)
qed simp

declare parse_line.simps [simp del]

subsection \<open>Commands\<close>

text \<open>\<open>CMD_NONE\<close> is the null pointer, which the parser returns for a line without tokens.\<close>

datatype command = CMD_NONE
  | CMD_EXEC "nat list"
  | CMD_PIPE command command
  | CMD_REDIR command nat u32 nat

datatype 'a sh = Done 'a | Die string | Smash

fun bind_sh :: "'a sh \<Rightarrow> ('a \<Rightarrow> 'b sh) \<Rightarrow> 'b sh" where
  "bind_sh (Done x) f = f x"
| "bind_sh (Die e) f = Die e"
| "bind_sh Smash f = Smash"

definition parse_exec :: "token list \<Rightarrow> (command \<times> nat list) sh" where
  "parse_exec toks =
     (let as = takeWhile (\<lambda>t. t_type t \<noteq> TOK_EOF) toks in
      if length as > SH_MAX_ARGS then Smash
      else Done (CMD_EXEC (map t_lexeme as), map (\<lambda>t. t_lexeme t + t_len t) as))"

text \<open>The mode and the descriptor of a redirection.\<close>

fun redir_mode :: "tok_type \<Rightarrow> (u32 \<times> nat) option" where
  "redir_mode TOK_REDIR_IN = Some (0, 0)"
| "redir_mode TOK_REDIR_OUT = Some (O_WRONLY OR O_CREAT OR O_TRUNC, 1)"
| "redir_mode TOK_REDIR_OUT_A = Some (O_WRONLY OR O_CREAT OR O_APPEND, 1)"
| "redir_mode TOK_REDIR_ERR = Some (O_WRONLY OR O_CREAT OR O_TRUNC, 2)"
| "redir_mode TOK_REDIR_ERR_A = Some (O_WRONLY OR O_CREAT OR O_APPEND, 2)"
| "redir_mode _ = None"

text \<open>
  \<open>toks\<close> are the tokens before the operator, whose own type is \<open>TOK_EOF\<close> when \<^verbatim>\<open>parse_exec\<close> reads
  them, and \<open>file\<close> the tokens behind it.
\<close>

definition parse_redir :: "token list \<Rightarrow> token \<Rightarrow> token list \<Rightarrow> (command \<times> nat list) sh" where
  "parse_redir toks op file =
     (if file = [] \<or> t_type (hd file) \<noteq> TOK_ARG then Die ''missing arguments for redirect'' else
      case redir_mode (t_type op) of
        None \<Rightarrow> Die ''unsupported redirect operation''
      | Some (omode, fd) \<Rightarrow>
          let op = op\<lparr>t_type := TOK_EOF\<rparr> in
          bind_sh (parse_exec (toks @ op # file)) (\<lambda>(cmd, ns).
          Done (CMD_REDIR cmd (t_lexeme (hd file)) omode fd, (t_lexeme (hd file) + t_len (hd file)) # ns)))"

fun is_op :: "tok_type \<Rightarrow> bool" where
  "is_op TOK_ARG = False"
| "is_op TOK_EOF = False"
| "is_op _ = True"

text \<open>\<^verbatim>\<open>parse_pipe\<close> is the branch for \<open>TOK_PIPE\<close>; the two calls in it write at different places.\<close>

function parse_cmd :: "token list \<Rightarrow> (command \<times> nat list) sh" where
  "parse_cmd toks =
     (if toks = [] \<or> t_type (hd toks) = TOK_EOF then Done (CMD_NONE, []) else
      case dropWhile (\<lambda>t. \<not> is_op (t_type t)) toks of
        [] \<Rightarrow> parse_exec toks
      | tok # rest \<Rightarrow>
          let before = takeWhile (\<lambda>t. \<not> is_op (t_type t)) toks in
          if t_type tok = TOK_PIPE then
            let left = before @ tok\<lparr>t_type := TOK_EOF\<rparr> # rest in
            if t_type (hd left) \<noteq> TOK_ARG then Die ''illegal command for pipe''
            else if rest = [] \<or> t_type (hd rest) = TOK_EOF then Die ''missing arguments for pipe''
            else
              bind_sh (parse_exec left) (\<lambda>(l, ns).
              bind_sh (parse_cmd rest) (\<lambda>(r, ms).
              Done (CMD_PIPE l r, ns @ ms)))
          else if t_type tok = TOK_ILLEGAL then Die ''illegal token''
          else parse_redir before tok rest)"
  by pat_completeness auto
termination
proof (relation "measure length")
  fix toks :: "token list" and tok rest
  assume "dropWhile (\<lambda>t. \<not> is_op (t_type t)) toks = tok # rest"
  then have "length (tok # rest) \<le> length toks" by (metis length_dropWhile_le)
  then show "(rest, toks) \<in> measure length" by simp
qed simp

declare parse_cmd.simps [simp del]

subsection \<open>The main loop\<close>

text \<open>
  \<^verbatim>\<open>safe_gets\<close> on the bytes that the terminal will deliver: the line and what is left. At
  the end of the input \<^verbatim>\<open>read\<close> returns no byte.
\<close>

fun safe_gets :: "nat \<Rightarrow> u8 list \<Rightarrow> u8 list \<times> u8 list" where
  "safe_gets max_len [] = ([], [])"
| "safe_gets max_len (c # cs) =
     (if max_len \<le> 1 then ([], c # cs)
      else if c = 10 \<or> c = 13 then ([c], cs)
      else let (l, rest) = safe_gets (max_len - 1) cs in (c # l, rest))"

text \<open>What one turn of the main loop does with the line it has read.\<close>

datatype turn = T_end | T_again | T_chdir "u8 list" | T_exit | T_run "u8 list" "(command \<times> nat list) sh"

definition sh_turn :: "u8 list \<Rightarrow> turn" where
  "sh_turn line =
     (let buf = takeWhile (\<lambda>c. c \<noteq> 0) line in
      if buf = [] then T_end
      else if hd buf = 10 \<or> hd buf = 13 then T_again
      else
        let buf = take (strcspn buf [10, 13]) buf in
        if take 3 buf = chars ''cd '' then T_chdir (drop 3 buf)
        else if take 4 buf = chars ''exit'' then T_exit
        else T_run buf (parse_cmd (parse_line buf 0)))"

section \<open>Printing\<close>

text \<open>
  The command lines that the shell is meant for: words, a pipe between words and a command, and a
  redirection at the end. \<open>lexemes\<close> prints one, as the tokens with their text, and \<open>sh_line\<close> puts
  the white space \<open>g\<close> behind every one of them.
\<close>

datatype scmd = S_exec "u8 list list" | S_pipe "u8 list list" scmd | S_redir "u8 list list" tok_type "u8 list"

fun op_text :: "tok_type \<Rightarrow> u8 list" where
  "op_text TOK_PIPE = [124]"
| "op_text TOK_REDIR_IN = [60]"
| "op_text TOK_REDIR_OUT = [62]"
| "op_text TOK_REDIR_OUT_A = [62, 62]"
| "op_text TOK_REDIR_ERR = [50, 62]"
| "op_text TOK_REDIR_ERR_A = [50, 62, 62]"
| "op_text _ = []"

fun lexemes :: "scmd \<Rightarrow> (tok_type \<times> u8 list) list" where
  "lexemes (S_exec ws) = map (Pair TOK_ARG) ws"
| "lexemes (S_pipe ws c) = map (Pair TOK_ARG) ws @ (TOK_PIPE, op_text TOK_PIPE) # lexemes c"
| "lexemes (S_redir ws op f) = map (Pair TOK_ARG) ws @ [(op, op_text op), (TOK_ARG, f)]"

definition spaced :: "u8 list \<Rightarrow> (tok_type \<times> u8 list) list \<Rightarrow> u8 list" where
  "spaced g ls = concat (map (\<lambda>(ty, w). w @ g) ls)"

definition sh_line :: "u8 list \<Rightarrow> scmd \<Rightarrow> u8 list" where
  "sh_line g c = spaced g (lexemes c)"

definition word :: "u8 list \<Rightarrow> bool" where
  "word w \<longleftrightarrow> w \<noteq> [] \<and> (\<forall>c\<in>set w. arg_char c)"

definition words :: "u8 list list \<Rightarrow> bool" where
  "words ws \<longleftrightarrow> ws \<noteq> [] \<and> length ws \<le> SH_MAX_ARGS \<and> (\<forall>w\<in>set ws. word w)"

fun well_formed :: "scmd \<Rightarrow> bool" where
  "well_formed (S_exec ws) = words ws"
| "well_formed (S_pipe ws c) = (words ws \<and> well_formed c)"
| "well_formed (S_redir ws op f) = (words ws \<and> redir_mode op \<noteq> None \<and> word f)"

definition gap :: "u8 list \<Rightarrow> bool" where
  "gap g \<longleftrightarrow> g \<noteq> [] \<and> set g \<subseteq> set WHITESPACE"

text \<open>The string at a pointer, and what a parsed command stands for.\<close>

definition str_at :: "u8 list \<Rightarrow> nat list \<Rightarrow> nat \<Rightarrow> u8 list" where
  "str_at input ns p = map ((!) input) (takeWhile (\<lambda>i. i \<notin> set ns) [p..<length input])"

fun stands_for :: "(nat \<Rightarrow> u8 list) \<Rightarrow> command \<Rightarrow> scmd \<Rightarrow> bool" where
  "stands_for str (CMD_EXEC ps) (S_exec ws) = (map str ps = ws)"
| "stands_for str (CMD_PIPE l r) (S_pipe ws c) = (stands_for str l (S_exec ws) \<and> stands_for str r c)"
| "stands_for str (CMD_REDIR l f m fd) (S_redir ws op w) =
     (stands_for str l (S_exec ws) \<and> str f = w \<and> redir_mode op = Some (m, fd))"
| "stands_for str _ _ = False"

section \<open>Tokens of a printed line\<close>

definition lex_ok :: "tok_type \<times> u8 list \<Rightarrow> bool" where
  "lex_ok l \<longleftrightarrow> (if fst l = TOK_ARG then word (snd l) else is_op (fst l) \<and> fst l \<noteq> TOK_ILLEGAL \<and> snd l = op_text (fst l))"

lemma lexemes_ok: "well_formed c \<Longrightarrow> \<forall>l\<in>set (lexemes c). lex_ok l"
proof (induction c)
  case (S_redir ws op f)
  then show ?case by (cases op) (auto simp: lex_ok_def words_def)
qed (auto simp: lex_ok_def words_def)

lemma takeWhile_gap:
  "set g \<subseteq> set WHITESPACE \<Longrightarrow> takeWhile (\<lambda>c. c \<in> set WHITESPACE) (g @ cs) = g @ takeWhile (\<lambda>c. c \<in> set WHITESPACE) cs"
  by (intro takeWhile_append2) auto

lemma arg_char_not:
  "arg_char c \<Longrightarrow> c \<notin> set WHITESPACE \<and> c \<noteq> 124 \<and> c \<noteq> 62 \<and> c \<noteq> 60 \<and> c \<noteq> 50"
  by (auto simp: arg_char_def)

lemma get_token_lexeme:
  assumes "set h \<subseteq> set WHITESPACE" "lex_ok (ty, w)" "gap g"
  shows "get_token (pre @ h @ w @ g @ post) (length pre) =
    (token_new ty (length pre + length h) (length w), length pre + length h + length w)"
proof -
  let ?in = "pre @ h @ w @ g @ post"
  obtain a gs where g: "g = a # gs" "a \<in> set WHITESPACE" using assms(3) by (cases g) (auto simp: gap_def)
  then have a: "\<not> arg_char a" "a \<noteq> 62" by (auto simp: arg_char_def WHITESPACE_def)
  obtain c cs where w: "w = c # cs" using assms(2) by (cases w; cases ty) (auto simp: lex_ok_def word_def)
  have c: "c \<notin> set WHITESPACE"
    using assms(2) w by (cases ty) (auto simp: lex_ok_def word_def arg_char_def WHITESPACE_def)
  have "takeWhile (\<lambda>c. c \<in> set WHITESPACE) (drop (length pre) ?in) = h"
    using assms(1) c w by (simp add: takeWhile_gap)
  moreover have "drop (length pre + length h) ?in = c # cs @ a # gs @ post" using w g by simp
  moreover have "takeWhile arg_char (cs @ a # gs @ post) = cs" if "\<forall>x\<in>set cs. arg_char x"
    using that a by (simp add: takeWhile_append2)
  ultimately show ?thesis using assms(2) w a
    by (cases ty; auto simp: get_token_def Let_def lex_ok_def word_def dest: arg_char_not)
       (simp_all add: numeral_2_eq_2 numeral_3_eq_3)
qed

lemma get_token_end:
  assumes "set h \<subseteq> set WHITESPACE"
  shows "get_token (pre @ h) (length pre) = (token_new TOK_EOF (length pre + length h) 0, length pre + length h)"
proof -
  have h: "takeWhile (\<lambda>c. c \<in> set WHITESPACE) h = h" using assms by (auto simp: takeWhile_eq_all_conv)
  show ?thesis by (simp add: get_token_def Let_def h)
qed

fun toks_at :: "nat \<Rightarrow> nat \<Rightarrow> (tok_type \<times> u8 list) list \<Rightarrow> token list" where
  "toks_at k i [] = [token_new TOK_EOF i 0]"
| "toks_at k i ((ty, w) # ls) = token_new ty i (length w) # toks_at k (i + length w + k) ls"

lemma parse_line_spaced:
  assumes "gap g" "\<forall>l\<in>set ls. lex_ok l" "set h \<subseteq> set WHITESPACE"
  shows "parse_line (pre @ h @ spaced g ls) (length pre) = toks_at (length g) (length pre + length h) ls"
  using assms(2,3)
proof (induction ls arbitrary: pre h)
  case Nil
  then show ?case using get_token_end [of h pre] by (simp add: parse_line.simps spaced_def token_new_def)
next
  case (Cons l ls)
  obtain ty w where l: "l = (ty, w)" by (cases l)
  have "parse_line ((pre @ h @ w) @ g @ spaced g ls) (length (pre @ h @ w)) =
      toks_at (length g) (length (pre @ h @ w) + length g) ls"
    using Cons.prems assms(1) by (intro Cons.IH) (simp_all add: gap_def)
  moreover have "ty \<noteq> TOK_EOF" using Cons.prems(1) l by (auto simp: lex_ok_def)
  ultimately show ?case using get_token_lexeme [OF Cons.prems(2) _ assms(1), of ty w pre "spaced g ls"] Cons.prems(1) l
    by (subst parse_line.simps) (simp add: spaced_def token_new_def add.assoc)
qed

section \<open>Commands of a printed line\<close>

definition seps :: "u8 list \<Rightarrow> nat list \<Rightarrow> bool" where
  "seps input ns \<longleftrightarrow> (\<forall>n\<in>set ns. n < length input \<and> input ! n \<in> set WHITESPACE)"

lemma seps_append: "seps input (ns @ ms) \<longleftrightarrow> seps input ns \<and> seps input ms"
  by (auto simp: seps_def)

lemma seps_Cons: "seps input (n # ns) \<longleftrightarrow> seps input [n] \<and> seps input ns"
  by (simp add: seps_def)

lemma str_at_word:
  assumes "seps (pre @ w @ g @ post) ns" "length pre + length w \<in> set ns" "word w" "gap g"
  shows "str_at (pre @ w @ g @ post) ns (length pre) = w"
proof -
  let ?in = "pre @ w @ g @ post" and ?p = "length pre" and ?q = "length pre + length w"
  have split: "[?p..<length ?in] = [?p..<?q] @ ?q # [Suc ?q..<length ?in]"
    using assms(4) upt_add_eq_append [of ?p ?q "length g + length post"] by (auto simp: gap_def upt_conv_Cons add.assoc)
  have "i \<notin> set ns" if "i \<in> set [?p..<?q]" for i
  proof
    assume "i \<in> set ns"
    then have "?in ! i \<in> set WHITESPACE" using assms(1) by (auto simp: seps_def)
    moreover have "?in ! i = w ! (i - ?p)" "w ! (i - ?p) \<in> set w" using that by (auto simp: nth_append)
    ultimately show False using assms(3) by (auto simp: word_def dest: arg_char_not)
  qed
  then have "takeWhile (\<lambda>i. i \<notin> set ns) [?p..<length ?in] = [?p..<?q]"
    unfolding split using assms(2) by (subst takeWhile_append2) simp_all
  moreover have "map ((!) ?in) [?p..<?q] = w" by (intro nth_equalityI) (simp_all add: nth_append)
  ultimately show ?thesis by (simp add: str_at_def)
qed

text \<open>The tokens of some words, and the positions behind them.\<close>

fun arg_toks :: "nat \<Rightarrow> nat \<Rightarrow> u8 list list \<Rightarrow> token list" where
  "arg_toks k i [] = []"
| "arg_toks k i (w # ws) = token_new TOK_ARG i (length w) # arg_toks k (i + length w + k) ws"

abbreviation ends :: "token list \<Rightarrow> nat list" where
  "ends \<equiv> map (\<lambda>t. t_lexeme t + t_len t)"

lemma toks_at_args:
  "toks_at (length g) i (map (Pair TOK_ARG) ws @ ls) =
     arg_toks (length g) i ws @ toks_at (length g) (i + length (spaced g (map (Pair TOK_ARG) ws))) ls"
  by (induction ws arbitrary: i) (simp_all add: spaced_def add.assoc)

lemma arg_toks_types: "t \<in> set (arg_toks k i ws) \<Longrightarrow> t_type t = TOK_ARG"
  by (induction ws arbitrary: i) (auto simp: token_new_def)

lemma length_arg_toks [simp]: "length (arg_toks k i ws) = length ws"
  by (induction ws arbitrary: i) simp_all

lemma arg_toks_text:
  assumes "gap g" "\<forall>w\<in>set ws. word w"
  shows "seps (pre @ spaced g (map (Pair TOK_ARG) ws) @ post) (ends (arg_toks (length g) (length pre) ws)) \<and>
    (\<forall>ns. seps (pre @ spaced g (map (Pair TOK_ARG) ws) @ post) ns \<longrightarrow> set (ends (arg_toks (length g) (length pre) ws)) \<subseteq> set ns \<longrightarrow>
      map (str_at (pre @ spaced g (map (Pair TOK_ARG) ws) @ post) ns) (map t_lexeme (arg_toks (length g) (length pre) ws)) = ws)"
  using assms(2)
proof (induction ws arbitrary: pre)
  case (Cons w ws)
  let ?rest = "spaced g (map (Pair TOK_ARG) ws) @ post"
  obtain a gs where g: "g = a # gs" "a \<in> set WHITESPACE" using assms(1) by (cases g) (auto simp: gap_def)
  have "(pre @ w @ g @ ?rest) ! (length pre + length w) = a" using g(1) by (simp add: nth_append)
  then have "seps (pre @ w @ g @ ?rest) [length pre + length w]" using g by (simp add: seps_def)
  then show ?case using Cons.IH [of "pre @ w @ g"] Cons.prems str_at_word [of pre w g ?rest] assms(1)
    by (simp add: spaced_def token_new_def seps_def add.assoc)
qed (simp add: seps_def)

lemma parse_exec_args:
  assumes "length ws \<le> SH_MAX_ARGS" "t_type t = TOK_EOF"
  shows "parse_exec (arg_toks k i ws @ t # ts) =
    Done (CMD_EXEC (map t_lexeme (arg_toks k i ws)), ends (arg_toks k i ws))"
proof -
  have "takeWhile (\<lambda>t. t_type t \<noteq> TOK_EOF) (arg_toks k i ws @ t # ts) = arg_toks k i ws"
    using assms(2) by (subst takeWhile_append2) (auto dest: arg_toks_types)
  then show ?thesis using assms(1) by (simp add: parse_exec_def Let_def)
qed

lemma first_op:
  assumes "is_op (t_type t)"
  shows "dropWhile (\<lambda>t. \<not> is_op (t_type t)) (arg_toks k i ws @ t # ts) = t # ts"
    "takeWhile (\<lambda>t. \<not> is_op (t_type t)) (arg_toks k i ws @ t # ts) = arg_toks k i ws"
proof -
  have n: "\<not> is_op (t_type u)" if "u \<in> set (arg_toks k i ws)" for u using arg_toks_types [OF that] by simp
  show "dropWhile (\<lambda>t. \<not> is_op (t_type t)) (arg_toks k i ws @ t # ts) = t # ts"
    using n assms by (subst dropWhile_append2) simp_all
  show "takeWhile (\<lambda>t. \<not> is_op (t_type t)) (arg_toks k i ws @ t # ts) = arg_toks k i ws"
    using n assms by (subst takeWhile_append2) simp_all
qed

lemma arg_toks_hd: "words ws \<Longrightarrow> \<exists>t ts. arg_toks k i ws = t # ts \<and> t_type t = TOK_ARG"
  by (cases ws) (auto simp: words_def token_new_def)

lemma lexemes_hd: "well_formed c \<Longrightarrow> \<exists>t ts. toks_at k i (lexemes c) = t # ts \<and> t_type t = TOK_ARG"
proof -
  obtain ws ls where "lexemes c = map (Pair TOK_ARG) ws @ ls" "words ws" if "well_formed c"
    by (cases c) auto
  then show ?thesis if "well_formed c" using that by (cases ws) (auto simp: words_def token_new_def)
qed

text \<open>What a parsed command is to be, whatever further terminators are stored.\<close>

definition parsed :: "u8 list \<Rightarrow> (command \<times> nat list) sh \<Rightarrow> scmd \<Rightarrow> bool" where
  "parsed input r c \<longleftrightarrow> (\<exists>cmd ns. r = Done (cmd, ns) \<and> seps input ns \<and>
     (\<forall>ms. seps input ms \<longrightarrow> set ns \<subseteq> set ms \<longrightarrow> stands_for (str_at input ms) cmd c))"

lemma parse_cmd_lexemes:
  assumes "gap g"
  shows "well_formed c \<Longrightarrow> parsed (pre @ spaced g (lexemes c)) (parse_cmd (toks_at (length g) (length pre) (lexemes c))) c"
proof (induction c arbitrary: pre)
  case (S_exec ws)
  let ?as = "arg_toks (length g) (length pre) ws"
  let ?eof = "token_new TOK_EOF (length pre + length (spaced g (map (Pair TOK_ARG) ws))) 0"
  have ts: "toks_at (length g) (length pre) (lexemes (S_exec ws)) = ?as @ [?eof]"
    using toks_at_args [of g "length pre" ws "[]"] by simp
  have d: "dropWhile (\<lambda>t. \<not> is_op (t_type t)) (?as @ [?eof]) = []"
    by (auto simp: token_new_def dropWhile_eq_Nil_conv dest: arg_toks_types)
  have "parse_exec (?as @ [?eof]) = Done (CMD_EXEC (map t_lexeme ?as), ends ?as)"
    using S_exec by (intro parse_exec_args) (simp_all add: words_def token_new_def)
  then have "parse_cmd (?as @ [?eof]) = Done (CMD_EXEC (map t_lexeme ?as), ends ?as)"
    using arg_toks_hd [of ws "length g" "length pre"] S_exec by (subst parse_cmd.simps, unfold d) auto
  then show ?case using arg_toks_text [OF assms, of ws pre "[]"] S_exec unfolding ts by (simp add: parsed_def words_def)
next
  case (S_pipe ws c)
  let ?as = "arg_toks (length g) (length pre) ws" and ?ws = "spaced g (map (Pair TOK_ARG) ws)"
  let ?in = "pre @ ?ws @ [124] @ g @ spaced g (lexemes c)"
  let ?op = "token_new TOK_PIPE (length pre + length ?ws) 1"
  let ?rest = "toks_at (length g) (length (pre @ ?ws @ [124] @ g)) (lexemes c)"
  have w: "words ws" "well_formed c" using S_pipe.prems by simp_all
  have "toks_at (length g) (length pre) (lexemes (S_pipe ws c)) = ?as @ ?op # ?rest"
    by (simp add: toks_at_args add.assoc)
  moreover have "parsed ?in (parse_cmd ?rest) c"
    using S_pipe.IH [OF w(2), of "pre @ ?ws @ [124] @ g"] by simp
  then obtain r ms where r: "parse_cmd ?rest = Done (r, ms)" "seps ?in ms"
    "\<And>ns. seps ?in ns \<Longrightarrow> set ms \<subseteq> set ns \<Longrightarrow> stands_for (str_at ?in ns) r c"
    by (auto simp: parsed_def)
  have "parse_cmd (?as @ ?op # ?rest) = Done (CMD_PIPE (CMD_EXEC (map t_lexeme ?as)) r, ends ?as @ ms)"
    using arg_toks_hd [OF w(1), of "length g" "length pre"] lexemes_hd [OF w(2), of "length g" "length (pre @ ?ws @ [124] @ g)"]
      parse_exec_args [of ws "?op\<lparr>t_type := TOK_EOF\<rparr>" "length g" "length pre" ?rest] r(1) w(1)
    by (subst parse_cmd.simps) (auto simp: first_op token_new_def words_def)
  ultimately show ?case
    using arg_toks_text [OF assms, of ws pre "[124] @ g @ spaced g (lexemes c)"] w(1) r(2,3)
    by (simp add: parsed_def words_def spaced_def seps_append)
next
  case (S_redir ws op f)
  let ?as = "arg_toks (length g) (length pre) ws" and ?ws = "spaced g (map (Pair TOK_ARG) ws)"
  let ?in = "pre @ ?ws @ op_text op @ g @ f @ g"
  let ?op = "token_new op (length pre + length ?ws) (length (op_text op))"
  let ?p = "length (pre @ ?ws @ op_text op @ g)"
  let ?rest = "[token_new TOK_ARG ?p (length f), token_new TOK_EOF (?p + length f + length g) 0]"
  obtain m fd where w: "words ws" "word f" "redir_mode op = Some (m, fd)" using S_redir.prems by auto
  then have o: "is_op op" "op \<noteq> TOK_PIPE" "op \<noteq> TOK_ILLEGAL" by (cases op; simp)+
  have "toks_at (length g) (length pre) (lexemes (S_redir ws op f)) = ?as @ ?op # ?rest"
    by (simp add: toks_at_args add.assoc)
  moreover have "parse_cmd (?as @ ?op # ?rest) =
      Done (CMD_REDIR (CMD_EXEC (map t_lexeme ?as)) ?p m fd, (?p + length f) # ends ?as)"
    using arg_toks_hd [OF w(1), of "length g" "length pre"] o w
      parse_exec_args [of ws "?op\<lparr>t_type := TOK_EOF\<rparr>" "length g" "length pre" ?rest]
    by (subst parse_cmd.simps) (auto simp: first_op token_new_def words_def parse_redir_def)
  moreover have sf: "seps ?in [?p + length f]"
    using assms by (cases g) (auto simp: seps_def gap_def nth_append)
  have f: "str_at ?in ns ?p = f" if "seps ?in ns" "?p + length f \<in> set ns" for ns
    using str_at_word [of "pre @ ?ws @ op_text op @ g" f g "[]" ns] that w(2) assms by simp
  have a: "seps ?in (ends ?as)"
    "\<And>ns. seps ?in ns \<Longrightarrow> set (ends ?as) \<subseteq> set ns \<Longrightarrow> map (str_at ?in ns) (map t_lexeme ?as) = ws"
    using arg_toks_text [OF assms, of ws pre "op_text op @ g @ f @ g"] w(1) unfolding words_def by blast+
  have "stands_for (str_at ?in ns) (CMD_REDIR (CMD_EXEC (map t_lexeme ?as)) ?p m fd) (S_redir ws op f)"
    if "seps ?in ns" "set ((?p + length f) # ends ?as) \<subseteq> set ns" for ns
    using a(2) [OF that(1)] f [OF that(1)] that(2) w(3) by simp
  moreover have "seps ?in ((?p + length f) # ends ?as)" using sf a(1) by (simp add: seps_def)
  moreover have "pre @ spaced g (lexemes (S_redir ws op f)) = ?in" by (simp add: spaced_def)
  ultimately show ?case unfolding parsed_def by (intro exI conjI allI impI) (assumption | simp only:)+
qed

section \<open>Properties\<close>



text \<open>
  A word is cut in front of every further digit 2, and the terminator of the first part erases
  the digit: the line \<^verbatim>\<open>f2\<close> has the arguments \<^verbatim>\<open>f\<close> and the empty string.
\<close>

lemma sh_cuts_at_two:
  "parse_cmd (parse_line (chars ''f2'') 0) = Done (CMD_EXEC [0, 1], [1, 2]) \<and>
   map (str_at (chars ''f2'') [1, 2]) [0, 1] = [chars ''f'', []]"
  by code_simp

end
