(* ===== verification/Mkfs.thy ===== *)
theory Mkfs
  imports Ifile Proc
begin

text \<open>
  The tool that makes the disk image, \<^verbatim>\<open>tools/mkfs.c\<close>. It runs on the host: the image file is a
  function from block numbers to blocks, \<open>None\<close> is \<^verbatim>\<open>exit(1)\<close>, and a source file is its path with its
  bytes, or with \<open>None\<close> when it cannot be opened. The host is little endian, and its own reads
  and writes succeed inside the image.
\<close>

section \<open>Definitions\<close>

record mkfs =
  m_img :: "u32 \<Rightarrow> blk"
  m_sb :: super_block
  m_root_block :: u32

type_synonym 'a mk = "mkfs \<Rightarrow> ('a \<times> mkfs) option"

definition retM :: "'a \<Rightarrow> 'a mk" where
  "retM x = (\<lambda>m. Some (x, m))"

definition bindM :: "'a mk \<Rightarrow> ('a \<Rightarrow> 'b mk) \<Rightarrow> 'b mk" where
  "bindM f g = (\<lambda>m. case f m of None \<Rightarrow> None | Some (x, m) \<Rightarrow> g x m)"

definition n_inode_blks :: nat where "n_inode_blks = BLOCK_SIZE * 8 div IPB"
definition n_data_blks :: nat where "n_data_blks = BLOCK_SIZE * 8"
definition n_blks :: nat where "n_blks = 1 + 1 + LOG_SIZE + 1 + n_inode_blks + 1 + n_data_blks"
definition log_start :: nat where "log_start = 1 + 1"
definition inode_bitmap_start :: nat where "inode_bitmap_start = log_start + LOG_SIZE"
definition inode_start :: nat where "inode_start = inode_bitmap_start + 1"
definition data_bitmap_start :: nat where "data_bitmap_start = inode_start + n_inode_blks"
definition data_start :: nat where "data_start = data_bitmap_start + 1"

text \<open>The number whose bytes in memory are those of \<open>x\<close> in little-endian order.\<close>

definition mkfs_xuint16 :: "u16 \<Rightarrow> u16" where
  "mkfs_xuint16 x = ld16 (byte_of (ucast x)) 0"

definition mkfs_xuint32 :: "u32 \<Rightarrow> u32" where
  "mkfs_xuint32 x = ld32 (byte_of x) 0"

definition mkfs_read_block :: "u32 \<Rightarrow> blk mk" where
  "mkfs_read_block bno = (\<lambda>m. if unat bno < n_blks then Some (m_img m bno, m) else None)"

definition mkfs_write_block :: "u32 \<Rightarrow> blk \<Rightarrow> unit mk" where
  "mkfs_write_block bno buf = (\<lambda>m. Some ((), m\<lparr>m_img := (m_img m)(bno := buf)\<rparr>))"

definition mkfs_block_alloc :: "u32 mk" where
  "mkfs_block_alloc = (\<lambda>m.
     bindM (mkfs_read_block (sb_data_bitmap_start (m_sb m))) (\<lambda>buf.
     case find (bit_free buf) [0..<8 * BLOCK_SIZE] of
       None \<Rightarrow> (\<lambda>m. None)
     | Some k \<Rightarrow>
         bindM (mkfs_write_block (sb_data_bitmap_start (m_sb m)) (bit_set k buf)) (\<lambda>_.
         retM (of_nat k + sb_data_start (m_sb m)))) m)"

definition mkfs_inode_alloc :: "u16 mk" where
  "mkfs_inode_alloc = (\<lambda>m.
     bindM (mkfs_read_block (sb_inode_bitmap_start (m_sb m))) (\<lambda>buf.
     case find (\<lambda>k. k \<noteq> 0 \<and> bit_free buf k) [0..<8 * BLOCK_SIZE] of
       None \<Rightarrow> (\<lambda>m. None)
     | Some k \<Rightarrow>
         bindM (mkfs_write_block (sb_inode_bitmap_start (m_sb m)) (bit_set k buf)) (\<lambda>_.
         retM (of_nat k))) m)"

definition mkfs_write_inode :: "u16 \<Rightarrow> d_inode \<Rightarrow> unit mk" where
  "mkfs_write_inode ino inode = (\<lambda>m.
     bindM (mkfs_read_block (IBLOCK (unat ino) (m_sb m))) (\<lambda>buf.
     mkfs_write_block (IBLOCK (unat ino) (m_sb m)) (put_d_inode buf (64 * (unat ino mod IPB)) inode)) m)"

definition mkfs_update_inode :: "u16 \<Rightarrow> d_inode \<Rightarrow> d_inode mk" where
  "mkfs_update_inode ino inode =
     (let inode = inode\<lparr>di_size := mkfs_xuint32 (di_size inode), di_addrs := \<lambda>i. mkfs_xuint32 (di_addrs inode i)\<rparr> in
      bindM (mkfs_write_inode ino inode) (\<lambda>_. retM inode))"

definition mkfs_create_inode :: "u16 \<Rightarrow> u16 \<Rightarrow> d_inode mk" where
  "mkfs_create_inode ino type =
     (let inode = \<lparr>di_type = mkfs_xuint16 type, di_major = mkfs_xuint16 0, di_minor = mkfs_xuint16 0,
          di_nlink = mkfs_xuint16 1, di_size = mkfs_xuint32 0, di_addrs = \<lambda>_. mkfs_xuint32 0\<rparr> in
      bindM (mkfs_write_inode ino inode) (\<lambda>_. retM inode))"

definition mkfs_addr :: "d_inode \<Rightarrow> nat \<Rightarrow> d_inode mk" where
  "mkfs_addr inode i =
     (if di_addrs inode i = 0
      then bindM mkfs_block_alloc (\<lambda>a. retM (inode\<lparr>di_addrs := (di_addrs inode)(i := a)\<rparr>))
      else retM inode)"

definition mkfs_block_map :: "d_inode \<Rightarrow> nat \<Rightarrow> (u32 \<times> d_inode) mk" where
  "mkfs_block_map inode n =
     (if n < N_DIRECT then
        bindM (mkfs_addr inode n) (\<lambda>inode. retM (di_addrs inode n, inode))
      else
        let n = n - N_DIRECT; i = N_DIRECT + n div APB in
        if n < N_INDIRECT * APB then
          bindM (mkfs_addr inode i) (\<lambda>inode.
          bindM (mkfs_read_block (di_addrs inode i)) (\<lambda>buf.
          if ld32 buf (4 * (n mod APB)) = 0 then
            bindM mkfs_block_alloc (\<lambda>a.
            let buf = st32 buf (4 * (n mod APB)) a in
            bindM (mkfs_write_block (di_addrs inode i) buf) (\<lambda>_.
            retM (ld32 buf (4 * (n mod APB)), inode)))
          else retM (ld32 buf (4 * (n mod APB)), inode)))
        else (\<lambda>m. None))"

definition mkfs_init_sb :: super_block where
  "mkfs_init_sb = \<lparr>
     sb_block_size = mkfs_xuint32 (of_nat BLOCK_SIZE),
     sb_n_log_blks = mkfs_xuint32 (of_nat LOG_SIZE),
     sb_n_inode_blks = mkfs_xuint32 (of_nat n_inode_blks),
     sb_n_data_blks = mkfs_xuint32 (of_nat n_data_blks),
     sb_log_start = mkfs_xuint32 (of_nat log_start),
     sb_inode_bitmap_start = mkfs_xuint32 (of_nat inode_bitmap_start),
     sb_inode_start = mkfs_xuint32 (of_nat inode_start),
     sb_data_bitmap_start = mkfs_xuint32 (of_nat data_bitmap_start),
     sb_data_start = mkfs_xuint32 (of_nat data_start)\<rparr>"

text \<open>The super block as bytes of a block, \<^verbatim>\<open>memmove(buf, &sb, sizeof(sb))\<close>.\<close>

definition put_super_block :: "blk \<Rightarrow> super_block \<Rightarrow> blk" where
  "put_super_block d b = st32s d 0 9 (nth [sb_block_size b, sb_n_log_blks b, sb_n_inode_blks b,
     sb_n_data_blks b, sb_log_start b, sb_inode_bitmap_start b, sb_inode_start b,
     sb_data_bitmap_start b, sb_data_start b])"

definition mkfs_create_dir_entry :: "nat \<Rightarrow> u8 list \<Rightarrow> u16 \<Rightarrow> nat mk" where
  "mkfs_create_dir_entry off name ino = (\<lambda>m.
     let de = \<lparr>de_ino = mkfs_xuint16 ino, de_name = \<lambda>i. if i < length name then name ! i else 0\<rparr> in
     bindM (mkfs_read_block (m_root_block m)) (\<lambda>buf.
     bindM (mkfs_write_block (m_root_block m) (put_dir_entry buf off de)) (\<lambda>_.
     retM (off + DIRENT_SIZE))) m)"

text \<open>The name of a file in the image: its path behind the last slash, without leading underscores.\<close>

definition short_name :: "u8 list \<Rightarrow> u8 list" where
  "short_name path = dropWhile (\<lambda>c. c = 95) (rev (takeWhile (\<lambda>c. c \<noteq> 47) (rev path)))"

text \<open>The loop that copies the contents of a file, a block at a time.\<close>

function mkfs_copy :: "d_inode \<Rightarrow> nat \<Rightarrow> u8 list \<Rightarrow> d_inode mk" where
  "mkfs_copy inode n bs =
     (let len = min BLOCK_SIZE (length bs) in
      bindM (mkfs_block_map inode n) (\<lambda>(bno, inode).
      bindM (mkfs_write_block bno (put_bytes 0 (take len bs) (\<lambda>_. 0))) (\<lambda>_.
      let inode = inode\<lparr>di_size := di_size inode + of_nat len\<rparr> in
      if len < BLOCK_SIZE then retM inode else mkfs_copy inode (n + 1) (drop len bs))))"
  by pat_completeness auto
termination
  by (relation "measure (\<lambda>(_, _, bs). length bs)") (auto simp: BLOCK_SIZE_def)

declare mkfs_copy.simps [simp del]

definition mkfs_file :: "nat \<Rightarrow> u8 list \<times> u8 list option \<Rightarrow> nat mk" where
  "mkfs_file off f =
     bindM mkfs_inode_alloc (\<lambda>ino.
     bindM (mkfs_create_inode ino FT_FILE) (\<lambda>inode.
     bindM (mkfs_create_dir_entry off (short_name (fst f)) ino) (\<lambda>off.
     case snd f of None \<Rightarrow> (\<lambda>m. None) | Some bs \<Rightarrow>
     bindM (mkfs_copy inode 0 bs) (\<lambda>inode.
     bindM (mkfs_update_inode ino inode) (\<lambda>_. retM off)))))"

text \<open>The loop over the files; it gives the number of directory entries.\<close>

fun mkfs_files :: "nat \<Rightarrow> nat \<Rightarrow> (u8 list \<times> u8 list option) list \<Rightarrow> nat mk" where
  "mkfs_files off entry_count [] = retM entry_count"
| "mkfs_files off entry_count (f # fs) =
     (if off \<ge> BLOCK_SIZE then retM entry_count
      else bindM (mkfs_file off f) (\<lambda>off. mkfs_files off (entry_count + 1) fs))"

definition mkfs_start :: mkfs where
  "mkfs_start = \<lparr>
     m_img = (\<lambda>_ _. 0)(1 := put_super_block (\<lambda>_. 0) mkfs_init_sb),
     m_sb = mkfs_init_sb, m_root_block = 0\<rparr>"

definition mkfs_main :: "(u8 list \<times> u8 list option) list \<Rightarrow> (u32 \<Rightarrow> blk) option" where
  "mkfs_main fs = map_option (m_img \<circ> snd) (
     bindM mkfs_inode_alloc (\<lambda>root_ino.
     if root_ino \<noteq> ROOT_INO then (\<lambda>m. None) else
     bindM mkfs_block_alloc (\<lambda>root_block.
     bindM (\<lambda>m. Some ((), m\<lparr>m_root_block := root_block\<rparr>)) (\<lambda>_.
     bindM (mkfs_create_inode root_ino FT_DIR) (\<lambda>root_inode.
     bindM (mkfs_create_dir_entry 0 (chars ''.'') ROOT_INO) (\<lambda>off.
     bindM (mkfs_create_dir_entry off (chars ''..'') ROOT_INO) (\<lambda>off.
     bindM (mkfs_files off 2 fs) (\<lambda>entry_count.
     mkfs_update_inode root_ino (root_inode\<lparr>
       di_addrs := (di_addrs root_inode)(0 := root_block),
       di_size := of_nat (entry_count * DIRENT_SIZE)\<rparr>)))))))) mkfs_start)"

section \<open>The layout\<close>

lemmas mkfs_consts = BLOCK_SIZE_def IPB_def APB_def N_DIRECT_def N_INDIRECT_def N_ADDRS_def LOG_SIZE_def

lemmas mkfs_places = n_blks_def n_inode_blks_def n_data_blks_def log_start_def inode_bitmap_start_def inode_start_def
  data_bitmap_start_def data_start_def

lemma mkfs_xuint_id [simp]: "mkfs_xuint32 x = x" "mkfs_xuint16 y = y"
  unfolding mkfs_xuint32_def mkfs_xuint16_def by (rule ld32_I ld16_I; simp)+

lemma mkfs_sb [simp]:
  "sb_data_bitmap_start mkfs_init_sb = 545" "sb_data_start mkfs_init_sb = 546" "sb_inode_bitmap_start mkfs_init_sb = 32"
  "sb_inode_start mkfs_init_sb = 33" "sb_log_start mkfs_init_sb = 2" "sb_n_log_blks mkfs_init_sb = 30" "n_blks = 8738"
  by (simp_all add: mkfs_init_sb_def mkfs_places mkfs_consts)

text \<open>The \<open>k\<close>-th data block.\<close>

definition DB :: "nat \<Rightarrow> u32" where
  "DB k = of_nat (546 + k)"

lemma unat_DB: "k < 8192 \<Longrightarrow> unat (DB k) = 546 + k"
  by (simp add: DB_def unat_of_nat take_bit_nat_eq_self del: of_nat_add)

lemma DB_eq [simp]: "k < 8192 \<Longrightarrow> j < 8192 \<Longrightarrow> DB k = DB j \<longleftrightarrow> k = j"
  by (metis add_left_cancel unat_DB)

lemma DB_neq: "k < 8192 \<Longrightarrow> unat x < 546 \<Longrightarrow> DB k \<noteq> x"
  using unat_DB by force

lemma unat_IB: "i < 8192 \<Longrightarrow> unat (IBLOCK i mkfs_init_sb) = 33 + i div 16"
proof -
  assume "i < 8192"
  then have "i div 16 < 512" by simp
  then show ?thesis by (simp add: IBLOCK_def mkfs_consts unat_word_ariths unat_of_nat take_bit_nat_eq_self)
qed

lemma find_first: "P k \<Longrightarrow> k < n \<Longrightarrow> (\<And>j. j < k \<Longrightarrow> \<not> P j) \<Longrightarrow> find P [0..<n] = Some k"
  by (auto simp: find_Some_iff intro!: exI [of _ k])

section \<open>Allocation\<close>

text \<open>
  The first \<open>b\<close> data blocks and the inodes 1 to \<open>c\<close> are taken, and the data blocks behind are
  still empty.
\<close>

definition mk_inv :: "mkfs \<Rightarrow> nat \<Rightarrow> nat \<Rightarrow> bool" where
  "mk_inv m b c \<longleftrightarrow> m_sb m = mkfs_init_sb \<and> b \<le> 8192 \<and> c < 8192 \<and>
     (\<forall>k<8192. bit_free (m_img m 545) k \<longleftrightarrow> b \<le> k) \<and> (\<forall>k<8192. bit_free (m_img m 32) k \<longleftrightarrow> k = 0 \<or> c < k) \<and>
     (\<forall>k. b \<le> k \<and> k < 8192 \<longrightarrow> m_img m (DB k) = (\<lambda>_. 0))"

lemma mk_invD:
  assumes "mk_inv m b c"
  shows "m_sb m = mkfs_init_sb" "b \<le> 8192" "c < 8192"
    "k < 8192 \<Longrightarrow> bit_free (m_img m 545) k \<longleftrightarrow> b \<le> k" "k < 8192 \<Longrightarrow> bit_free (m_img m 32) k \<longleftrightarrow> k = 0 \<or> c < k"
    "b \<le> k \<Longrightarrow> k < 8192 \<Longrightarrow> m_img m (DB k) = (\<lambda>_. 0)"
  using assms by (auto simp: mk_inv_def)

definition upd_img :: "u32 \<Rightarrow> blk \<Rightarrow> mkfs \<Rightarrow> mkfs" where
  "upd_img n d m = m\<lparr>m_img := (m_img m)(n := d)\<rparr>"

lemma upd_img_simps [simp]:
  "m_img (upd_img n d m) = (m_img m)(n := d)" "m_sb (upd_img n d m) = m_sb m" "m_root_block (upd_img n d m) = m_root_block m"
  by (simp_all add: upd_img_def)

lemma mk_monad [simp]:
  "retM x m = Some (x, m)" "mkfs_write_block n d m = Some ((), upd_img n d m)"
  "unat n < 8738 \<Longrightarrow> mkfs_read_block n m = Some (m_img m n, m)"
  "f m = Some (x, m') \<Longrightarrow> bindM f g m = g x m'"
  by (simp_all add: retM_def mkfs_write_block_def mkfs_read_block_def bindM_def upd_img_def)

lemma mk_inv_write:
  assumes "mk_inv m b c" "n \<noteq> 545" "n \<noteq> 32" "unat n < 546 + b"
  shows "mk_inv (upd_img n d m) b c"
proof -
  have "DB k \<noteq> n" if "b \<le> k" "k < 8192" for k using unat_DB [OF that(2)] that(1) assms(4) by auto
  then show ?thesis using assms by (auto simp: mk_inv_def)
qed

lemma block_alloc_ok:
  assumes "mk_inv m b c" "b < 8192"
  shows "\<exists>X. mkfs_block_alloc m = Some (DB b, upd_img 545 X m) \<and> mk_inv (upd_img 545 X m) (Suc b) c"
proof -
  note i = mk_invD [OF assms(1)]
  let ?X = "bit_set b (m_img m 545)"
  have "find (bit_free (m_img m 545)) [0..<8 * BLOCK_SIZE] = Some b"
    using assms(2) i(4) by (intro find_first) (auto simp: BLOCK_SIZE_def)
  moreover have "of_nat b + 546 = DB b" by (simp add: DB_def)
  ultimately have "mkfs_block_alloc m = Some (DB b, upd_img 545 ?X m)"
    by (simp add: mkfs_block_alloc_def i(1))
  moreover have "DB k \<noteq> 545" if "k < 8192" for k using DB_neq [OF that, of 545] by simp
  then have "mk_inv (upd_img 545 ?X m) (Suc b) c"
    using assms i by (auto simp: mk_inv_def bit_free_set)
  ultimately show ?thesis by blast
qed

lemma inode_alloc_ok:
  assumes "mk_inv m b c" "Suc c < 8192"
  shows "\<exists>X. mkfs_inode_alloc m = Some (of_nat (Suc c), upd_img 32 X m) \<and> mk_inv (upd_img 32 X m) b (Suc c)"
proof -
  note i = mk_invD [OF assms(1)]
  let ?X = "bit_set (Suc c) (m_img m 32)"
  have "find (\<lambda>k. k \<noteq> 0 \<and> bit_free (m_img m 32) k) [0..<8 * BLOCK_SIZE] = Some (Suc c)"
    using assms(2) i(5) by (intro find_first) (auto simp: BLOCK_SIZE_def)
  then have "mkfs_inode_alloc m = Some (of_nat (Suc c), upd_img 32 ?X m)"
    by (simp add: mkfs_inode_alloc_def i(1))
  moreover have "DB k \<noteq> 32" if "k < 8192" for k using DB_neq [OF that, of 32] by simp
  then have "mk_inv (upd_img 32 ?X m) b (Suc c)"
    using assms i by (auto simp: mk_inv_def bit_free_set)
  ultimately show ?thesis by blast
qed

section \<open>The blocks of a file\<close>

definition fb :: "(u32 \<Rightarrow> blk) \<Rightarrow> (nat \<Rightarrow> u32) \<Rightarrow> nat \<Rightarrow> u32" where
  "fb L a k = file_block L (blank_inode\<lparr>i_addrs := a\<rparr>) k"

lemma fb_eq:
  "fb L a k = (if k < 10 then a k
     else if k < 778 then (if a (10 + (k - 10) div 256) = 0 then 0
       else ld32 (L (a (10 + (k - 10) div 256))) (4 * ((k - 10) mod 256)))
     else 0)"
  by (auto simp: fb_def file_block_def mkfs_consts Let_def)

text \<open>The blocks of a file lie between the data blocks \<open>lo\<close> and \<open>hi\<close> and are all different.\<close>

definition finv :: "(u32 \<Rightarrow> blk) \<Rightarrow> (nat \<Rightarrow> u32) \<Rightarrow> nat \<Rightarrow> nat \<Rightarrow> bool" where
  "finv L a lo hi \<longleftrightarrow> hi \<le> 8192 \<and>
     (\<forall>q<3. a (10 + q) = 0 \<or> a (10 + q) \<in> DB ` {lo..<hi}) \<and>
     (\<forall>q<3. \<forall>r<3. a (10 + q) = a (10 + r) \<and> a (10 + q) \<noteq> 0 \<longrightarrow> q = r) \<and>
     (\<forall>k. fb L a k = 0 \<or> fb L a k \<in> DB ` {lo..<hi}) \<and>
     (\<forall>k. \<forall>q<3. fb L a k \<noteq> 0 \<longrightarrow> fb L a k \<noteq> a (10 + q)) \<and>
     (\<forall>j k. fb L a k \<noteq> 0 \<longrightarrow> fb L a j = fb L a k \<longrightarrow> j = k)"

lemma finvD:
  assumes "finv L a lo hi"
  shows "q < 3 \<Longrightarrow> a (10 + q) \<noteq> 0 \<Longrightarrow> \<exists>j. a (10 + q) = DB j \<and> lo \<le> j \<and> j < hi"
    "q < 3 \<Longrightarrow> r < 3 \<Longrightarrow> a (10 + q) = a (10 + r) \<Longrightarrow> a (10 + q) \<noteq> 0 \<Longrightarrow> q = r"
    "fb L a k \<noteq> 0 \<Longrightarrow> \<exists>j. fb L a k = DB j \<and> lo \<le> j \<and> j < hi"
    "q < 3 \<Longrightarrow> fb L a k \<noteq> 0 \<Longrightarrow> fb L a k \<noteq> a (10 + q)"
    "fb L a k \<noteq> 0 \<Longrightarrow> fb L a j = fb L a k \<Longrightarrow> j = k" "hi \<le> 8192"
proof -
  note f = assms [unfolded finv_def]
  show "\<exists>j. a (10 + q) = DB j \<and> lo \<le> j \<and> j < hi" if "q < 3" "a (10 + q) \<noteq> 0"
  proof -
    have "a (10 + q) \<in> DB ` {lo..<hi}" using f that by blast
    then show ?thesis by auto
  qed
  show "\<exists>j. fb L a k = DB j \<and> lo \<le> j \<and> j < hi" if "fb L a k \<noteq> 0"
  proof -
    have "fb L a k \<in> DB ` {lo..<hi}" using f that by blast
    then show ?thesis by auto
  qed
qed (use assms in \<open>unfold finv_def, blast+\<close>)

definition spare :: "(nat \<Rightarrow> u32) \<Rightarrow> nat" where
  "spare a = card {q. q < 3 \<and> a (10 + q) = 0}"

lemma spare_upd: "q < 3 \<Longrightarrow> a (10 + q) = 0 \<Longrightarrow> x \<noteq> 0 \<Longrightarrow> Suc (spare (a(10 + q := x))) = spare a"
proof -
  assume q: "q < 3" "a (10 + q) = 0" "x \<noteq> 0"
  let ?A = "{r. r < 3 \<and> a (10 + r) = 0}"
  have "{r. r < 3 \<and> (a(10 + q := x)) (10 + r) = 0} = ?A - {q}" using q by auto
  moreover have "card ?A = Suc (card (?A - {q}))" using q by (intro card.remove) auto
  ultimately show ?thesis unfolding spare_def by (simp only:)
qed

lemma spare_le: "spare a \<le> 3"
  unfolding spare_def using card_mono [of "{..<3}" "{q. q < 3 \<and> a (10 + q) = 0}"] by auto

lemma DB_nz [simp]: "k < 8192 \<Longrightarrow> DB k \<noteq> 0"
  using DB_neq [of k 0] by simp

text \<open>Only the contents of the indirect blocks matter.\<close>

lemma fb_cong:
  assumes "\<And>q. q < 3 \<Longrightarrow> a (10 + q) \<noteq> 0 \<Longrightarrow> L' (a (10 + q)) = L (a (10 + q))"
  shows "fb L' a k = fb L a k"
proof -
  have "(k - 10) div 256 < 3" if "k < 778" "\<not> k < 10" using that by (simp add: less_mult_imp_div_less)
  then show ?thesis using assms by (auto simp: fb_eq)
qed

lemma finv_cong:
  assumes "finv L a lo hi" "\<And>q. q < 3 \<Longrightarrow> a (10 + q) \<noteq> 0 \<Longrightarrow> L' (a (10 + q)) = L (a (10 + q))"
  shows "finv L' a lo hi"
proof -
  have e: "fb L' a = fb L a" by (rule ext, rule fb_cong, rule assms(2))
  show ?thesis using assms(1) unfolding finv_def e .
qed

lemma finv_mono: "finv L a lo hi \<Longrightarrow> hi \<le> hi' \<Longrightarrow> hi' \<le> 8192 \<Longrightarrow> finv L a lo hi'"
proof -
  assume f: "finv L a lo hi" and h: "hi \<le> hi'" "hi' \<le> 8192"
  have "DB ` {lo..<hi} \<subseteq> DB ` {lo..<hi'}" using h(1) by (intro image_mono) auto
  then show ?thesis using f h(2) unfolding finv_def by blast
qed

lemma finv_bitmap: "finv L a lo hi \<Longrightarrow> finv (L(545 := X)) a lo hi" "finv L a lo hi \<Longrightarrow> fb (L(545 := X)) a k = fb L a k"
proof -
  assume f: "finv L a lo hi"
  have n: "a (10 + q) \<noteq> 545" if "q < 3" "a (10 + q) \<noteq> 0" for q
    using finvD(1,6) [OF f] that DB_neq [of _ 545] by fastforce
  then show "finv (L(545 := X)) a lo hi" using finv_cong [OF f, of "L(545 := X)"] by auto
  show "fb (L(545 := X)) a k = fb L a k" by (rule fb_cong) (use n in auto)
qed

text \<open>A new block is in none of the places where the file has one.\<close>

lemma finv_fresh:
  assumes "finv L a lo b" "b < 8192"
  shows "fb L a k \<noteq> DB b" "q < 3 \<Longrightarrow> a (10 + q) \<noteq> DB b"
proof -
  have n: "DB j \<noteq> DB b" if "j < b" for j using that assms(2) by simp
  show "fb L a k \<noteq> DB b" using finvD(3) [OF assms(1), of k] n assms(2) by (cases "fb L a k = 0") auto
  show "a (10 + q) \<noteq> DB b" if "q < 3" using finvD(1) [OF assms(1) that] n assms(2) by (cases "a (10 + q) = 0") auto
qed

text \<open>The file with the new block \<open>DB b\<close> as its \<open>n\<close>-th.\<close>

lemma finv_add:
  assumes f: "finv L a lo b" and b: "b < 8192" "lo \<le> b" and n: "fb L a n = 0"
    and a': "\<And>q. q < 3 \<Longrightarrow> a' (10 + q) = a (10 + q)"
    and fb': "fb L' a' n = DB b" "\<And>k. k \<noteq> n \<Longrightarrow> fb L' a' k = fb L a k"
  shows "finv L' a' lo (Suc b)"
  unfolding finv_def
proof (intro conjI allI impI)
  note fr = finv_fresh [OF f b(1)]
  have fbe: "fb L' a' k = (if k = n then DB b else fb L a k)" for k using fb' by simp
  show "Suc b \<le> 8192" using b by simp
  show "a' (10 + q) = 0 \<or> a' (10 + q) \<in> DB ` {lo..<Suc b}" if "q < 3" for q
    using finvD(1) [OF f that] a' [OF that] by force
  show "q = r" if "q < 3" "r < 3" "a' (10 + q) = a' (10 + r) \<and> a' (10 + q) \<noteq> 0" for q r
  proof -
    have "a (10 + q) = a (10 + r)" "a (10 + q) \<noteq> 0" using that a' by metis+
    then show ?thesis by (rule finvD(2) [OF f that(1,2)])
  qed
  show "fb L' a' k = 0 \<or> fb L' a' k \<in> DB ` {lo..<Suc b}" for k
    using finvD(3) [OF f, of k] b(2) by (force simp: fbe)
  show "fb L' a' k \<noteq> a' (10 + q)" if "q < 3" "fb L' a' k \<noteq> 0" for k q
    using finvD(4) [OF f that(1), of k] fr(2) [OF that(1)] that a' [OF that(1)] by (auto simp: fbe)
  show "j = k" if "fb L' a' k \<noteq> 0" "fb L' a' j = fb L' a' k" for j k
  proof (cases "j = n \<or> k = n")
    case True
    then show ?thesis using that(2) fr(1) [of j] fr(1) [of k] unfolding fbe by metis
  next
    case False
    then show ?thesis using that unfolding fbe by (intro finvD(5) [OF f, of k j]) simp_all
  qed
qed

text \<open>The file with the new block \<open>DB b\<close> as an empty indirect block.\<close>

lemma finv_indirect:
  assumes f: "finv L a lo b" and b: "b < 8192" "lo \<le> b" and q: "q < 3" "a (10 + q) = 0" and z: "L (DB b) = (\<lambda>_. 0)"
  shows "fb L (a(10 + q := DB b)) k = fb L a k" "finv L (a(10 + q := DB b)) lo (Suc b)"
proof -
  let ?a = "a(10 + q := DB b)"
  note fr = finv_fresh [OF f b(1)]
  have e: "fb L ?a k = fb L a k" for k
    using q z b(1) by (auto simp: fb_eq ld32_def)
  then show "fb L ?a k = fb L a k" .
  show "finv L ?a lo (Suc b)"
    unfolding finv_def e
  proof (intro conjI allI impI)
    show "Suc b \<le> 8192" using b by simp
    show "?a (10 + r) = 0 \<or> ?a (10 + r) \<in> DB ` {lo..<Suc b}" if "r < 3" for r
      using finvD(1) [OF f that] b(2) by force
    show "r = r'" if "r < 3" "r' < 3" "?a (10 + r) = ?a (10 + r') \<and> ?a (10 + r) \<noteq> 0" for r r'
    proof (cases "r = q \<or> r' = q")
      case True
      then show ?thesis using that(3) fr(2) [OF that(1)] fr(2) [OF that(2)] by (auto split: if_splits)
    next
      case False
      then have "a (10 + r) = a (10 + r')" "a (10 + r) \<noteq> 0" using that(3) by auto
      then show ?thesis by (rule finvD(2) [OF f that(1,2)])
    qed
    show "fb L a k = 0 \<or> fb L a k \<in> DB ` {lo..<Suc b}" for k
      using finvD(3) [OF f, of k] by force
    show "fb L a k \<noteq> ?a (10 + r)" if "r < 3" "fb L a k \<noteq> 0" for k r
      using finvD(4) [OF f that] fr(1) by simp
    show "j = k" if "fb L a k \<noteq> 0" "fb L a j = fb L a k" for j k
      using finvD(5) [OF f that] .
  qed
qed

text \<open>What a block map does to the image and the file: the \<open>n\<close>-th block is the last one allocated.\<close>

definition mapped :: "nat \<Rightarrow> nat \<Rightarrow> mkfs \<Rightarrow> (nat \<Rightarrow> u32) \<Rightarrow> nat \<Rightarrow> nat \<Rightarrow> mkfs \<Rightarrow> (nat \<Rightarrow> u32) \<Rightarrow> nat \<Rightarrow> bool" where
  "mapped c lo m a b n m' a' b' \<longleftrightarrow> mk_inv m' (Suc b') c \<and> b \<le> b' \<and> b' + spare a' \<le> b + spare a \<and>
     finv (m_img m') a' lo (Suc b') \<and> fb (m_img m') a' n = DB b' \<and>
     (\<forall>k. k \<noteq> n \<longrightarrow> fb (m_img m') a' k = fb (m_img m) a k) \<and> m_root_block m' = m_root_block m \<and>
     (\<forall>x. x \<noteq> 545 \<and> (\<forall>q<3. x = a' (10 + q) \<longrightarrow> x = 0) \<longrightarrow> m_img m' x = m_img m x)"

lemma direct_ok:
  assumes i: "mk_inv m b c" and f: "finv (m_img m) (di_addrs inode) lo b" "lo \<le> b" "b < 8192"
    and n: "n < 10" "fb (m_img m) (di_addrs inode) n = 0"
  shows "\<exists>m' a'. mkfs_block_map inode n m = Some ((DB b, inode\<lparr>di_addrs := a'\<rparr>), m') \<and>
    mapped c lo m (di_addrs inode) b n m' a' b"
proof -
  let ?a = "di_addrs inode" and ?L = "m_img m"
  obtain X where X: "mkfs_block_alloc m = Some (DB b, upd_img 545 X m)" "mk_inv (upd_img 545 X m) (Suc b) c"
    using block_alloc_ok [OF i f(3)] by blast
  let ?a' = "?a(n := DB b)" and ?L' = "?L(545 := X)"
  have e: "fb ?L' ?a' k = (if k = n then DB b else fb ?L ?a k)" for k
    using n(1) finv_bitmap(2) [OF f(1), of X k] by (auto simp: fb_eq)
  have "finv ?L' ?a' lo (Suc b)"
    by (rule finv_add [OF f(1,3,2) n(2)]) (use n(1) e in auto)
  moreover have "spare ?a' = spare ?a" using n(1) by (simp add: spare_def)
  moreover have "?a n = 0" using n by (simp add: fb_eq)
  then have "mkfs_block_map inode n m = Some ((DB b, inode\<lparr>di_addrs := ?a'\<rparr>), upd_img 545 X m)"
    using n(1) X(1) by (simp add: mkfs_block_map_def mkfs_addr_def N_DIRECT_def)
  ultimately show ?thesis using X(2) e by (intro exI conjI) (auto simp: mapped_def)
qed

lemma addr_ok:
  assumes i: "mk_inv m b c" and f: "finv (m_img m) (di_addrs inode) lo b" "lo \<le> b" "b + spare (di_addrs inode) \<le> 8192"
    and q: "q < 3"
  shows "\<exists>m' a' b'. mkfs_addr inode (10 + q) m = Some (inode\<lparr>di_addrs := a'\<rparr>, m') \<and> mk_inv m' b' c \<and> b \<le> b' \<and>
    b' + spare a' \<le> b + spare (di_addrs inode) \<and> finv (m_img m') a' lo b' \<and> a' (10 + q) \<noteq> 0 \<and>
    (\<forall>k. fb (m_img m') a' k = fb (m_img m) (di_addrs inode) k) \<and> m_root_block m' = m_root_block m \<and>
    (\<forall>x. x \<noteq> 545 \<longrightarrow> m_img m' x = m_img m x)"
proof (cases "di_addrs inode (10 + q) = 0")
  case False
  then have "mkfs_addr inode (10 + q) m = Some (inode\<lparr>di_addrs := di_addrs inode\<rparr>, m)"
    by (simp add: mkfs_addr_def)
  then show ?thesis using i f(1) False by blast
next
  case True
  let ?a = "di_addrs inode" and ?L = "m_img m"
  have sp: "Suc (spare (?a(10 + q := x))) = spare ?a" if "x \<noteq> 0" for x using spare_upd [where a = ?a, OF q True that] .
  then have b: "b < 8192" using f(3) sp [of 1, OF one_neq_zero] by linarith
  obtain X where X: "mkfs_block_alloc m = Some (DB b, upd_img 545 X m)" "mk_inv (upd_img 545 X m) (Suc b) c"
    using block_alloc_ok [OF i b] by blast
  have "(?L(545 := X)) (DB b) = (\<lambda>_. 0)" using mk_invD(6) [OF i _ b] DB_neq [OF b, of 545] by auto
  note fi = finv_indirect [where a = ?a and L = "?L(545 := X)", OF finv_bitmap(1) [OF f(1)] b f(2) q True this]
  have "mkfs_addr inode (10 + q) m = Some (inode\<lparr>di_addrs := ?a(10 + q := DB b)\<rparr>, upd_img 545 X m)"
    using True X(1) by (simp add: mkfs_addr_def)
  then show ?thesis using X(2) fi finv_bitmap(2) [OF f(1)] sp [OF DB_nz [OF b]] b
    by (intro exI [of _ "upd_img 545 X m"] exI [of _ "?a(10 + q := DB b)"] exI [of _ "Suc b"]) simp
qed

lemma entry_ok:
  assumes i: "mk_inv m b c" and f: "finv (m_img m) a lo b" "lo \<le> b" "b < 8192"
    and n: "q < 3" "r < 256" "n = 10 + 256 * q + r" "a (10 + q) = x" "x \<noteq> 0" "fb (m_img m) a n = 0"
  shows "ld32 (m_img m x) (4 * r) = 0 \<and> unat x < 8738 \<and> (\<exists>X m'. mkfs_block_alloc m = Some (DB b, upd_img 545 X m) \<and>
    m' = upd_img x (st32 (m_img m x) (4 * r) (DB b)) (upd_img 545 X m) \<and> mapped c lo m a b n m' a b)"
proof -
  let ?L = "m_img m"
  have nr: "(n - 10) div 256 = q" "(n - 10) mod 256 = r" "\<not> n < 10" "n < 778" using n(1-3) by auto
  obtain j where j: "x = DB j" "lo \<le> j" "j < b" using finvD(1) [OF f(1) n(1)] n(4,5) by auto
  then have xj: "unat x = 546 + j" using unat_DB f(3) by simp
  have x: "x \<noteq> 545" "x \<noteq> 32" "unat x < 8738" using xj j(3) f(3) by auto
  obtain X where X: "mkfs_block_alloc m = Some (DB b, upd_img 545 X m)" "mk_inv (upd_img 545 X m) (Suc b) c"
    using block_alloc_ok [OF i f(3)] by blast
  define m' where "m' = upd_img x (st32 (?L x) (4 * r) (DB b)) (upd_img 545 X m)"
  have L': "m_img m' = ?L(545 := X, x := st32 (?L x) (4 * r) (DB b))" by (simp add: m'_def)
  have n': "fb (m_img m') a n = DB b" using nr n(4,5) by (simp add: fb_eq L')
  have o: "fb (m_img m') a k = fb ?L a k" if "k \<noteq> n" for k
  proof (cases "10 \<le> k \<and> k < 778 \<and> a (10 + (k - 10) div 256) \<noteq> 0")
    case True
    define q' r' where "q' = (k - 10) div 256" and "r' = (k - 10) mod 256"
    have k: "k = 10 + 256 * q' + r'" "q' < 3" using True by (auto simp: q'_def r'_def less_mult_imp_div_less)
    have "m_img m' (a (10 + q')) = ?L (a (10 + q'))" if "q' \<noteq> q"
      using finvD(2) [OF f(1) k(2) n(1)] finvD(1) [OF f(1) k(2)] True that n(4) DB_neq [of _ 545] f(3)
      by (fastforce simp: L' simp flip: q'_def)
    moreover have "ld32 (st32 (?L x) (4 * r) (DB b)) (4 * r') = ld32 (?L x) (4 * r')" if "q' = q"
    proof -
      have "r' < r \<or> r < r'" using \<open>k \<noteq> n\<close> k(1) n(3) that by auto
      then show ?thesis by (intro ld_st32_other) auto
    qed
    ultimately show ?thesis using True n(4) by (cases "q' = q") (auto simp: fb_eq L' simp flip: q'_def r'_def)
  qed (auto simp: fb_eq)
  have "finv (m_img m') a lo (Suc b)" by (rule finv_add [OF f(1,3,2) n(6) refl n' o])
  moreover have "mk_inv m' (Suc b) c" unfolding m'_def using x xj j(3) by (intro mk_inv_write [OF X(2)]) auto
  moreover have "m_img m' y = ?L y" if "y \<noteq> 545 \<and> (\<forall>q<3. y = a (10 + q) \<longrightarrow> y = 0)" for y
    using that n(1,4,5) by (auto simp: L')
  ultimately have "mapped c lo m a b n m' a b" using n' o by (simp add: mapped_def m'_def)
  moreover have "ld32 (?L x) (4 * r) = 0" using n(4-6) nr by (simp add: fb_eq)
  ultimately show ?thesis using X(1) x(3) m'_def by blast
qed

lemma block_map_ok:
  assumes i: "mk_inv m b c" and f: "finv (m_img m) (di_addrs inode) lo b" "lo \<le> b" "b + spare (di_addrs inode) < 8192"
    and n: "n < 778" "fb (m_img m) (di_addrs inode) n = 0"
  shows "\<exists>m' a' b'. mkfs_block_map inode n m = Some ((DB b', inode\<lparr>di_addrs := a'\<rparr>), m') \<and>
    mapped c lo m (di_addrs inode) b n m' a' b'"
proof (cases "n < 10")
  case True
  then show ?thesis using direct_ok [OF i f(1,2) _ True n(2)] f(3) by fastforce
next
  case False
  define q r where "q = (n - 10) div 256" and "r = (n - 10) mod 256"
  have q: "q < 3" "r < 256" "n = 10 + 256 * q + r" using False n(1) by (auto simp: q_def r_def less_mult_imp_div_less)
  obtain m1 a1 b1 where 1: "mkfs_addr inode (10 + q) m = Some (inode\<lparr>di_addrs := a1\<rparr>, m1)" "mk_inv m1 b1 c" "b \<le> b1"
    "b1 + spare a1 \<le> b + spare (di_addrs inode)" "finv (m_img m1) a1 lo b1" "a1 (10 + q) \<noteq> 0"
    "\<And>k. fb (m_img m1) a1 k = fb (m_img m) (di_addrs inode) k" "m_root_block m1 = m_root_block m"
    "\<And>x. x \<noteq> 545 \<Longrightarrow> m_img m1 x = m_img m x"
    using addr_ok [OF i f(1,2) _ q(1)] f(3) by auto
  obtain X m' where 2: "ld32 (m_img m1 (a1 (10 + q))) (4 * r) = 0" "unat (a1 (10 + q)) < 8738"
    "mkfs_block_alloc m1 = Some (DB b1, upd_img 545 X m1)"
    "m' = upd_img (a1 (10 + q)) (st32 (m_img m1 (a1 (10 + q))) (4 * r) (DB b1)) (upd_img 545 X m1)"
    "mapped c lo m1 a1 b1 n m' a1 b1"
    using entry_ok [OF 1(2,5) _ _ q refl 1(6)] 1(3,4,7) f(2,3) n(2) by auto
  have "mkfs_block_map inode n m = Some ((DB b1, inode\<lparr>di_addrs := a1\<rparr>), m')"
    using False n(1) 1(1) 2(1-4) by (simp add: mkfs_block_map_def mkfs_consts Let_def flip: q_def r_def)
  moreover have "mapped c lo m (di_addrs inode) b n m' a1 b1"
    using 2(5) 1(3,4,7-9) by (auto simp: mapped_def)
  ultimately show ?thesis by blast
qed

section \<open>The contents of a file\<close>

definition nblk :: "u8 list \<Rightarrow> nat" where
  "nblk bs = length bs div 1024 + 1"

definition part :: "u8 list \<Rightarrow> nat \<Rightarrow> blk" where
  "part bs j = put_bytes 0 (take 1024 (drop (1024 * j) bs)) (\<lambda>_. 0)"

lemma part_drop: "part (drop 1024 bs) j = part bs (Suc j)"
  by (simp add: part_def add.commute)

lemma nblk_drop: "1024 \<le> length bs \<Longrightarrow> nblk bs = Suc (nblk (drop 1024 bs))"
  by (simp add: nblk_def le_div_geq)

text \<open>The file has the blocks of \<open>bs\<close> from the \<open>n\<close>-th on, and the rest is as before.\<close>

definition copied :: "nat \<Rightarrow> nat \<Rightarrow> mkfs \<Rightarrow> (nat \<Rightarrow> u32) \<Rightarrow> nat \<Rightarrow> nat \<Rightarrow> u8 list \<Rightarrow> mkfs \<Rightarrow> (nat \<Rightarrow> u32) \<Rightarrow> nat \<Rightarrow> bool" where
  "copied c lo m a b n bs m' a' b' \<longleftrightarrow> mk_inv m' b' c \<and> b \<le> b' \<and> b' + spare a' \<le> b + spare a + nblk bs \<and>
     finv (m_img m') a' lo b' \<and> m_root_block m' = m_root_block m \<and>
     (\<forall>k<n. fb (m_img m) a k \<noteq> 0 \<longrightarrow> fb (m_img m') a' k = fb (m_img m) a k \<and> m_img m' (fb (m_img m) a k) = m_img m (fb (m_img m) a k)) \<and>
     (\<forall>j<nblk bs. fb (m_img m') a' (n + j) \<noteq> 0 \<and> m_img m' (fb (m_img m') a' (n + j)) = part bs j) \<and>
     (\<forall>k\<ge>n + nblk bs. fb (m_img m') a' k = 0) \<and>
     (\<forall>x. x \<noteq> 545 \<and> unat x < 546 + lo \<longrightarrow> m_img m' x = m_img m x)"

lemma write_part:
  assumes t: "mapped c lo m a b n m' a' b'" and lo: "lo \<le> b" and d: "m2 = upd_img (DB b') d m'"
  shows "mk_inv m2 (Suc b') c" "finv (m_img m2) a' lo (Suc b')" "fb (m_img m2) a' n = DB b'" "m_img m2 (DB b') = d"
    "k \<noteq> n \<Longrightarrow> fb (m_img m2) a' k = fb (m_img m) a k"
    "k \<noteq> n \<Longrightarrow> fb (m_img m) a k \<noteq> 0 \<Longrightarrow> m_img m2 (fb (m_img m) a k) = m_img m (fb (m_img m) a k)"
    "x \<noteq> 545 \<Longrightarrow> unat x < 546 + lo \<Longrightarrow> m_img m2 x = m_img m x" "m_root_block m2 = m_root_block m"
proof -
  have t': "mk_inv m' (Suc b') c" "b \<le> b'" "finv (m_img m') a' lo (Suc b')" "fb (m_img m') a' n = DB b'"
    "\<And>k. k \<noteq> n \<Longrightarrow> fb (m_img m') a' k = fb (m_img m) a k"
    "\<And>x. x \<noteq> 545 \<Longrightarrow> (\<And>q. q < 3 \<Longrightarrow> x = a' (10 + q) \<Longrightarrow> x = 0) \<Longrightarrow> m_img m' x = m_img m x"
    "m_root_block m' = m_root_block m"
    using t by (auto simp: mapped_def)
  have b: "b' < 8192" using mk_invD(2) [OF t'(1)] by simp
  have nz: "DB b' \<noteq> 0" "DB b' \<noteq> 545" "DB b' \<noteq> 32" using b DB_neq [OF b] by simp_all
  have ni: "DB b' \<noteq> a' (10 + q)" if "q < 3" for q using finvD(4) [OF t'(3) that, of n] t'(4) nz(1) by simp
  have L: "m_img m2 = (m_img m')(DB b' := d)" by (simp add: d)
  have same: "m_img m2 (a' (10 + q)) = m_img m' (a' (10 + q))" if "q < 3" for q using ni [OF that] L by auto
  have e: "fb (m_img m2) a' k = fb (m_img m') a' k" for k by (rule fb_cong) (rule same)
  show "mk_inv m2 (Suc b') c" unfolding d using nz unat_DB [OF b] by (intro mk_inv_write t'(1)) auto
  show "finv (m_img m2) a' lo (Suc b')" by (rule finv_cong [OF t'(3)]) (rule same)
  show "fb (m_img m2) a' n = DB b'" "m_img m2 (DB b') = d" "m_root_block m2 = m_root_block m" using e t'(4,7) L d by auto
  show k: "fb (m_img m2) a' k = fb (m_img m) a k" if "k \<noteq> n" for k using e t'(5) that by simp
  show "m_img m2 (fb (m_img m) a k) = m_img m (fb (m_img m) a k)" if kn: "k \<noteq> n" and z: "fb (m_img m) a k \<noteq> 0"
  proof -
    have f: "fb (m_img m') a' k = fb (m_img m) a k" using t'(5) kn .
    obtain j where "fb (m_img m) a k = DB j" "j < Suc b'" using finvD(3) [OF t'(3), of k] z f by auto
    then have "fb (m_img m) a k \<noteq> 545" using DB_neq [of j 545] b by simp
    moreover have "fb (m_img m) a k \<noteq> DB b'" using finvD(5) [OF t'(3), of n k] kn t'(4) f nz(1) by auto
    moreover have "fb (m_img m) a k \<noteq> a' (10 + q)" if "q < 3" for q
      using finvD(4) [OF t'(3) that, of k] f z by simp
    ultimately show ?thesis using t'(6) [of "fb (m_img m) a k"] L by auto
  qed
  show "m_img m2 x = m_img m x" if "x \<noteq> 545" "unat x < 546 + lo"
  proof -
    have "x \<noteq> DB b'" using that(2) unat_DB [OF b] t'(2) lo by auto
    moreover have "x = 0" if "q < 3" "x = a' (10 + q)" for q
      using finvD(1) [OF t'(3) that(1)] unat_DB that(2) \<open>unat x < 546 + lo\<close> b by fastforce
    ultimately show ?thesis using t'(6) that(1) L by simp
  qed
qed

lemma copied_Suc:
  assumes t: "mapped c lo m a b n m1 a1 b1" and lo: "lo \<le> b" and m2: "m2 = upd_img (DB b1) (part bs 0) m1"
    and r: "copied c lo m2 a1 (Suc b1) (n + 1) (drop 1024 bs) m' a' b'" and nb: "nblk bs = Suc (nblk (drop 1024 bs))"
  shows "copied c lo m a b n bs m' a' b'"
proof -
  note w = write_part [OF t lo m2]
  have b1: "b \<le> b1" "b1 + spare a1 \<le> b + spare a" "b1 < 8192"
    using t mk_invD(2) [OF w(1)] by (auto simp: mapped_def)
  have c: "mk_inv m' b' c" "Suc b1 \<le> b'" "b' + spare a' \<le> Suc b1 + spare a1 + nblk (drop 1024 bs)"
     "finv (m_img m') a' lo b'" "m_root_block m' = m_root_block m2"
     "\<And>k. k < n + 1 \<Longrightarrow> fb (m_img m2) a1 k \<noteq> 0 \<Longrightarrow> fb (m_img m') a' k = fb (m_img m2) a1 k \<and>
        m_img m' (fb (m_img m2) a1 k) = m_img m2 (fb (m_img m2) a1 k)"
     "\<And>j. j < nblk (drop 1024 bs) \<Longrightarrow> fb (m_img m') a' (n + 1 + j) \<noteq> 0 \<and>
        m_img m' (fb (m_img m') a' (n + 1 + j)) = part (drop 1024 bs) j"
     "\<And>k. n + 1 + nblk (drop 1024 bs) \<le> k \<Longrightarrow> fb (m_img m') a' k = 0"
     "\<And>x. x \<noteq> 545 \<Longrightarrow> unat x < 546 + lo \<Longrightarrow> m_img m' x = m_img m2 x"
    using r unfolding copied_def by blast+
  have n: "fb (m_img m') a' n = DB b1" "m_img m' (DB b1) = part bs 0"
    using c(6) [of n] w(3,4) b1(3) by simp_all
  have "fb (m_img m') a' k = fb (m_img m) a k \<and> m_img m' (fb (m_img m) a k) = m_img m (fb (m_img m) a k)"
    if "k < n" "fb (m_img m) a k \<noteq> 0" for k
    using c(6) [of k] w(5,6) [of k] that by simp
  moreover have "fb (m_img m') a' (n + j) \<noteq> 0 \<and> m_img m' (fb (m_img m') a' (n + j)) = part bs j" if "j < nblk bs" for j
    using that n b1(3) c(7) [of "j - 1"] by (cases j) (simp_all add: nb part_drop)
  ultimately show ?thesis
    using c(1-5,8,9) b1 w(7,8) by (simp add: copied_def nb)
qed

lemma mkfs_copy_ok:
  assumes "mk_inv m b c" "finv (m_img m) (di_addrs inode) lo b" "lo \<le> b" "b + spare (di_addrs inode) + nblk bs \<le> 8192"
    "n + nblk bs \<le> 778" "\<And>k. n \<le> k \<Longrightarrow> fb (m_img m) (di_addrs inode) k = 0"
  shows "\<exists>m' a' b'. mkfs_copy inode n bs m = Some (inode\<lparr>di_addrs := a', di_size := di_size inode + of_nat (length bs)\<rparr>, m') \<and>
    copied c lo m (di_addrs inode) b n bs m' a' b'"
  using assms
proof (induction inode n bs arbitrary: m b rule: mkfs_copy.induct)
  case (1 inode n bs)
  let ?a = "di_addrs inode" and ?L = "m_img m" and ?len = "min BLOCK_SIZE (length bs)"
  have "b + spare ?a < 8192" "n < 778" using "1.prems"(4,5) by (auto simp: nblk_def)
  then obtain m1 a1 b1 where 1: "mkfs_block_map inode n m = Some ((DB b1, inode\<lparr>di_addrs := a1\<rparr>), m1)"
    "mapped c lo m ?a b n m1 a1 b1"
    using block_map_ok [OF "1.prems"(1-3), of n] "1.prems"(6) by auto
  define m2 where "m2 = upd_img (DB b1) (part bs 0) m1"
  note w = write_part [OF 1(2) "1.prems"(3) m2_def]
  have b1: "b \<le> b1" "b1 + spare a1 \<le> b + spare ?a" "b1 < 8192"
    using 1(2) mk_invD(2) [OF w(1)] by (auto simp: mapped_def)
  let ?i = "inode\<lparr>di_addrs := a1, di_size := di_size inode + of_nat ?len\<rparr>"
  have tk: "take ?len bs = take 1024 bs" by (simp add: min_def BLOCK_SIZE_def)
  have step: "mkfs_copy inode n bs m = (if ?len < BLOCK_SIZE then Some (?i, m2) else mkfs_copy ?i (n + 1) (drop ?len bs) m2)"
    using 1(1) by (subst mkfs_copy.simps) (simp add: m2_def part_def tk Let_def)
  show ?case
  proof (cases "?len < BLOCK_SIZE")
    case True
    then have l: "length bs < 1024" "nblk bs = 1" by (auto simp: BLOCK_SIZE_def nblk_def)
    have "copied c lo m ?a b n bs m2 a1 (Suc b1)"
      using w b1 "1.prems"(6) l(2) by (auto simp: copied_def)
    then show ?thesis using step True l(1) by (auto simp: BLOCK_SIZE_def)
  next
    case False
    then have l: "1024 \<le> length bs" "?len = 1024" by (auto simp: BLOCK_SIZE_def)
    note nb = nblk_drop [OF l(1)]
    have "\<exists>m' a' b'. mkfs_copy ?i (n + 1) (drop ?len bs) m2 =
        Some (?i\<lparr>di_addrs := a', di_size := di_size ?i + of_nat (length (drop ?len bs))\<rparr>, m') \<and>
        copied c lo m2 (di_addrs ?i) (Suc b1) (n + 1) (drop ?len bs) m' a' b'"
      by (rule "1.IH" [where xb = "inode\<lparr>di_addrs := a1\<rparr>", OF refl])
         (use False w(1,2,3,5) b1 "1.prems"(3-6) nb l(2) in auto)
    then obtain m' a' b' where r: "mkfs_copy ?i (n + 1) (drop 1024 bs) m2 =
        Some (?i\<lparr>di_addrs := a', di_size := di_size ?i + of_nat (length (drop 1024 bs))\<rparr>, m')"
      "copied c lo m2 a1 (Suc b1) (n + 1) (drop 1024 bs) m' a' b'" using l(2) by auto
    have "di_size inode + of_nat 1024 + of_nat (length bs - 1024) = di_size inode + of_nat (length bs)"
      using l(1) by (simp flip: of_nat_add add: add.assoc)
    then have "mkfs_copy inode n bs m = Some (inode\<lparr>di_addrs := a', di_size := di_size inode + of_nat (length bs)\<rparr>, m')"
      using step False r(1) l(2) by simp
    moreover have "copied c lo m ?a b n bs m' a' b'"
      by (rule copied_Suc [OF 1(2) "1.prems"(3) m2_def r(2) nb])
    ultimately show ?thesis by blast
  qed
qed

section \<open>One file\<close>

abbreviation IB :: "nat \<Rightarrow> u32" where
  "IB i \<equiv> IBLOCK i mkfs_init_sb"

text \<open>File \<open>i\<close> of the image has the contents \<open>bs\<close>, in data blocks from \<open>lo\<close> to \<open>hi\<close>.\<close>

definition stored :: "(u32 \<Rightarrow> blk) \<Rightarrow> nat \<Rightarrow> u8 list \<Rightarrow> nat \<Rightarrow> nat \<Rightarrow> bool" where
  "stored L i bs lo hi \<longleftrightarrow> (\<exists>a. finv L a lo hi \<and>
     same_inode (get_d_inode (L (IB i)) (64 * (i mod IPB)))
       \<lparr>di_type = FT_FILE, di_major = 0, di_minor = 0, di_nlink = 1, di_size = of_nat (length bs), di_addrs = a\<rparr> \<and>
     (\<forall>j<nblk bs. fb L a j \<noteq> 0 \<and> L (fb L a j) = part bs j))"

text \<open>The \<open>k\<close>-th entry of the root directory.\<close>

definition dir_has :: "(u32 \<Rightarrow> blk) \<Rightarrow> nat \<Rightarrow> u8 list \<Rightarrow> nat \<Rightarrow> bool" where
  "dir_has L k name i \<longleftrightarrow> (let de = get_dir_entry (L (DB 0)) (32 * k) in
     de_ino de = of_nat i \<and> (\<forall>j<DIR_SIZE. de_name de j = (if j < length name then name ! j else 0)))"

text \<open>Everything that the first \<open>b\<close> data blocks, \<open>c\<close> inodes and \<open>c + 1\<close> directory entries say is kept.\<close>

definition keeps :: "nat \<Rightarrow> nat \<Rightarrow> (u32 \<Rightarrow> blk) \<Rightarrow> (u32 \<Rightarrow> blk) \<Rightarrow> bool" where
  "keeps b c L L' \<longleftrightarrow> (\<forall>j. 1 \<le> j \<and> j < b \<longrightarrow> L' (DB j) = L (DB j)) \<and>
     (\<forall>i j. 1 \<le> i \<and> i \<le> c \<and> j < 64 \<longrightarrow> L' (IB i) (64 * (i mod 16) + j) = L (IB i) (64 * (i mod 16) + j)) \<and>
     (\<forall>j<32 * (c + 1). L' (DB 0) j = L (DB 0) j) \<and> (\<forall>x. unat x < 32 \<longrightarrow> L' x = L x)"

lemma keepsD:
  assumes "keeps b c L L'"
  shows "1 \<le> j \<Longrightarrow> j < b \<Longrightarrow> L' (DB j) = L (DB j)"
    "1 \<le> i \<Longrightarrow> i \<le> c \<Longrightarrow> j < 64 \<Longrightarrow> L' (IB i) (64 * (i mod 16) + j) = L (IB i) (64 * (i mod 16) + j)"
    "j < 32 * (c + 1) \<Longrightarrow> L' (DB 0) j = L (DB 0) j" "unat x < 32 \<Longrightarrow> L' x = L x"
  using assms unfolding keeps_def by blast+

lemma keeps_refl: "keeps b c L L"
  by (simp add: keeps_def)

lemma keeps_trans:
  assumes "keeps b c L L'" "keeps b' c' L' L''" "b \<le> b'" "c \<le> c'"
  shows "keeps b c L L''"
  unfolding keeps_def
proof (intro conjI allI impI)
  show "L'' (DB j) = L (DB j)" if "1 \<le> j \<and> j < b" for j
    using keepsD(1) [OF assms(1)] keepsD(1) [OF assms(2)] that assms(3) by simp
  show "L'' (IB i) (64 * (i mod 16) + j) = L (IB i) (64 * (i mod 16) + j)" if "1 \<le> i \<and> i \<le> c \<and> j < 64" for i j
    using keepsD(2) [OF assms(1)] keepsD(2) [OF assms(2)] that assms(4) by simp
  show "L'' (DB 0) j = L (DB 0) j" if "j < 32 * (c + 1)" for j
    using keepsD(3) [OF assms(1) that] keepsD(3) [OF assms(2), of j] that assms(4) by simp
  show "L'' x = L x" if "unat x < 32" for x
    using keepsD(4) [OF assms(1) that] keepsD(4) [OF assms(2) that] by simp
qed

lemma inode_cong:
  assumes "\<And>j. j < 64 \<Longrightarrow> d' (p + j) = d (p + j)" "same_inode (get_d_inode d p) x"
  shows "same_inode (get_d_inode d' p) x"
proof -
  have h: "ld16 d' (p + k) = ld16 d (p + k)" if "k + 2 \<le> 64" for k
    by (rule ld_cong) (use assms(1) that in \<open>simp add: add.assoc\<close>)
  have w: "ld32 d' (p + k) = ld32 d (p + k)" if "k + 4 \<le> 64" for k
    by (rule ld_cong) (use assms(1) that in \<open>simp add: add.assoc\<close>)
  have "ld32 d' (p + 12 + 4 * i) = ld32 d (p + 12 + 4 * i)" if "i < N_ADDRS" for i
    using w [of "12 + 4 * i"] that by (simp add: mkfs_consts add.assoc)
  then show ?thesis using assms(2) h [of 0] h [of 2] h [of 4] h [of 6] w [of 8]
    by (simp add: same_inode_def get_d_inode_def)
qed

lemma dir_has_cong:
  assumes "\<And>j. j < 32 \<Longrightarrow> L' (DB 0) (32 * k + j) = L (DB 0) (32 * k + j)" "dir_has L k name i"
  shows "dir_has L' k name i"
proof -
  have "ld16 (L' (DB 0)) (32 * k) = ld16 (L (DB 0)) (32 * k)" by (rule ld_cong) (use assms(1) in simp)
  moreover have "L' (DB 0) (32 * k + 2 + j) = L (DB 0) (32 * k + 2 + j)" if "j < DIR_SIZE" for j
    using assms(1) [of "2 + j"] that by (simp add: DIR_SIZE_def add.assoc)
  ultimately show ?thesis using assms(2) by (simp add: dir_has_def get_dir_entry_def Let_def)
qed

lemma stored_cong:
  assumes s: "stored L i bs lo hi" and same: "\<And>j. lo \<le> j \<Longrightarrow> j < hi \<Longrightarrow> L' (DB j) = L (DB j)"
    and slot: "\<And>j. j < 64 \<Longrightarrow> L' (IB i) (64 * (i mod 16) + j) = L (IB i) (64 * (i mod 16) + j)"
  shows "stored L' i bs lo hi"
proof -
  obtain a where a: "finv L a lo hi" "same_inode (get_d_inode (L (IB i)) (64 * (i mod IPB)))
       \<lparr>di_type = FT_FILE, di_major = 0, di_minor = 0, di_nlink = 1, di_size = of_nat (length bs), di_addrs = a\<rparr>"
    "\<And>j. j < nblk bs \<Longrightarrow> fb L a j \<noteq> 0 \<and> L (fb L a j) = part bs j" using s unfolding stored_def by blast
  have ind: "L' (a (10 + q)) = L (a (10 + q))" if "q < 3" "a (10 + q) \<noteq> 0" for q
    using finvD(1) [OF a(1) that] same by auto
  have "L' (fb L a j) = L (fb L a j)" if "fb L a j \<noteq> 0" for j using finvD(3) [OF a(1) that] same by auto
  then have "\<forall>j<nblk bs. fb L' a j \<noteq> 0 \<and> L' (fb L' a j) = part bs j" using a(3) fb_cong [of a L' L, OF ind] by simp
  moreover have "finv L' a lo hi" by (rule finv_cong [OF a(1) ind])
  moreover have "same_inode (get_d_inode (L' (IB i)) (64 * (i mod IPB)))
       \<lparr>di_type = FT_FILE, di_major = 0, di_minor = 0, di_nlink = 1, di_size = of_nat (length bs), di_addrs = a\<rparr>"
    by (rule inode_cong [OF _ a(2)]) (use slot in \<open>simp add: mkfs_consts\<close>)
  ultimately show ?thesis unfolding stored_def by blast
qed

lemma stored_keeps:
  assumes "stored L i bs lo hi" "keeps b c L L'" "1 \<le> lo" "hi \<le> b" "1 \<le> i" "i \<le> c"
  shows "stored L' i bs lo hi"
  by (rule stored_cong [OF assms(1)]) (use keepsD(1,2) [OF assms(2)] assms(3-6) in simp_all)

lemma IB_neq:
  assumes "i < 8192"
  shows "IB i \<noteq> 545" "IB i \<noteq> 32" "k < 8192 \<Longrightarrow> DB k \<noteq> IB i" "33 \<le> unat (IB i)" "unat (IB i) < 546"
proof -
  have "i div 16 < 512" using assms by simp
  then show "33 \<le> unat (IB i)" and u: "unat (IB i) < 546" "IB i \<noteq> 545" "IB i \<noteq> 32"
    using unat_IB [OF assms] by auto
  show "DB k \<noteq> IB i" if "k < 8192" using DB_neq [OF that u(1)] .
qed

lemma write_inode_ok:
  assumes "m_sb m = mkfs_init_sb" "i < 8192"
  shows "mkfs_write_inode (of_nat i) d m = Some ((), upd_img (IB i) (put_d_inode (m_img m (IB i)) (64 * (i mod 16)) d) m)"
proof -
  have "unat (of_nat i :: u16) = i" using assms(2) by (simp add: unat_of_nat take_bit_nat_eq_self)
  then show ?thesis using assms IB_neq(5) [OF assms(2)] by (simp add: mkfs_write_inode_def IPB_def BLOCK_SIZE_def)
qed

lemma create_dir_entry_ok:
  assumes "m_root_block m = DB 0"
  shows "mkfs_create_dir_entry off name (of_nat i) m = Some (off + 32,
    upd_img (DB 0) (put_dir_entry (m_img m (DB 0)) off
      \<lparr>de_ino = of_nat i, de_name = \<lambda>i. if i < length name then name ! i else 0\<rparr>) m)"
  using assms unat_DB [of 0] by (simp add: mkfs_create_dir_entry_def Let_def DIRENT_SIZE_def DIR_SIZE_def)

lemma finv_empty: "b \<le> 8192 \<Longrightarrow> finv L (\<lambda>_. 0) b b" "fb L (\<lambda>_. 0) k = 0" "spare (\<lambda>_. 0) = 3"
proof -
  show z: "fb L (\<lambda>_. 0) k = 0" for k by (simp add: fb_eq)
  show "b \<le> 8192 \<Longrightarrow> finv L (\<lambda>_. 0) b b" by (simp add: finv_def z)
  have "{q. q < 3} = {..<3 :: nat}" by auto
  then show "spare (\<lambda>_. 0) = 3" by (simp add: spare_def)
qed

text \<open>What happens to the image outside the new data blocks.\<close>

definition file_img :: "nat \<Rightarrow> blk \<Rightarrow> d_inode \<Rightarrow> d_inode \<Rightarrow> dir_entry \<Rightarrow> (u32 \<Rightarrow> blk) \<Rightarrow> u32 \<Rightarrow> blk" where
  "file_img c X d0 d1 de L = L(32 := X,
     IB (Suc c) := put_d_inode (put_d_inode (L (IB (Suc c))) (64 * (Suc c mod 16)) d0) (64 * (Suc c mod 16)) d1,
     DB 0 := put_dir_entry (L (DB 0)) (32 * (c + 1)) de)"

lemma file_img_keeps:
  assumes "c < 8191" "b \<le> 8192"
    and L': "\<And>x. x \<noteq> 545 \<Longrightarrow> unat x < 546 + b \<Longrightarrow> L' x = file_img c X d0 d1 de L x"
    and "1 \<le> b"
  shows "keeps b c L L'"
  unfolding keeps_def
proof (intro conjI allI impI)
  have c: "Suc c < 8192" using assms(1) by simp
  note ib = IB_neq [OF c]
  show "L' (DB j) = L (DB j)" if "1 \<le> j \<and> j < b" for j
    using that L' [of "DB j"] unat_DB [of j] DB_neq [of j] ib(3) [of j] assms(2) by (simp add: file_img_def)
  show "L' (IB i) (64 * (i mod 16) + j) = L (IB i) (64 * (i mod 16) + j)" if "1 \<le> i \<and> i \<le> c \<and> j < 64" for i j
  proof -
    have i: "i < 8192" "i \<noteq> Suc c" using that c by auto
    note ii = IB_neq [OF i(1)]
    have "64 * (i mod 16) + j < 64 * (Suc c mod 16) \<or> 64 * (Suc c mod 16) + 64 \<le> 64 * (i mod 16) + j" if "IB i = IB (Suc c)"
    proof -
      have "i div 16 = Suc c div 16" using that unat_IB [OF i(1)] unat_IB [OF c] by simp
      then have "i mod 16 \<noteq> Suc c mod 16" using i(2) by (metis div_mult_mod_eq)
      then have "i mod 16 < Suc c mod 16 \<or> Suc c mod 16 < i mod 16" by linarith
      then show ?thesis using \<open>1 \<le> i \<and> i \<le> c \<and> j < 64\<close> by auto
    qed
    moreover have "IB i \<noteq> DB 0" using ii(3) [of 0] by auto
    ultimately show ?thesis using L' [of "IB i"] ii(1,2,5) by (auto simp: file_img_def put_d_inode_other)
  qed
  show "L' (DB 0) j = L (DB 0) j" if "j < 32 * (c + 1)" for j
    using that L' [of "DB 0"] unat_DB [of 0] DB_neq [of 0 545] assms(4)
    by (simp add: file_img_def put_dir_entry_def st16_def)
  show "L' x = L x" if "unat x < 32" for x
  proof -
    have "x \<noteq> 545" "x \<noteq> 32" "x \<noteq> DB 0" "x \<noteq> IB (Suc c)" using that ib(4) unat_DB [of 0] by auto
    then show ?thesis using L' [of x] that by (simp add: file_img_def)
  qed
qed

lemma mkfs_file_run:
  assumes i: "mk_inv m b c" "m_root_block m = DB 0" "1 \<le> b" "c < 8191"
    and f: "f = (path, Some bs)" "nblk bs \<le> 778" "b + nblk bs + 3 \<le> 8192"
  shows "\<exists>m' b' X d0 a. mkfs_file (32 * (c + 1)) f m = Some (32 * (c + 2), m') \<and> mk_inv m' b' (Suc c) \<and> m_root_block m' = DB 0 \<and>
    b \<le> b' \<and> b' \<le> b + nblk bs + 3 \<and> finv (m_img m') a b b' \<and> (\<forall>j<nblk bs. fb (m_img m') a j \<noteq> 0 \<and> m_img m' (fb (m_img m') a j) = part bs j) \<and>
    (\<forall>x. x \<noteq> 545 \<longrightarrow> unat x < 546 + b \<longrightarrow> m_img m' x = file_img c X d0
       \<lparr>di_type = FT_FILE, di_major = 0, di_minor = 0, di_nlink = 1, di_size = of_nat (length bs), di_addrs = a\<rparr>
       \<lparr>de_ino = of_nat (Suc c), de_name = \<lambda>i. if i < length (short_name path) then short_name path ! i else 0\<rparr> (m_img m) x)"
proof -
  have c: "Suc c < 8192" using i(4) by simp
  note ib = IB_neq [OF c]
  let ?d0 = "\<lparr>di_type = FT_FILE, di_major = 0, di_minor = 0, di_nlink = 1, di_size = 0, di_addrs = \<lambda>_. 0\<rparr> :: d_inode"
  let ?de = "\<lparr>de_ino = of_nat (Suc c), de_name = \<lambda>i. if i < length (short_name path) then short_name path ! i else 0\<rparr>"
  obtain X where 1: "mkfs_inode_alloc m = Some (of_nat (Suc c), upd_img 32 X m)" "mk_inv (upd_img 32 X m) b (Suc c)"
    using inode_alloc_ok [OF i(1) c] by blast
  define m2 where "m2 = upd_img (IB (Suc c)) (put_d_inode (m_img m (IB (Suc c))) (64 * (Suc c mod 16)) ?d0) (upd_img 32 X m)"
  have 2: "mkfs_create_inode (of_nat (Suc c)) FT_FILE (upd_img 32 X m) = Some (?d0, m2)" "mk_inv m2 b (Suc c)"
    using write_inode_ok [OF mk_invD(1) [OF 1(2)] c] mk_inv_write [OF 1(2) ib(1,2)] ib(2,5)
    by (simp_all add: mkfs_create_inode_def Let_def m2_def del: of_nat_Suc)
  define m3 where "m3 = upd_img (DB 0) (put_dir_entry (m_img m2 (DB 0)) (32 * (c + 1)) ?de) m2"
  have 3: "mkfs_create_dir_entry (32 * (c + 1)) (short_name path) (of_nat (Suc c)) m2 = Some (32 * (c + 2), m3)" "mk_inv m3 b (Suc c)"
    using create_dir_entry_ok [of m2 "32 * (c + 1)" "short_name path" "Suc c"] mk_inv_write [OF 2(2), of "DB 0"] i(2,3)
      unat_DB [of 0] DB_neq [of 0] by (simp_all add: m3_def m2_def del: of_nat_Suc)
  obtain m4 a b' where 4: "mkfs_copy ?d0 0 bs m3 = Some (?d0\<lparr>di_addrs := a, di_size := of_nat (length bs)\<rparr>, m4)"
    "copied (Suc c) b m3 (\<lambda>_. 0) b 0 bs m4 a b'"
    using mkfs_copy_ok [OF 3(2), of ?d0 b bs 0] finv_empty f(2,3) by auto
  have cp: "mk_inv m4 b' (Suc c)" "b \<le> b'" "b' \<le> b + nblk bs + 3" "finv (m_img m4) a b b'" "m_root_block m4 = m_root_block m3"
     "\<And>j. j < nblk bs \<Longrightarrow> fb (m_img m4) a j \<noteq> 0 \<and> m_img m4 (fb (m_img m4) a j) = part bs j"
     "\<And>x. x \<noteq> 545 \<Longrightarrow> unat x < 546 + b \<Longrightarrow> m_img m4 x = m_img m3 x"
    using 4(2) finv_empty(3) by (auto simp: copied_def)
  let ?d1 = "\<lparr>di_type = FT_FILE, di_major = 0, di_minor = 0, di_nlink = 1, di_size = of_nat (length bs), di_addrs = a\<rparr>"
  define m5 where "m5 = upd_img (IB (Suc c)) (put_d_inode (m_img m4 (IB (Suc c))) (64 * (Suc c mod 16)) ?d1) m4"
  have 5: "mkfs_update_inode (of_nat (Suc c)) ?d1 m4 = Some (?d1, m5)" "mk_inv m5 b' (Suc c)"
    using write_inode_ok [OF mk_invD(1) [OF cp(1)] c] mk_inv_write [OF cp(1) ib(1,2)] ib(5)
    by (simp_all add: mkfs_update_inode_def Let_def m5_def del: of_nat_Suc)
  have "mkfs_file (32 * (c + 1)) f m = Some (32 * (c + 2), m5)"
    using 1(1) 2(1) 3(1) 4(1) 5(1) by (simp add: mkfs_file_def f(1) del: of_nat_Suc)
  moreover have nd: "DB j \<noteq> IB (Suc c)" if "j < b'" for j using ib(3) that mk_invD(2) [OF cp(1)] by simp
  have ind: "m_img m5 (a (10 + q)) = m_img m4 (a (10 + q))" if q: "q < 3" "a (10 + q) \<noteq> 0" for q
  proof -
    obtain j where "a (10 + q) = DB j" "j < b'" using finvD(1) [OF cp(4) q] by blast
    then show ?thesis using nd [of j] by (simp add: m5_def)
  qed
  have fbs: "fb (m_img m5) a j = fb (m_img m4) a j" for j by (rule fb_cong) (rule ind)
  have "finv (m_img m5) a b b'" by (rule finv_cong [OF cp(4)]) (rule ind)
  moreover have "fb (m_img m5) a j \<noteq> 0 \<and> m_img m5 (fb (m_img m5) a j) = part bs j" if j: "j < nblk bs" for j
  proof -
    obtain i where "fb (m_img m4) a j = DB i" "i < b'" using finvD(3) [OF cp(4), of j] cp(6) [OF j] by blast
    then show ?thesis using nd [of i] cp(6) [OF j] unfolding fbs by (simp add: m5_def)
  qed
  moreover have "m_img m5 x = file_img c X ?d0 ?d1 ?de (m_img m) x" if "x \<noteq> 545" "unat x < 546 + b" for x
    using cp(7) [of "IB (Suc c)"] cp(7) [OF that] ib(1,2,5) ib(3) [of 0] DB_neq [of 0 32] i(3)
    by (auto simp: file_img_def m5_def m3_def m2_def)
  moreover have "m_root_block m5 = DB 0" using cp(5) i(2) by (simp add: m5_def m3_def m2_def)
  ultimately show ?thesis using 5(2) cp(2,3) by blast
qed

section \<open>The image\<close>

lemma mkfs_file_ok:
  assumes i: "mk_inv m b c" "m_root_block m = DB 0" "1 \<le> b" "c < 8191"
    and f: "f = (path, Some bs)" "nblk bs \<le> 778" "b + nblk bs + 3 \<le> 8192"
  shows "\<exists>m' b'. mkfs_file (32 * (c + 1)) f m = Some (32 * (c + 2), m') \<and> mk_inv m' b' (Suc c) \<and> m_root_block m' = DB 0 \<and>
    b \<le> b' \<and> b' \<le> b + nblk bs + 3 \<and> keeps b c (m_img m) (m_img m') \<and>
    stored (m_img m') (Suc c) bs b b' \<and> dir_has (m_img m') (Suc c) (short_name path) (Suc c)"
proof -
  let ?de = "\<lparr>de_ino = of_nat (Suc c), de_name = \<lambda>i. if i < length (short_name path) then short_name path ! i else 0\<rparr>"
  obtain m' b' X d0 a where r: "mkfs_file (32 * (c + 1)) f m = Some (32 * (c + 2), m')" "mk_inv m' b' (Suc c)" "m_root_block m' = DB 0"
    "b \<le> b'" "b' \<le> b + nblk bs + 3" "finv (m_img m') a b b'" "\<forall>j<nblk bs. fb (m_img m') a j \<noteq> 0 \<and> m_img m' (fb (m_img m') a j) = part bs j"
    and img: "\<And>x. x \<noteq> 545 \<Longrightarrow> unat x < 546 + b \<Longrightarrow> m_img m' x = file_img c X d0
       \<lparr>di_type = FT_FILE, di_major = 0, di_minor = 0, di_nlink = 1, di_size = of_nat (length bs), di_addrs = a\<rparr> ?de (m_img m) x"
    using mkfs_file_run [OF assms] by blast
  have c: "Suc c < 8192" using i(4) by simp
  note ib = IB_neq [OF c]
  have "keeps b c (m_img m) (m_img m')" by (rule file_img_keeps [OF i(4) mk_invD(2) [OF i(1)] img i(3)])
  moreover have "stored (m_img m') (Suc c) bs b b'"
    unfolding stored_def using r(6,7) get_put_d_inode ib(1,5) ib(3) [of 0] img [of "IB (Suc c)"]
    by (intro exI [of _ a]) (simp add: file_img_def mkfs_consts)
  moreover have "dir_has (m_img m') (Suc c) (short_name path) (Suc c)"
    using img [of "DB 0"] unat_DB [of 0] DB_neq [of 0 545] i(3) get_put_dir_entry [where d = "m_img m (DB 0)" and p = "32 * (c + 1)" and de = ?de]
    by (simp add: dir_has_def file_img_def Let_def del: of_nat_Suc)
  ultimately show ?thesis using r(1-5) by blast
qed

text \<open>Enough room for the files: at most 30, each with its blocks and three indirect ones.\<close>

definition mkfs_fits :: "(u8 list \<times> u8 list) list \<Rightarrow> bool" where
  "mkfs_fits fs \<longleftrightarrow> length fs \<le> 30 \<and> (\<forall>f\<in>set fs. nblk (snd f) \<le> 778) \<and> 1 + (\<Sum>f\<leftarrow>fs. nblk (snd f) + 3) \<le> 8192"

definition sources :: "(u8 list \<times> u8 list) list \<Rightarrow> (u8 list \<times> u8 list option) list" where
  "sources fs = map (\<lambda>(p, bs). (p, Some bs)) fs"

lemma mkfs_files_ok:
  assumes "mk_inv m b c" "m_root_block m = DB 0" "1 \<le> b" "1 \<le> c" "c + length fs \<le> 31"
    "\<forall>f\<in>set fs. nblk (snd f) \<le> 778" "b + (\<Sum>f\<leftarrow>fs. nblk (snd f) + 3) \<le> 8192"
  shows "\<exists>m' b'. mkfs_files (32 * (c + 1)) n (sources fs) m = Some (n + length fs, m') \<and> mk_inv m' b' (c + length fs) \<and>
    m_root_block m' = DB 0 \<and> b \<le> b' \<and> keeps b c (m_img m) (m_img m') \<and>
    (\<forall>i<length fs. \<exists>lo hi. 1 \<le> lo \<and> hi \<le> b' \<and> stored (m_img m') (c + 1 + i) (snd (fs ! i)) lo hi \<and>
       dir_has (m_img m') (c + 1 + i) (short_name (fst (fs ! i))) (c + 1 + i))"
  using assms
proof (induction fs arbitrary: m b c n)
  case Nil
  then show ?case by (auto simp: sources_def intro: keeps_refl)
next
  case (Cons f fs)
  obtain path bs where f: "f = (path, bs)" by (cases f)
  have c: "c < 8191" "\<not> 32 * (c + 1) \<ge> BLOCK_SIZE" using Cons.prems(5) by (auto simp: BLOCK_SIZE_def)
  obtain m1 b1 where 1: "mkfs_file (32 * (c + 1)) (path, Some bs) m = Some (32 * (Suc c + 1), m1)" "mk_inv m1 b1 (Suc c)"
    "m_root_block m1 = DB 0" "b \<le> b1" "b1 \<le> b + nblk bs + 3" "keeps b c (m_img m) (m_img m1)"
    "stored (m_img m1) (Suc c) bs b b1" "dir_has (m_img m1) (Suc c) (short_name path) (Suc c)"
    using mkfs_file_ok [OF Cons.prems(1-3) c(1) refl, of bs path] Cons.prems(6,7) f by auto
  obtain m' b' where 2: "mkfs_files (32 * (Suc c + 1)) (n + 1) (sources fs) m1 = Some (n + 1 + length fs, m')"
    "mk_inv m' b' (Suc c + length fs)" "m_root_block m' = DB 0" "b1 \<le> b'" "keeps b1 (Suc c) (m_img m1) (m_img m')"
    "\<And>i. i < length fs \<Longrightarrow> \<exists>lo hi. 1 \<le> lo \<and> hi \<le> b' \<and> stored (m_img m') (Suc c + 1 + i) (snd (fs ! i)) lo hi \<and>
       dir_has (m_img m') (Suc c + 1 + i) (short_name (fst (fs ! i))) (Suc c + 1 + i)"
    using Cons.IH [OF 1(2,3), of "n + 1"] Cons.prems(3-7) 1(4,5) f by auto
  have "mkfs_files (32 * (c + 1)) n (sources (f # fs)) m = Some (n + length (f # fs), m')"
    using 1(1) 2(1) c(2) f by (simp add: sources_def)
  moreover have "keeps b c (m_img m) (m_img m')" by (rule keeps_trans [OF 1(6) 2(5) 1(4)]) simp
  moreover have "\<exists>lo hi. 1 \<le> lo \<and> hi \<le> b' \<and> stored (m_img m') (c + 1 + i) (snd ((f # fs) ! i)) lo hi \<and>
       dir_has (m_img m') (c + 1 + i) (short_name (fst ((f # fs) ! i))) (c + 1 + i)" if "i < length (f # fs)" for i
  proof (cases i)
    case 0
    have "stored (m_img m') (Suc c) bs b b1" by (rule stored_keeps [OF 1(7) 2(5) Cons.prems(3)]) simp_all
    moreover have "dir_has (m_img m') (Suc c) (short_name path) (Suc c)"
      by (rule dir_has_cong [OF _ 1(8)]) (use keepsD(3) [OF 2(5)] in simp)
    ultimately show ?thesis using 0 f Cons.prems(3) 2(4) by auto
  next
    case (Suc k)
    then show ?thesis using 2(6) [of k] that by simp
  qed
  ultimately show ?case using 2(2,3,4) 1(4) by (intro exI [of _ m'] exI [of _ b']) auto
qed

text \<open>The start of \<^verbatim>\<open>main\<close>: the root directory with its two entries.\<close>

definition root_dir :: "blk \<Rightarrow> blk" where
  "root_dir d = put_dir_entry (put_dir_entry d 0 \<lparr>de_ino = of_nat 1, de_name = \<lambda>i. if i < length (chars ''.'') then chars ''.'' ! i else 0\<rparr>)
     32 \<lparr>de_ino = of_nat 1, de_name = \<lambda>i. if i < length (chars ''..'') then chars ''..'' ! i else 0\<rparr>"

definition root_inode :: "u32 \<Rightarrow> (nat \<Rightarrow> u32) \<Rightarrow> d_inode" where
  "root_inode sz a = \<lparr>di_type = FT_DIR, di_major = 0, di_minor = 0, di_nlink = 1, di_size = sz, di_addrs = a\<rparr>"

lemma mk_inv_start: "mk_inv mkfs_start 0 0"
proof -
  have "bit_free (\<lambda>_. 0) k" for k by (simp add: bit_free_def)
  moreover have "DB k \<noteq> 1" if "k < 8192" for k using DB_neq [OF that, of 1] by simp
  ultimately show ?thesis by (auto simp: mk_inv_def mkfs_start_def)
qed

lemma root_dir_has: "dir_has L 0 (chars ''.'') 1" "dir_has L 1 (chars ''..'') 1" if "L (DB 0) = root_dir d"
proof -
  let ?e = "\<lambda>n. \<lparr>de_ino = of_nat 1, de_name = \<lambda>i. if i < length n then n ! i else 0\<rparr>"
  have "dir_has L' 0 (chars ''.'') 1" if "L' (DB 0) = put_dir_entry d 0 (?e (chars ''.''))" for L'
    using get_put_dir_entry [where d = d and p = 0 and de = "?e (chars ''.'')"] that by (simp add: dir_has_def Let_def)
  note this [of "\<lambda>_. put_dir_entry d 0 (?e (chars ''.''))", OF refl]
  then show "dir_has L 0 (chars ''.'') 1"
    by (rule dir_has_cong [rotated]) (simp add: that root_dir_def put_dir_entry_def [of _ 32] st16_def)
  show "dir_has L 1 (chars ''..'') 1"
    using get_put_dir_entry [where d = "put_dir_entry d 0 (?e (chars ''.''))" and p = 32 and de = "?e (chars ''..'')"] that
    by (simp add: dir_has_def root_dir_def Let_def)
qed

lemma root_slot: "IB i = IB 1 \<Longrightarrow> 2 \<le> i \<Longrightarrow> i < 8192 \<Longrightarrow> j < 64 \<Longrightarrow> 128 \<le> 64 * (i mod 16) + j \<or> 64 * (i mod 16) + j < 64"
proof -
  assume i: "IB i = IB 1" "2 \<le> i" "i < 8192" "j < 64"
  then have "i div 16 = 0" using unat_IB [of i] unat_IB [of 1] by simp
  then have "i mod 16 = i" by (simp add: div_eq_0_iff)
  then show ?thesis using i(2) by simp
qed

lemma mkfs_main_root:
  "\<exists>m. mkfs_main fs = map_option (m_img \<circ> snd) (bindM (mkfs_files 64 2 fs) (\<lambda>n.
      mkfs_update_inode (of_nat 1) (root_inode (of_nat (n * 32)) ((\<lambda>_. 0)(0 := DB 0)))) m) \<and>
    mk_inv m 1 1 \<and> m_root_block m = DB 0 \<and> (\<exists>d. m_img m (DB 0) = root_dir d) \<and>
    (\<forall>x. unat x < 32 \<longrightarrow> m_img m x = m_img mkfs_start x)"
proof -
  note ib = IB_neq [of 1]
  obtain X where 1: "mkfs_inode_alloc mkfs_start = Some (of_nat (Suc 0), upd_img 32 X mkfs_start)"
    "mk_inv (upd_img 32 X mkfs_start) 0 (Suc 0)"
    using inode_alloc_ok [OF mk_inv_start] by auto
  define m1 where "m1 = upd_img 32 X mkfs_start"
  have m1: "mk_inv m1 0 1" using 1(2) by (simp add: m1_def)
  obtain Y where 2: "mkfs_block_alloc m1 = Some (DB 0, upd_img 545 Y m1)" "mk_inv (upd_img 545 Y m1) (Suc 0) 1"
    using block_alloc_ok [OF m1] by auto
  define m2 where "m2 = (upd_img 545 Y m1)\<lparr>m_root_block := DB 0\<rparr>"
  have m2: "mk_inv m2 1 1" "m_root_block m2 = DB 0" using 2(2) by (simp_all add: m2_def mk_inv_def)
  define m3 where "m3 = upd_img (IB 1) (put_d_inode (m_img m2 (IB 1)) 64 (root_inode 0 (\<lambda>_. 0))) m2"
  have 3: "mkfs_create_inode (of_nat 1) FT_DIR m2 = Some (root_inode 0 (\<lambda>_. 0), m3)" "mk_inv m3 1 1" "m_root_block m3 = DB 0"
    using write_inode_ok [OF mk_invD(1) [OF m2(1)], of 1] mk_inv_write [OF m2(1) ib(1,2)] ib(5) m2(2)
    by (simp_all add: mkfs_create_inode_def Let_def m3_def root_inode_def)
  define m4 where "m4 = upd_img (DB 0) (root_dir (m_img m3 (DB 0))) m3"
  let ?m = "upd_img (DB 0) (put_dir_entry (m_img m3 (DB 0)) 0
      \<lparr>de_ino = of_nat 1, de_name = \<lambda>i. if i < length (chars ''.'') then chars ''.'' ! i else 0\<rparr>) m3"
  have 4: "mkfs_create_dir_entry 0 (chars ''.'') (of_nat 1) m3 = Some (32, ?m)" 
    "mkfs_create_dir_entry 32 (chars ''..'') (of_nat 1) ?m = Some (64, m4)"
    using create_dir_entry_ok [of m3 0 "chars ''.''" 1] create_dir_entry_ok [of ?m 32 "chars ''..''" 1] 3(3)
    by (simp_all add: m4_def root_dir_def upd_img_def)
  have m4: "mk_inv m4 1 1" "m_root_block m4 = DB 0"
    using mk_inv_write [OF 3(2), of "DB 0"] unat_DB [of 0] DB_neq [of 0] 3(3) by (simp_all add: m4_def)
  have "mkfs_main fs = map_option (m_img \<circ> snd) (bindM (mkfs_files 64 2 fs) (\<lambda>n.
      mkfs_update_inode (of_nat 1) (root_inode (of_nat (n * 32)) ((\<lambda>_. 0)(0 := DB 0)))) m4)"
    using 1(1) 2(1) 3(1) 4
    by (simp add: mkfs_main_def ROOT_INO_def root_inode_def DIRENT_SIZE_def DIR_SIZE_def flip: m1_def m2_def)
  moreover have "m_img m4 x = m_img mkfs_start x" if "unat x < 32" for x
  proof -
    have "x \<noteq> IB 1" "x \<noteq> DB 0" "x \<noteq> 545" "x \<noteq> 32" using that ib(4) unat_DB [of 0] by auto
    then show ?thesis by (simp add: m4_def m3_def m2_def m1_def)
  qed
  moreover have "m_img m4 (DB 0) = root_dir (m_img m3 (DB 0))" by (simp add: m4_def)
  ultimately show ?thesis using m4 by blast
qed

lemma mkfs_main_ok:
  assumes "mkfs_fits fs"
  shows "\<exists>L. mkfs_main (sources fs) = Some L \<and> L 1 = put_super_block (\<lambda>_. 0) mkfs_init_sb \<and> L 2 = (\<lambda>_. 0) \<and>
    same_inode (get_d_inode (L (IB 1)) 64) (root_inode (of_nat (32 * (length fs + 2))) ((\<lambda>_. 0)(0 := DB 0))) \<and>
    dir_has L 0 (chars ''.'') 1 \<and> dir_has L 1 (chars ''..'') 1 \<and>
    (\<forall>i<length fs. \<exists>lo hi. stored L (i + 2) (snd (fs ! i)) lo hi \<and> dir_has L (i + 2) (short_name (fst (fs ! i))) (i + 2))"
proof -
  note ib = IB_neq [of 1]
  obtain m4 d0 where main: "mkfs_main (sources fs) = map_option (m_img \<circ> snd) (bindM (mkfs_files 64 2 (sources fs)) (\<lambda>n.
      mkfs_update_inode (of_nat 1) (root_inode (of_nat (n * 32)) ((\<lambda>_. 0)(0 := DB 0)))) m4)"
    and m4: "mk_inv m4 1 1" "m_root_block m4 = DB 0" "m_img m4 (DB 0) = root_dir d0" "\<And>x. unat x < 32 \<Longrightarrow> m_img m4 x = m_img mkfs_start x"
    using mkfs_main_root by blast
  obtain m5 b5 where 5: "mkfs_files 64 2 (sources fs) m4 = Some (2 + length fs, m5)" "mk_inv m5 b5 (1 + length fs)"
    "m_root_block m5 = DB 0" "keeps 1 1 (m_img m4) (m_img m5)"
    "\<And>i. i < length fs \<Longrightarrow> \<exists>lo hi. 1 \<le> lo \<and> hi \<le> b5 \<and> stored (m_img m5) (2 + i) (snd (fs ! i)) lo hi \<and>
       dir_has (m_img m5) (2 + i) (short_name (fst (fs ! i))) (2 + i)"
    using mkfs_files_ok [OF m4(1,2), of fs 2] assms unfolding mkfs_fits_def by (auto simp: numeral_2_eq_2)
  define d where "d = root_inode (of_nat (32 * (length fs + 2))) ((\<lambda>_. 0)(0 := DB 0))"
  define m6 where "m6 = upd_img (IB 1) (put_d_inode (m_img m5 (IB 1)) 64 d) m5"
  have L: "m_img m6 x = (if x = IB 1 then put_d_inode (m_img m5 (IB 1)) 64 d else m_img m5 x)" for x by (simp add: m6_def)
  have "mkfs_update_inode (of_nat 1) d m5 = Some (d, m6)"
    using write_inode_ok [OF mk_invD(1) [OF 5(2)], of 1] by (simp add: mkfs_update_inode_def Let_def m6_def)
  then have "mkfs_main (sources fs) = Some (m_img m6)"
    using main 5(1) by (simp add: d_def algebra_simps)
  moreover have low: "m_img m6 x = m_img mkfs_start x" if "unat x < 32" for x
    using that ib(4) keepsD(4) [OF 5(4) that] m4(4) [OF that] by (auto simp: L)
  moreover have "dir_has (m_img m6) 0 (chars ''.'') 1" "dir_has (m_img m6) 1 (chars ''..'') 1"
  proof -
    have "m_img m6 (DB 0) j = m_img m4 (DB 0) j" if "j < 64" for j
      using keepsD(3) [OF 5(4), of j] that ib(3) [of 0] by (simp add: L)
    then show "dir_has (m_img m6) 0 (chars ''.'') 1" "dir_has (m_img m6) 1 (chars ''..'') 1"
      using dir_has_cong [OF _ root_dir_has(1) [where L = "m_img m4" and d = d0, OF m4(3)], of "m_img m6"]
        dir_has_cong [OF _ root_dir_has(2) [where L = "m_img m4" and d = d0, OF m4(3)], of "m_img m6"]
      by auto
  qed
  moreover have "same_inode (get_d_inode (m_img m6 (IB 1)) 64) d" using get_put_d_inode by (simp add: L)
  moreover have "\<exists>lo hi. stored (m_img m6) (i + 2) (snd (fs ! i)) lo hi \<and> dir_has (m_img m6) (i + 2) (short_name (fst (fs ! i))) (i + 2)"
    if i: "i < length fs" for i
  proof -
    obtain lo hi where s: "hi \<le> b5" "stored (m_img m5) (2 + i) (snd (fs ! i)) lo hi"
      "dir_has (m_img m5) (2 + i) (short_name (fst (fs ! i))) (2 + i)" using 5(5) [OF i] by blast
    have "m_img m6 (DB j) = m_img m5 (DB j)" if "j < 8192" for j using ib(3) [OF _ that] by (simp add: L)
    moreover have "m_img m6 (IB (2 + i)) (64 * ((2 + i) mod 16) + j) = m_img m5 (IB (2 + i)) (64 * ((2 + i) mod 16) + j)" if "j < 64" for j
      using root_slot [of "2 + i" j] that i assms by (auto simp: L mkfs_fits_def put_d_inode_other)
    ultimately show ?thesis
      using stored_cong [OF s(2), of "m_img m6"] dir_has_cong [OF _ s(3), of "m_img m6"] s(1) mk_invD(2) [OF 5(2)]
      by (auto simp: add.commute)
  qed
  ultimately show ?thesis unfolding d_def
    by (intro exI [of _ "m_img m6"]) (simp add: mkfs_start_def)
qed

end
