(* ===== verification/Mount.thy ===== *)
theory Mount
  imports Mkfs
begin

text \<open>
  The kernel on a disk that \<^verbatim>\<open>mkfs\<close> made: \<^verbatim>\<open>fs_init\<close> (\<^verbatim>\<open>kernel/fs/fs.c\<close>) on any image whose log
  fits, and the files of an image as \<^verbatim>\<open>readi\<close> sees them.
\<close>

section \<open>Mounting\<close>

lemma spin_lock_init_step: "\<exists>t. spin_lock_init L name s = Ret () t \<and> (\<exists>sp. t = s\<lparr>spins := sp\<rparr> \<and>
    (\<forall>L'. lock_free s L' \<longrightarrow> \<not> sl_locked (sp L') \<and> sl_cpuid (sp L') = -1))"
proof -
  let ?sp = "(spins s)(L := \<lparr>sl_locked = False, sl_cpuid = -1, sl_name = name\<rparr>)"
  have "spin_lock_init L name s = Ret () (s\<lparr>spins := ?sp\<rparr>)" by (simp add: spin_lock_init_def)
  then show ?thesis by (intro exI [of _ "s\<lparr>spins := ?sp\<rparr>"] exI [of _ ?sp] conjI) (simp_all add: lock_free_def)
qed

lemma spins_calm:
  assumes "calm s p" "\<And>L'. lock_free s L' \<Longrightarrow> \<not> sl_locked (sp L') \<and> sl_cpuid (sp L') = -1"
  shows "calm (s\<lparr>spins := sp\<rparr>) p"
  using assms by (auto simp: calm_def quiet_def lock_free_def cur_proc_def hart_defs no_sleeper_def)

lemma bcache_spins: "bcache (s\<lparr>spins := sp\<rparr>) L D W R H = bcache s L D W R H"
  by (simp add: bcache_def cached_def locks_ok_def mine_def cur_proc_def hart_defs)

lemma fs_init_ok:
  assumes c: "calm s p" and b: "bcache s X X W (\<lambda>_. 0) Map.empty" and B: "B = get_super_block (X 1)"
    and g: "g = (lg s)\<lparr>lg_start := sb_log_start B, lg_size := sb_n_log_blks B, lg_dev := ROOT_DEV\<rparr>" "log_geo g" "image_ok g X"
  shows "\<exists>t L W'. fs_init ROOT_DEV s = Ret () t \<and> calm t p \<and> sb t = B \<and> txn t L L W' Map.empty \<and> lh_n (lg t) = 0 \<and>
    lg_start (lg t) = sb_log_start B \<and> lg_size (lg t) = sb_n_log_blks B \<and> (\<forall>k. home g k \<longrightarrow> L k = replay g X k)"
proof -
  have rc: "\<exists>p. calm s p" "0 < (0::nat) \<or> card (used (\<lambda>_::u32. 0)) < N_BUF" using c by (auto simp: used_def N_BUF_30)
  obtain b s1 where 1: "bread ROOT_DEV 1 s = Ret b s1" "blk_step s s1"
    "bcache s1 X X W ((\<lambda>_. 0)(1 := 0 + 1)) (Map.empty(1 \<mapsto> b))"
    using bio.rd_ok [OF rc(1) b _ _ _ rc(2), of 1] by (auto simp: bno_ok_def)
  have dd: "b_data (bufs (bc s1) b) = X 1" using bcache_heldD(5) [OF 1(3), of 1 b] by simp
  define s2 where "s2 = s1\<lparr>sb := B\<rparr>"
  have 2: "bcache s2 X X W ((\<lambda>_. 0)(1 := 0 + 1)) (Map.empty(1 \<mapsto> b))" "\<exists>p. calm s2 p" "calm s2 p"
    using 1 c by (auto simp: s2_def blk_stepD)
  have e: "((\<lambda>_. 0)(1 := 0 + 1))(1 := ((\<lambda>_. 0)(1 := 0 + 1)) 1 - 1) = ((\<lambda>_. 0) :: u32 \<Rightarrow> nat)"
    "(Map.empty(1 \<mapsto> b))(1 := None) = Map.empty" by auto
  obtain s3 where 3: "brelse b s2 = Ret () s3" "blk_step s2 s3" "bcache s3 X X W (\<lambda>_. 0) Map.empty"
    using bio.rel_ok [OF 2(2,1), of 1 b] unfolding e by auto
  have f3: "calm s3 p" "sb s3 = B" "lg s3 = lg s"
    using 3(2) 2(3) 1(2) by (simp_all add: blk_stepD blk_step_log s2_def)
  obtain sp where 4: "spin_lock_init L_log ''log'' s3 = Ret () (s3\<lparr>spins := sp\<rparr>)"
    "\<And>L'. lock_free s3 L' \<Longrightarrow> \<not> sl_locked (sp L') \<and> sl_cpuid (sp L') = -1"
    using spin_lock_init_step [of L_log "''log''" s3] by blast
  define s5 where "s5 = s3\<lparr>spins := sp, lg := g\<rparr>"
  have 5: "calm s5 p" "bcache s5 X X W (\<lambda>_. 0) Map.empty" "lg s5 = g" "sb s5 = B"
    using spins_calm [OF f3(1) 4(2)] 3(3) f3(2) by (simp_all add: s5_def bcache_spins)
  obtain t L W' where 6: "recover_from_log s5 = Ret () t" "calm t p" "sb t = B" "txn t L L W' Map.empty" "lh_n (lg t) = 0"
    "lg_start (lg t) = lg_start g" "lg_size (lg t) = lg_size g" "\<forall>k. home g k \<longrightarrow> L k = replay g X k"
    using recover_ok [OF 5(1,2) 5(3) [symmetric] g(2,3)] 5(4) by auto
  have "fs_init ROOT_DEV s = Ret () t"
    using 1(1) 3(1) 4(1) 6(1) f3(2,3) g(1)
    by (simp add: fs_init_def buf_data_def dd log_init_def LOG_SIZE_def BLOCK_SIZE_def s5_def flip: B s2_def)
  then show ?thesis using 6 g(1) by auto
qed

section \<open>Files of an image\<close>

lemma get_put_super_block [simp]: "get_super_block (put_super_block d b) = b"
proof -
  let ?f = "nth [sb_block_size b, sb_n_log_blks b, sb_n_inode_blks b, sb_n_data_blks b, sb_log_start b,
     sb_inode_bitmap_start b, sb_inode_start b, sb_data_bitmap_start b, sb_data_start b]"
  have "ld32 (st32s d 0 9 ?f) (4 * i) = ?f i" if "i < 9" for i using ld32_st32s [OF that, of d 0 ?f] by simp
  from this [of 0] this [of 1] this [of 2] this [of 3] this [of 4] this [of 5] this [of 6] this [of 7] this [of 8]
  show ?thesis by (simp add: get_super_block_def put_super_block_def)
qed

text \<open>The log of an image is empty, so that recovery leaves the home blocks as they are.\<close>

lemma empty_log: "X (lg_start g) = (\<lambda>_. 0) \<Longrightarrow> 0 < unat (lg_size g) \<Longrightarrow> image_ok g X \<and> replay g X = X"
  by (simp add: image_ok_def replay_def hdr_n_def ld32_def puts_def)

lemma image_home:
  assumes "lg_start g = 2" "lg_size g = 30"
  shows "j < 8192 \<Longrightarrow> home g (DB j)" "i < 8192 \<Longrightarrow> home g (IB i)"
  using assms unat_DB [of j] unat_IB [of i] by (auto simp: home_def in_log_def bno_ok_def)

definition as_inode :: "(u32 \<Rightarrow> blk) \<Rightarrow> nat \<Rightarrow> m_inode \<Rightarrow> m_inode" where
  "as_inode L i n = load_inode (get_d_inode (L (IB i)) (64 * (i mod IPB))) n"

lemma nblk_bound: "nblk bs \<le> 778 \<Longrightarrow> length bs < 2 ^ 20"
proof -
  assume "nblk bs \<le> 778"
  then have "length bs div 1024 \<le> 777" by (simp add: nblk_def)
  then have "length bs < 778 * 1024" by (simp add: div_less_iff_less_mult flip: less_Suc_eq_le)
  then show ?thesis by simp
qed

lemma stored_file:
  assumes s: "stored L i bs lo hi" and nb: "nblk bs \<le> 778" and n: "i_dev n = ROOT_DEV" and g: "lg_start g = 2" "lg_size g = 30"
  shows "file_ok g L (as_inode L i n)" "unat (i_size (as_inode L i n)) = length bs"
    "k < length bs \<Longrightarrow> file_block L (as_inode L i n) (k div BLOCK_SIZE) \<noteq> 0 \<and> fbyte L (as_inode L i n) k = bs ! k"
proof -
  obtain a where a: "finv L a lo hi" "same_inode (get_d_inode (L (IB i)) (64 * (i mod IPB)))
       \<lparr>di_type = FT_FILE, di_major = 0, di_minor = 0, di_nlink = 1, di_size = of_nat (length bs), di_addrs = a\<rparr>"
    "\<And>j. j < nblk bs \<Longrightarrow> fb L a j \<noteq> 0 \<and> L (fb L a j) = part bs j" using s unfolding stored_def by blast
  have ad: "i_addrs (as_inode L i n) k = a k" if "k < 13" for k
    using a(2) that by (simp add: same_inode_def as_inode_def load_inode_def mkfs_consts)
  have fb: "file_block L (as_inode L i n) k = fb L a k" for k
  proof -
    have "10 + (k - 10) div 256 < 13" if "k < 778" using that by (simp add: less_mult_imp_div_less)
    then show ?thesis using ad by (auto simp: file_block_def fb_eq mkfs_consts Let_def)
  qed
  have hm: "home g (DB j)" if "j < hi" for j using image_home(1) [OF g] that finvD(6) [OF a(1)] by simp
  have ind: "\<exists>q<3. x = a (10 + q) \<and> x \<noteq> 0" if "x \<in> indirect (as_inode L i n)" for x
  proof -
    obtain k where "10 \<le> k" "k < 13" "x = a k" "x \<noteq> 0" using \<open>x \<in> indirect (as_inode L i n)\<close> ad by (auto simp: indirect_def mkfs_consts)
    then show ?thesis by (intro exI [of _ "k - 10"]) auto
  qed
  show "file_ok g L (as_inode L i n)"
    unfolding file_ok_def fb
  proof (intro conjI allI ballI impI)
    show "i_dev (as_inode L i n) = ROOT_DEV" using n by (simp add: as_inode_def load_inode_def)
    show "home g x" if "x \<in> indirect (as_inode L i n)" for x using ind [OF that] finvD(1) [OF a(1)] hm by metis
    show "home g (fb L a k)" if "fb L a k \<noteq> 0" for k using finvD(3) [OF a(1) that] hm by auto
    show "fb L a k \<notin> indirect (as_inode L i n)" if "fb L a k \<noteq> 0" for k using ind finvD(4) [OF a(1) _ that] by blast
    show "j = k" if "fb L a k \<noteq> 0" "fb L a j = fb L a k" for j k by (rule finvD(5) [OF a(1) that])
  qed
  have l: "length bs < 2 ^ 20" by (rule nblk_bound [OF nb])
  show "unat (i_size (as_inode L i n)) = length bs"
    using a(2) l by (simp add: same_inode_def as_inode_def load_inode_def unat_of_nat take_bit_nat_eq_self)
  assume k: "k < length bs"
  then have "k div 1024 < nblk bs" by (simp add: nblk_def div_le_mono less_Suc_eq_le)
  note p = a(3) [OF this]
  have q: "1024 * (k div 1024) + k mod 1024 = k" by simp
  then have "k mod 1024 < length bs - 1024 * (k div 1024)" using k by linarith
  then have "part bs (k div 1024) (k mod 1024) = bs ! k" using k by (auto simp: part_def put_bytes_def)
  then show "file_block L (as_inode L i n) (k div BLOCK_SIZE) \<noteq> 0 \<and> fbyte L (as_inode L i n) k = bs ! k"
    using p by (simp add: fbyte_def fb BLOCK_SIZE_def)
qed

lemma stored_readi:
  assumes u: "calm u q" "txn u L D U Map.empty" "lg_start (lg u) = 2" "lg_size (lg u) = 30"
    and s: "stored L i bs lo hi" "nblk bs \<le> 778" "i_dev n = ROOT_DEV" "itable u k = as_inode L i n"
  shows "\<exists>v. readi k To_kernel 0 (of_nat (length bs)) u = Ret (int (length bs), bs) v"
proof -
  note f = stored_file [OF s(1-3) u(3,4)]
  have l: "unat (of_nat (length bs) :: u64) = length bs"
    using nblk_bound [OF s(2)] by (simp add: unat_of_nat take_bit_nat_eq_self)
  have "\<exists>v. readi k To_kernel 0 (of_nat (length bs)) u =
      Ret (int (length bs), map (fbyte L (itable u k)) [unat (0 :: u64)..<unat (0 :: u64) + length bs]) v \<and>
      blk_step u v \<and> txn v L D U Map.empty"
    by (rule readi_ok [OF u(1,2)]) (use f l s(4) nblk_bound [OF s(2)] in simp_all)
  moreover have "map (fbyte L (itable u k)) [0..<length bs] = bs"
    using f(3) s(4) by (intro nth_equalityI) simp_all
  ultimately show ?thesis by auto
qed

text \<open>What the home blocks of two images agree on.\<close>

lemma stored_home:
  assumes "\<And>k. home g k \<Longrightarrow> L k = X k" "lg_start g = 2" "lg_size g = 30" "i < 8192"
  shows "stored X i bs lo hi \<Longrightarrow> hi \<le> 8192 \<Longrightarrow> stored L i bs lo hi" "dir_has X i name j \<Longrightarrow> dir_has L i name j"
proof -
  note hm = image_home [OF assms(2,3)]
  show "stored L i bs lo hi" if "stored X i bs lo hi" "hi \<le> 8192"
    by (rule stored_cong [OF that(1)]) (use assms(1,4) hm that(2) in simp_all)
  show "dir_has L i name j" if "dir_has X i name j"
    by (rule dir_has_cong [OF _ that]) (use assms(1) hm(1) [of 0] in simp)
qed

lemma stored_hi: "stored L i bs lo hi \<Longrightarrow> hi \<le> 8192"
  unfolding stored_def using finvD(6) by blast

end
