(* ===== verification/Spec2Isabelle.thy ===== *)
theory Spec2Isabelle
  imports Strings Ucopy Syscall Sh Mount
begin

text \<open>
  A verification library for \<^verbatim>\<open>oskernel\<close>, a small Unix-like kernel for 64-bit RISC-V, with the tool
  that makes its disk image, its user library and its shell.

  \<^bold>\<open>The program.\<close> A processor enters \<^verbatim>\<open>start\<close> and \<^verbatim>\<open>main\<close>, which initialise every part and end in the
  scheduler. A process enters the kernel by a trap; \<^verbatim>\<open>syscall\<close> dispatches to a handler; the handlers on
  files go through open files to pipes, devices or inodes; inodes go through the log to the buffer
  cache, the cache to the disk driver, and the driver waits for the disk by \<^verbatim>\<open>sleep_on\<close>, which brings
  in the scheduler again. Memory comes from one page allocator, on which the page tables are built.

  \<^bold>\<open>How code is modelled.\<close> A routine that changes the state of the kernel is a function from the state
  to an outcome (\<open>Prelude\<close>): it returns, panics, gives up the processor (\<open>Switch\<close>), waits for a spin lock
  (\<open>Spin\<close>), or a loop without a bound in the source exhausts its fuel (\<open>NoFuel\<close>). The state is a record
  that every layer extends: \<open>kbase\<close> (processors, processes, locks), \<open>kmem\<close> (physical memory), \<open>kblk\<close> (driver,
  disk and buffers), \<open>klog\<close>, \<open>kino\<close>, \<open>kdev\<close> (serial port, console, ticks), \<open>kfile\<close> (open files and pipes),
  \<open>kproc\<close>, \<open>ktrap\<close> (trap registers, interrupt controller). A lower routine is polymorphic in the
  extension, so the layers above call it as it is. Pointers to elements of tables are indices; physical
  memory, page tables and trap frames are bytes at 64-bit addresses; integers are words wherever the
  code can wrap. Definitions have the names of the functions, macros and structures of the source.

  \<^bold>\<open>The theories, from the bottom up.\<close>
  \<^item> \<open>Prelude\<close>: outcomes, sequencing, generic lemmas. \<open>Riscv\<close>: \<^verbatim>\<open>include/riscv.h\<close>, \<^verbatim>\<open>include/memlayout.h\<close>.
    \<open>Strings\<close>: \<^verbatim>\<open>kernel/lib/string.c\<close>; overlapping moves, the round trip of stored names, and that
    \<^verbatim>\<open>strlen\<close> ends exactly on terminated strings.
  \<^item> \<open>Hart\<close>: \<^verbatim>\<open>kernel/sched/cpu.c\<close> and the spin locks of \<^verbatim>\<open>kernel/lock.c\<close>; nesting of interrupts, and mutual
    exclusion over all interleavings of the processors. \<open>Sched\<close>: \<^verbatim>\<open>sched\<close>, \<^verbatim>\<open>sleep_on\<close>, \<^verbatim>\<open>wake_up\<close>, \<^verbatim>\<open>kill\<close>
    and the sleep locks; no wake-up is lost.
  \<^item> \<open>Interfaces\<close> and \<open>Ring\<close>: the contracts shared by several parts, as locales. \<open>resource_pool\<close> is interpreted
    on the page allocator (\<open>Pmem\<close>) and on the disk descriptors (\<open>Virtio\<close>), \<open>block_pins\<close>, which extends
    \<open>block_io\<close>, on the buffer cache (\<open>Buf\<close>), \<open>fifo\<close> on the transmit queue (\<open>Uart\<close>) and the pipe (\<open>File\<close>).
  \<^item> \<open>Pmem\<close>, \<open>Vm\<close>, \<open>Ptable\<close>, \<open>Ucopy\<close>: \<^verbatim>\<open>kernel/mm/mm.c\<close>. \<open>Vm\<close> has the definitions; \<open>Ptable\<close> shows that
    mapping and unmapping refine updates of a function from addresses to entries, \<open>Ucopy\<close> the round trip of
    the copies to and from user memory, and exactly when \<^verbatim>\<open>copy_str_in\<close> ends.
  \<^item> \<open>Virtio\<close>: \<^verbatim>\<open>kernel/dev/virtio_disk.c\<close>; what is written is read back. \<open>Buf\<close>: \<^verbatim>\<open>kernel/fs/buf.c\<close> refines an
    array of blocks. \<open>Layout\<close>: \<^verbatim>\<open>include/fs/fs.h\<close> as bytes. \<open>Log\<close>: \<^verbatim>\<open>kernel/fs/log.c\<close>, \<^verbatim>\<open>kernel/fs/fs.c\<close>; a
    crash at any disk write of a commit leaves all of the transaction or none of it.
  \<^item> \<open>Inode\<close>, \<open>Ifile\<close>: \<^verbatim>\<open>kernel/fs/inode.c\<close>; definitions, then block allocation, the inode table,
    reading what was written, and the walk along a path.
  \<^item> \<open>Uart\<close>, \<open>Console\<close>: \<^verbatim>\<open>kernel/dev/uart.c\<close>, \<^verbatim>\<open>kernel/printk.c\<close>, \<^verbatim>\<open>kernel/dev/console.c\<close>; output in order,
    numbers printed with their value, line editing. \<open>File\<close>: \<^verbatim>\<open>kernel/fs/pipe.c\<close>, \<^verbatim>\<open>kernel/fs/file.c\<close>; a pipe is
    a queue of bytes.
  \<^item> \<open>Proc\<close>: the rest of \<^verbatim>\<open>kernel/sched/proc.c\<close>; process identifiers, exit, fairness of the scheduler.
    \<open>Exec\<close>: \<^verbatim>\<open>kernel/fs/exec.c\<close>. \<open>Timer\<close>: \<^verbatim>\<open>kernel/dev/timer.c\<close>, \<^verbatim>\<open>kernel/dev/plic.c\<close>; a sleeper is woken and
    finishes at its deadline. \<open>Sysfile\<close>: \<^verbatim>\<open>kernel/syscall/sysfile.c\<close>. \<open>Syscall\<close>: \<^verbatim>\<open>kernel/syscall/syscall.c\<close>,
    \<^verbatim>\<open>kernel/syscall/sysproc.c\<close>, \<^verbatim>\<open>kernel/trap/trap.c\<close>, \<^verbatim>\<open>kernel/boot/start.c\<close>, \<^verbatim>\<open>kernel/boot/main.c\<close>.
  \<^item> \<open>Ulib\<close>, \<open>Sh\<close>: \<^verbatim>\<open>user/ulib.c\<close> and \<^verbatim>\<open>user/sh.c\<close>; the heap hands out no byte twice, and the shell parses a
    printed command back to itself. \<open>Mkfs\<close>, \<open>Mount\<close>: \<^verbatim>\<open>tools/mkfs.c\<close> and what the kernel finds on the image
    it makes; this theory joins the two (\<open>mkfs_boots\<close>).

  \<^bold>\<open>Contracts.\<close> Lemmas about a layer are stated over the contract of the one below: \<open>pm_inv\<close> (the free
  list), \<open>vm_ok\<close> (page tables disjoint from it), \<open>bcache s L D W R H\<close> (the cache shows \<open>L\<close> over the disk
  \<open>D\<close>), \<open>txn s L D W H\<close> (the running transaction sees \<open>L\<close>), \<open>calm s p\<close> (process \<open>p\<close> runs, no lock is held
  and nobody else waits). The witnesses start from the state after boot and run the model.

  \<^bold>\<open>Concurrency.\<close> Spin locks, the scheduler and the wait for the disk are modelled with their steps. The
  lemmas on the layers above are about one kernel path from \<open>calm\<close>: a path that has to wait ends in
  \<open>Switch\<close>, and what happens when it is resumed is stated where a property needs it.

  \<^bold>\<open>Bounds and fuel.\<close> A loop over a table is a recursion over its indices. The scan of the cache has \<open>N_BUF\<close>
  + 1 turns, one per node of the list and one for the head. \<^verbatim>\<open>lookup\<close> has a turn more than the path has
  bytes (\<open>lookup_walks\<close> has no fuel left in it). \<^verbatim>\<open>uart_start\<close> has a turn per slot of its queue. \<^verbatim>\<open>pid_alloc\<close>
  has 4097 turns: a scan that has not ended then has been round the bitmap and never ends
  (\<open>pid_scan_ends\<close>). \<^verbatim>\<open>copy_str_in\<close> has 2: one that has not met the terminator by then never ends
  (\<open>copy_str_in_terminates_iff\<close>). \<^verbatim>\<open>strlen\<close> is a partial function. The others end by \<open>termination\<close> proofs.

  \<^bold>\<open>What is not modelled.\<close> The assembly (\<^verbatim>\<open>entry.S\<close>, \<^verbatim>\<open>switch.S\<close>, \<^verbatim>\<open>trap_vector.S\<close>, \<^verbatim>\<open>usys.S\<close>, \<^verbatim>\<open>initcode.S\<close>):
  \<^verbatim>\<open>context_switch\<close> is the outcome \<open>Switch\<close>. The devices are models of their documented behaviour. Fences
  and memory ordering have no effect. The user programs other than the shell, and the functions of the
  library and the shell that only make system calls (\<^verbatim>\<open>getcwd\<close>, \<^verbatim>\<open>stat\<close>, \<^verbatim>\<open>execvp\<close>, \<^verbatim>\<open>run_cmd\<close>, \<^verbatim>\<open>end_cmd\<close>,
  \<^verbatim>\<open>free_tokens\<close>), are left out.
\<close>

section \<open>Properties\<close>


text \<open>A disk that holds an image.\<close>

definition with_image :: "(u32 \<Rightarrow> blk) \<Rightarrow> kino" where
  "with_image X = ino_ready\<lparr>bc := (bc ino_ready)\<lparr>platter := \<lambda>sec. X (ucast (drop_bit 1 sec))\<rparr>\<rparr>"

lemma with_image_ok:
  "\<exists>s M. binit (with_image X) = Ret () s \<and> calm s 0 \<and> bcache s M M [] (\<lambda>_. 0) Map.empty \<and> (\<forall>k. bno_ok k \<longrightarrow> M k = X k)"
proof -
  have "calm (with_image X) 0" "vd_idle (vd (bc (with_image X)))" "past (bc (with_image X)) = []"
    "\<And>i. i < N_BUF \<Longrightarrow> b_dev (bufs (bc (with_image X)) i) = 0 \<and> \<not> b_disk (bufs (bc (with_image X)) i)"
    by (simp_all add: with_image_def ino_ready_def start_defs kino.defs)
  moreover have "ucast (drop_bit 1 (sector_of k)) = k" if "bno_ok k" for k :: u32
  proof -
    have "unat (k * 2) = 2 * unat k" using that by (simp add: unat_word_ariths bno_ok_def)
    then have "unat (drop_bit 1 (sector_of k)) = unat k"
      by (simp add: sector_of_def drop_bit_eq_div unat_div unat_u32_u64)
    moreover have "take_bit 32 (unat k) = unat k" using that by (intro take_bit_nat_eq_self) (simp add: bno_ok_def)
    ultimately show ?thesis by (simp add: word_unat_eq_iff unsigned_ucast_eq)
  qed
  ultimately show ?thesis
    using binit_ok [of "with_image X"] lock_init_calm [of "with_image X" _ 0] by (fastforce simp: with_image_def)
qed


end
